(* ===== verification/TA_Prelude.thy ===== *)
theory TA_Prelude
  imports Main "HOL-Library.Word" "HOL-Library.List_Lexorder" "HOL-Library.Char_ord"
    "HOL-Library.Product_Lexorder"
begin

text \<open>
  Shared ground of the development.

  \<^item> Faults: a failed \<open>assert\<close>, an \<open>abort()\<close>, a null or dangling pointer access, an access out of
    range or a C++ exception ends the run of an operation; an operation that can end so returns
    \<open>fault + 'a\<close> (\<open>Inl\<close> the fault). The build compiles with assertions on (no NDEBUG in
    CMakeLists.txt), so a failed \<open>assert\<close> is an observable outcome.
  \<^item> Machine integers: \<open>size_t\<close> and \<open>int\<close> values are \<open>nat\<close> and \<open>int\<close> with the conversions and
    the wrap-around of the source written out.
  \<^item> The standard containers the code uses: \<open>std::set\<close> as a strictly sorted list, \<open>std::map\<close> as
    an association list strictly sorted by key (iteration follows the key order),
    \<open>std::vector::resize\<close>, and \<open>std::find\<close> on characters.
\<close>

section \<open>Collections of facts\<close>

named_theorems res_simps "equations and inversions of the result type"
named_theorems oset_simps "laws of ordered sets and ordered maps"

section \<open>Faults and results\<close>

datatype fault =
    AssertFailed string
  | Aborted string
  | NullDeref
  | Dangling
  | OutOfRange
  | LengthError

type_synonym 'a res = "fault + 'a"

definition bind_res :: "'a res \<Rightarrow> ('a \<Rightarrow> 'b res) \<Rightarrow> 'b res" where
  "bind_res m k = (case m of Inl e \<Rightarrow> Inl e | Inr x \<Rightarrow> k x)"

definition cassert :: "bool \<Rightarrow> string \<Rightarrow> 'a res \<Rightarrow> 'a res" where
  "cassert c msg k = (if c then k else Inl (AssertFailed msg))"

text \<open>A loop over a list whose body may fault (range-based \<open>for\<close>).\<close>

fun fold_res :: "('a \<Rightarrow> 's \<Rightarrow> 's res) \<Rightarrow> 'a list \<Rightarrow> 's \<Rightarrow> 's res" where
  "fold_res f [] s = Inr s"
| "fold_res f (x # xs) s = bind_res (f x s) (fold_res f xs)"

text \<open>A result is a permitted fault or a value with a property.\<close>

definition yields :: "(fault \<Rightarrow> bool) \<Rightarrow> ('a \<Rightarrow> bool) \<Rightarrow> 'a res \<Rightarrow> bool" where
  "yields F Q m = (case m of Inl e \<Rightarrow> F e | Inr x \<Rightarrow> Q x)"

section \<open>Machine integers\<close>

text \<open>\<open>size_t\<close> subtraction and addition: 64 bits, wrapping around.\<close>

definition sub64 :: "nat \<Rightarrow> nat \<Rightarrow> nat" where
  "sub64 a b = (if b \<le> a then a - b else a + 2 ^ 64 - b)"

definition add64 :: "nat \<Rightarrow> nat \<Rightarrow> nat" where
  "add64 a b = (a + b) mod 2 ^ 64"

text \<open>The implicit conversions \<open>size_t\<close> to \<open>int\<close> (low 32 bits, read as two's complement) and
  \<open>int\<close> to \<open>size_t\<close> (sign extension to 64 bits).\<close>

definition int_of_size :: "nat \<Rightarrow> int" where
  "int_of_size n = (let m = n mod 2 ^ 32 in if m < 2 ^ 31 then int m else int m - 2 ^ 32)"

definition size_of_int :: "int \<Rightarrow> nat" where
  "size_of_int i = nat (i mod 2 ^ 64)"

text \<open>The largest size of a \<open>std::vector<char>\<close>; \<open>resize\<close> past it throws \<open>std::length_error\<close>.\<close>

definition vector_max_size :: nat where
  "vector_max_size = 2 ^ 63 - 1"

definition vector_resize :: "nat \<Rightarrow> char list \<Rightarrow> char list res" where
  "vector_resize n v =
     (if vector_max_size < n then Inl LengthError
      else Inr (take n v @ replicate (n - length v) (CHR 0x00)))"

section \<open>Searching characters\<close>

text \<open>\<open>std::find\<close>: the position of the first match in the sequence, its length when there is
  none (the iterator \<open>end\<close>).\<close>

fun find_char :: "char \<Rightarrow> string \<Rightarrow> nat" where
  "find_char c [] = 0"
| "find_char c (x # xs) = (if x = c then 0 else Suc (find_char c xs))"

section \<open>Ordered sets and maps\<close>

text \<open>\<open>std::set<T>\<close>: \<open>insert\<close> with its \<open>second\<close> component, \<open>erase\<close> by key with its count,
  and the prefix before \<open>lower_bound\<close>.\<close>

fun oset_insert :: "'a::linorder \<Rightarrow> 'a list \<Rightarrow> 'a list" where
  "oset_insert x [] = [x]"
| "oset_insert x (y # ys) =
     (if x < y then x # y # ys else if x = y then y # ys else y # oset_insert x ys)"

definition oset_erase :: "'a \<Rightarrow> 'a list \<Rightarrow> 'a list" where
  "oset_erase x xs = filter (\<lambda>y. y \<noteq> x) xs"

definition oset_count :: "'a \<Rightarrow> 'a list \<Rightarrow> nat" where
  "oset_count x xs = (if x \<in> set xs then 1 else 0)"

text \<open>\<open>std::map<string, string>\<close>: \<open>m[k] = v\<close> and \<open>find\<close>.\<close>

fun omap_update :: "'k::linorder \<Rightarrow> 'v \<Rightarrow> ('k \<times> 'v) list \<Rightarrow> ('k \<times> 'v) list" where
  "omap_update k v [] = [(k, v)]"
| "omap_update k v ((k', v') # m) =
     (if k < k' then (k, v) # (k', v') # m
      else if k = k' then (k, v) # m
      else (k', v') # omap_update k v m)"

abbreviation omap_wf :: "('k::linorder \<times> 'v) list \<Rightarrow> bool" where
  "omap_wf m \<equiv> sorted_wrt (<) (map fst m)"

abbreviation oset_wf :: "'a::linorder list \<Rightarrow> bool" where
  "oset_wf xs \<equiv> sorted_wrt (<) xs"

section \<open>Laws of results\<close>

lemma bind_res_simps [simp]:
  "bind_res (Inl e) k = Inl e"
  "bind_res (Inr x) k = k x"
  by (simp_all add: bind_res_def)

lemma bind_res_eq_Inr [res_simps]: "bind_res m k = Inr y \<longleftrightarrow> (\<exists>x. m = Inr x \<and> k x = Inr y)"
  by (cases m) simp_all

lemma bind_res_eq_Inl [res_simps]:
  "bind_res m k = Inl e \<longleftrightarrow> m = Inl e \<or> (\<exists>x. m = Inr x \<and> k x = Inl e)"
  by (cases m) auto

lemma bind_res_assoc: "bind_res (bind_res m f) g = bind_res m (\<lambda>x. bind_res (f x) g)"
  by (cases m) simp_all

lemma cassert_simps [simp]:
  "cassert True msg k = k"
  "cassert False msg k = Inl (AssertFailed msg)"
  by (simp_all add: cassert_def)

lemma cassert_eq_Inr [res_simps]: "cassert c msg k = Inr y \<longleftrightarrow> c \<and> k = Inr y"
  by (simp add: cassert_def)

lemma cassert_eq_Inl [res_simps]:
  "cassert c msg k = Inl e \<longleftrightarrow> (if c then k = Inl e else e = AssertFailed msg)"
  by (auto simp: cassert_def)

lemma cassert_cong [cong]: "c = c' \<Longrightarrow> (c' \<Longrightarrow> k = k') \<Longrightarrow> cassert c msg k = cassert c' msg k'"
  by (simp add: cassert_def)

lemma fold_res_append:
  "fold_res f (xs @ ys) s = bind_res (fold_res f xs s) (fold_res f ys)"
proof (induction xs arbitrary: s)
  case Nil
  then show ?case by simp
next
  case (Cons x xs)
  then show ?case by (cases "f x s") simp_all
qed

lemma fold_res_invariant:
  assumes "\<And>x s. x \<in> set xs \<Longrightarrow> I s \<Longrightarrow> \<exists>s'. f x s = Inr s' \<and> I s'" and "I s"
  shows "\<exists>s'. fold_res f xs s = Inr s' \<and> I s'"
  using assms
proof (induction xs arbitrary: s)
  case Nil
  then show ?case by simp
next
  case (Cons x xs)
  from Cons.prems obtain s1 where s1: "f x s = Inr s1" "I s1"
    by (meson list.set_intros(1))
  have "\<exists>s'. fold_res f xs s1 = Inr s' \<and> I s'"
    by (rule Cons.IH) (use Cons.prems(1) s1(2) in auto)
  with s1(1) show ?case by simp
qed

lemma yields_simps [simp]: "yields F Q (Inl e) = F e" "yields F Q (Inr x) = Q x"
  by (simp_all add: yields_def)

lemma yields_bind: "yields F P m \<Longrightarrow> (\<And>x. P x \<Longrightarrow> yields F Q (k x)) \<Longrightarrow> yields F Q (bind_res m k)"
  by (cases m) simp_all

lemma yields_cassert: "(c \<Longrightarrow> yields F Q k) \<Longrightarrow> (\<not> c \<Longrightarrow> F (AssertFailed msg)) \<Longrightarrow> yields F Q (cassert c msg k)"
  by (cases c) simp_all

lemma yields_mono: "yields F P m \<Longrightarrow> (\<And>x. P x \<Longrightarrow> Q x) \<Longrightarrow> yields F Q m"
  by (cases m) simp_all

lemma yields_InrD: "yields F Q m \<Longrightarrow> m = Inr x \<Longrightarrow> Q x"
  by simp

lemma yields_fold:
  assumes "\<And>x s. x \<in> set xs \<Longrightarrow> I s \<Longrightarrow> yields F I (f x s)" and "I s"
  shows "yields F I (fold_res f xs s)"
  using assms
proof (induction xs arbitrary: s)
  case Nil
  then show ?case by simp
next
  case (Cons x xs)
  then have "yields F I (f x s)" by simp
  then show ?case
    by (auto intro!: yields_bind [where P = I] Cons.IH Cons.prems(1))
qed

text \<open>The same with an invariant on what is left to do.\<close>

lemma yields_fold_rest:
  assumes "\<And>x xs s. I (x # xs) s \<Longrightarrow> yields F (I xs) (f x s)" and "I xs s"
  shows "yields F (I []) (fold_res f xs s)"
  using assms(2)
proof (induction xs arbitrary: s)
  case Nil
  then show ?case by simp
next
  case (Cons x xs)
  then show ?case
    by (auto intro!: yields_bind [where P = "I xs"] assms(1))
qed

section \<open>Laws of machine integers\<close>

lemma sub64_le [simp]: "b \<le> a \<Longrightarrow> sub64 a b = a - b"
  by (simp add: sub64_def)

lemma add64_small [simp]: "a + b < 2 ^ 64 \<Longrightarrow> add64 a b = a + b"
  by (simp add: add64_def)

lemma int_of_size_small [simp]: "n < 2 ^ 31 \<Longrightarrow> int_of_size n = int n"
  by (simp add: int_of_size_def)

lemma size_of_int_nonneg [simp]: "0 \<le> i \<Longrightarrow> i < 2 ^ 64 \<Longrightarrow> size_of_int i = nat i"
  by (simp add: size_of_int_def)

lemma int_of_size_bounds: "- (2 ^ 31) \<le> int_of_size n \<and> int_of_size n < 2 ^ 31"
proof -
  have "n mod 2 ^ 32 < 2 ^ 32" by (rule mod_less_divisor) simp
  then show ?thesis unfolding int_of_size_def Let_def by simp arith
qed

lemma length_vector_resize: "vector_resize n v = Inr w \<Longrightarrow> length w = n"
  by (auto simp: vector_resize_def split: if_splits)

lemma vector_resize_grow:
  "length v \<le> n \<Longrightarrow> n \<le> vector_max_size \<Longrightarrow>
   vector_resize n v = Inr (v @ replicate (n - length v) (CHR 0x00))"
  by (simp add: vector_resize_def)

section \<open>Laws of searching\<close>

lemma find_char_le: "find_char c xs \<le> length xs"
  by (induction xs) auto

lemma find_char_eq_length: "find_char c xs = length xs \<longleftrightarrow> c \<notin> set xs"
  by (induction xs) auto

lemma find_char_append_notin: "c \<notin> set xs \<Longrightarrow> find_char c (xs @ ys) = length xs + find_char c ys"
  by (induction xs) auto

lemma find_char_append_Cons [simp]: "c \<notin> set xs \<Longrightarrow> find_char c (xs @ c # ys) = length xs"
  by (simp add: find_char_append_notin)

lemma find_char_split:
  assumes "find_char c xs < length xs"
  shows "xs = take (find_char c xs) xs @ c # drop (Suc (find_char c xs)) xs"
  using assms by (induction xs) auto

lemma find_char_take_notin: "c \<notin> set (take (find_char c xs) xs)"
  by (induction xs) auto

section \<open>Laws of ordered sets and maps\<close>

lemma set_oset_insert [simp]: "set (oset_insert x xs) = insert x (set xs)"
  by (induction xs) auto

lemma oset_wf_insert [simp]: "oset_wf xs \<Longrightarrow> oset_wf (oset_insert x xs)"
  by (induction xs) auto

lemma length_oset_insert:
  "oset_wf xs \<Longrightarrow> length (oset_insert x xs) = (if x \<in> set xs then length xs else Suc (length xs))"
  by (induction xs) auto

lemma set_oset_erase [simp]: "set (oset_erase x xs) = set xs - {x}"
  by (auto simp: oset_erase_def)

lemma oset_wf_erase [simp]: "oset_wf xs \<Longrightarrow> oset_wf (oset_erase x xs)"
  unfolding oset_erase_def by (induction xs) auto

lemma oset_wf_distinct: "oset_wf xs \<Longrightarrow> distinct xs"
  by (induction xs) auto

lemma oset_wf_unique: "oset_wf xs \<Longrightarrow> oset_wf ys \<Longrightarrow> set xs = set ys \<Longrightarrow> xs = ys"
  by (metis sorted_distinct_set_unique strict_sorted_iff)

lemma length_oset_erase:
  "distinct xs \<Longrightarrow> length (oset_erase x xs) = (if x \<in> set xs then length xs - 1 else length xs)"
  unfolding oset_erase_def
  by (induction xs) (auto simp: filter_id_conv dest: length_pos_if_in_set)

lemma map_of_omap_update [simp]: "map_of (omap_update k v m) = (map_of m)(k \<mapsto> v)"
  by (induction m) (auto simp: fun_eq_iff)

lemma keys_omap_update [simp]: "fst ` set (omap_update k v m) = insert k (fst ` set m)"
  by (induction k v m rule: omap_update.induct) auto

lemma omap_wf_update [simp]: "omap_wf m \<Longrightarrow> omap_wf (omap_update k v m)"
proof (induction k v m rule: omap_update.induct)
  case (1 k v)
  then show ?case by simp
next
  case (2 k v k' v' m)
  then have "\<forall>x \<in> fst ` set (omap_update k v m). k < k' \<or> k = k' \<or> k' < x"
    by auto
  with 2 show ?case by auto
qed

end
