(* ===== verification/TA_Buffer.thy ===== *)
theory TA_Buffer
  imports TA_Prelude
begin

text \<open>
  The network buffer (\<open>src/common/Buffer.h\<close>, \<open>src/common/Buffer.cpp\<close>): a byte vector with a
  reader and a writer index. Pointers into the vector are indices into \<open>m_buffer\<close>. The interface
  the clients rely on (the HTTP parser, the HTTP response, the TCP connection) is the locale
  \<open>byte_queue\<close>: the readable bytes behave as a first-in first-out queue of characters. It is
  interpreted on the operations of \<open>Buffer\<close>.
\<close>

section \<open>Data\<close>

record buffer =
  m_buffer :: "char list"
  m_readerIndex :: nat
  m_writerIndex :: nat

definition kCheapPrepend :: nat where
  "kCheapPrepend = 8"

definition kInitialSize :: nat where
  "kInitialSize = 4096"

definition kExtraBufferSize :: nat where
  "kExtraBufferSize = 10240"

definition kCRLF :: string where
  "kCRLF = [CHR 0x0D, CHR 0x0A]"

section \<open>Observers\<close>

definition readableBytes :: "buffer \<Rightarrow> nat" where
  "readableBytes b = sub64 (m_writerIndex b) (m_readerIndex b)"

definition writableBytes :: "buffer \<Rightarrow> nat" where
  "writableBytes b = sub64 (length (m_buffer b)) (m_writerIndex b)"

definition prependableBytes :: "buffer \<Rightarrow> nat" where
  "prependableBytes b = m_readerIndex b"

definition peek :: "buffer \<Rightarrow> nat" where
  "peek b = m_readerIndex b"

definition beginWrite :: "buffer \<Rightarrow> nat" where
  "beginWrite b = m_writerIndex b"

text \<open>The bytes of the vector in the pointer range \<open>[from, until)\<close>.\<close>

definition bytes_between :: "nat \<Rightarrow> nat \<Rightarrow> buffer \<Rightarrow> string" where
  "bytes_between from until b = take (until - from) (drop from (m_buffer b))"

text \<open>The readable bytes, \<open>[peek(), beginWrite())\<close>.\<close>

definition contents :: "buffer \<Rightarrow> string" where
  "contents b = bytes_between (peek b) (beginWrite b) b"

text \<open>\<open>std::search\<close>: the position of the first occurrence of the pattern, the length of the
  sequence when there is none.\<close>

fun search_sub :: "string \<Rightarrow> string \<Rightarrow> nat" where
  "search_sub pat [] = 0"
| "search_sub pat (x # xs) =
     (if take (length pat) (x # xs) = pat then 0 else Suc (search_sub pat xs))"

definition findCRLF :: "buffer \<Rightarrow> nat option" where
  "findCRLF b =
     (let crlf = peek b + search_sub kCRLF (contents b)
      in if crlf = beginWrite b then None else Some crlf)"

section \<open>Operations\<close>

definition Buffer_ctor :: "nat \<Rightarrow> buffer res" where
  "Buffer_ctor initialSize =
     (let b = \<lparr>m_buffer = replicate (kCheapPrepend + initialSize) (CHR 0x00),
               m_readerIndex = kCheapPrepend, m_writerIndex = kCheapPrepend\<rparr>
      in cassert (readableBytes b = 0) ''readableBytes() == 0''
        (cassert (writableBytes b = initialSize) ''writableBytes() == initialSize''
        (cassert (prependableBytes b = kCheapPrepend) ''prependableBytes() == kCheapPrepend''
        (Inr b))))"

definition hasWritten :: "nat \<Rightarrow> buffer \<Rightarrow> buffer res" where
  "hasWritten len b =
     cassert (len \<le> writableBytes b) ''len <= writableBytes()''
       (Inr (b\<lparr>m_writerIndex := m_writerIndex b + len\<rparr>))"

definition unwrite :: "nat \<Rightarrow> buffer \<Rightarrow> buffer res" where
  "unwrite len b =
     cassert (len \<le> readableBytes b) ''len <= readableBytes()''
       (Inr (b\<lparr>m_writerIndex := sub64 (m_writerIndex b) len\<rparr>))"

definition retrieveAll :: "buffer \<Rightarrow> buffer" where
  "retrieveAll b = b\<lparr>m_readerIndex := kCheapPrepend, m_writerIndex := kCheapPrepend\<rparr>"

definition retrieve :: "nat \<Rightarrow> buffer \<Rightarrow> buffer res" where
  "retrieve len b =
     cassert (len \<le> readableBytes b) ''len <= readableBytes()''
       (if len < readableBytes b
        then Inr (b\<lparr>m_readerIndex := m_readerIndex b + len\<rparr>)
        else Inr (retrieveAll b))"

definition retrieveUntil :: "nat \<Rightarrow> buffer \<Rightarrow> buffer res" where
  "retrieveUntil until b =
     cassert (peek b \<le> until) ''peek() <= end''
       (cassert (until \<le> beginWrite b) ''end <= beginWrite()''
         (retrieve (until - peek b) b))"

definition retrieveAsString :: "nat \<Rightarrow> buffer \<Rightarrow> (string \<times> buffer) res" where
  "retrieveAsString len b =
     cassert (len \<le> readableBytes b) ''len <= readableBytes()''
       (let result = bytes_between (peek b) (peek b + len) b
        in bind_res (retrieve len b) (\<lambda>b'. Inr (result, b')))"

text \<open>\<open>std::copy\<close> of bytes into the vector at an index.\<close>

definition write_at :: "nat \<Rightarrow> string \<Rightarrow> char list \<Rightarrow> char list" where
  "write_at i bs v = take i v @ bs @ drop (i + length bs) v"

definition makeSpace :: "int \<Rightarrow> buffer \<Rightarrow> buffer res" where
  "makeSpace len b =
     (if add64 (writableBytes b) (prependableBytes b) < add64 (size_of_int len) kCheapPrepend
      then bind_res (vector_resize (add64 (m_writerIndex b) (size_of_int len)) (m_buffer b))
             (\<lambda>v. Inr (b\<lparr>m_buffer := v\<rparr>))
      else cassert (kCheapPrepend < m_readerIndex b) ''kCheapPrepend < m_readerIndex''
        (let readable = readableBytes b;
             b' = b\<lparr>m_buffer := write_at kCheapPrepend (contents b) (m_buffer b),
                     m_readerIndex := kCheapPrepend,
                     m_writerIndex := kCheapPrepend + readable\<rparr>
         in cassert (readable = readableBytes b') ''readable == readableBytes()'' (Inr b')))"

definition append :: "string \<Rightarrow> buffer \<Rightarrow> buffer res" where
  "append data b =
     (let len = length data
      in bind_res (if writableBytes b < len then makeSpace (int_of_size len) b else Inr b) (\<lambda>b.
         cassert (len \<le> writableBytes b) ''writableBytes() >= len''
         (hasWritten len (b\<lparr>m_buffer := write_at (beginWrite b) data (m_buffer b)\<rparr>))))"

text \<open>\<open>readFd\<close> calls \<open>readv(2)\<close> with one or two buffers. The system call is the parameter
  \<open>sys_readv\<close>: from the lengths of the buffers to an errno or the bytes delivered, which fill the
  buffers in order. The result is the return value, \<open>*savedErrno\<close> when it is set, and the new buffer.\<close>

definition readFd :: "(nat list \<Rightarrow> nat + string) \<Rightarrow> buffer \<Rightarrow> (int \<times> nat option \<times> buffer) res" where
  "readFd sys_readv b =
     (let writable = writableBytes b;
          iovcnt = (if writable < kExtraBufferSize then 2 else 1)
      in case sys_readv (take iovcnt [writable, kExtraBufferSize]) of
           Inl err \<Rightarrow> Inr (- 1, Some err, b)
         | Inr bs \<Rightarrow>
             (let n = length bs;
                  b1 = b\<lparr>m_buffer := write_at (beginWrite b) (take writable bs) (m_buffer b)\<rparr>
              in if n \<le> writable
                 then Inr (int n, None, b1\<lparr>m_writerIndex := m_writerIndex b + n\<rparr>)
                 else bind_res (append (drop writable bs)
                                  (b1\<lparr>m_writerIndex := length (m_buffer b1)\<rparr>))
                        (\<lambda>b2. Inr (int n, None, b2))))"

text \<open>What \<open>readv(2)\<close> promises: it delivers no more bytes than the buffers hold.\<close>

definition readv_ok :: "(nat list \<Rightarrow> nat + string) \<Rightarrow> bool" where
  "readv_ok sys_readv \<longleftrightarrow>
     (\<forall>lens. case sys_readv lens of Inl _ \<Rightarrow> True | Inr bs \<Rightarrow> length bs \<le> sum_list lens)"

section \<open>Invariant and interface\<close>

text \<open>The picture in \<open>Buffer.h\<close>: \<open>0 <= readerIndex <= writerIndex <= size\<close>, and the prependable
  area never shrinks below \<open>kCheapPrepend\<close>.\<close>

definition buf_wf :: "buffer \<Rightarrow> bool" where
  "buf_wf b \<longleftrightarrow> kCheapPrepend \<le> m_readerIndex b \<and> m_readerIndex b \<le> m_writerIndex b \<and>
     m_writerIndex b \<le> length (m_buffer b) \<and> length (m_buffer b) \<le> vector_max_size"

text \<open>Room for \<open>n\<close> more bytes: the length survives the conversion to the \<open>int\<close> parameter of
  \<open>makeSpace\<close>, and the vector stays below its maximal size.\<close>

definition buf_room :: "nat \<Rightarrow> buffer \<Rightarrow> bool" where
  "buf_room n b \<longleftrightarrow> n < 2 ^ 31 \<and> m_writerIndex b + n \<le> vector_max_size"

locale byte_queue =
  fixes invar :: "'b \<Rightarrow> bool"
    and bytes :: "'b \<Rightarrow> string"
    and room :: "nat \<Rightarrow> 'b \<Rightarrow> bool"
    and put :: "string \<Rightarrow> 'b \<Rightarrow> 'b res"
    and drop_front :: "nat \<Rightarrow> 'b \<Rightarrow> 'b res"
  assumes put_ok: "invar b \<Longrightarrow> room (length s) b \<Longrightarrow>
      \<exists>b'. put s b = Inr b' \<and> invar b' \<and> bytes b' = bytes b @ s"
    and put_room: "invar b \<Longrightarrow> room (length s + n) b \<Longrightarrow> put s b = Inr b' \<Longrightarrow> room n b'"
    and drop_ok: "invar b \<Longrightarrow> n \<le> length (bytes b) \<Longrightarrow>
      \<exists>b'. drop_front n b = Inr b' \<and> invar b' \<and> bytes b' = List.drop n (bytes b)"
    and drop_room: "invar b \<Longrightarrow> room n b \<Longrightarrow> drop_front k b = Inr b' \<Longrightarrow> room n b'"
    and drop_short: "invar b \<Longrightarrow> length (bytes b) < n \<Longrightarrow> \<exists>msg. drop_front n b = Inl (AssertFailed msg)"
    and room_mono: "room n b \<Longrightarrow> m \<le> n \<Longrightarrow> room m b"
begin

text \<open>Several appends in a row write the concatenation of the pieces.\<close>

lemma puts_ok:
  assumes "invar b" and "room (length (concat ss)) b"
  shows "\<exists>b'. fold_res put ss b = Inr b' \<and> invar b' \<and> bytes b' = bytes b @ concat ss"
  using assms
proof (induction ss arbitrary: b)
  case Nil
  then show ?case by simp
next
  case (Cons s ss)
  from Cons.prems(2) have r: "room (length s + length (concat ss)) b" by simp
  then have "room (length s) b" by (rule room_mono) simp
  with Cons.prems(1) obtain b1 where b1: "put s b = Inr b1" "invar b1" "bytes b1 = bytes b @ s"
    using put_ok by blast
  have "room (length (concat ss)) b1" by (rule put_room [OF Cons.prems(1) r b1(1)])
  with b1(2) obtain b2 where "fold_res put ss b1 = Inr b2" "invar b2" "bytes b2 = bytes b1 @ concat ss"
    using Cons.IH by blast
  with b1 show ?case by simp
qed

text \<open>What was appended comes out first in, first out.\<close>

lemma put_then_drop:
  assumes "invar b" and "room (length s) b"
  shows "\<exists>b1 b2. put s b = Inr b1 \<and> drop_front (length (bytes b)) b1 = Inr b2 \<and> bytes b2 = s"
proof -
  from assms obtain b1 where b1: "put s b = Inr b1" "invar b1" "bytes b1 = bytes b @ s"
    using put_ok by blast
  then have "length (bytes b) \<le> length (bytes b1)" by simp
  with b1(2) obtain b2 where "drop_front (length (bytes b)) b1 = Inr b2"
      "bytes b2 = List.drop (length (bytes b)) (bytes b1)"
    using drop_ok by blast
  with b1 show ?thesis by simp
qed

lemma drop_iff:
  assumes "invar b"
  shows "(\<exists>b'. drop_front n b = Inr b') \<longleftrightarrow> n \<le> length (bytes b)"
  using assms drop_ok [of b n] drop_short [of b n] by (metis Inl_Inr_False not_le)

end

section \<open>A specification of operation sequences\<close>

text \<open>The buffer's mutators as commands, run on the buffer and on the plain string of unread bytes
  (\<open>None\<close>: the request asks for more bytes than there are, and the code's assertion fails).\<close>

datatype buffer_op = AppendOp string | RetrieveOp nat | RetrieveAllOp | UnwriteOp nat | RetrieveAsStringOp nat

fun exec_op :: "buffer_op \<Rightarrow> buffer \<Rightarrow> buffer res" where
  "exec_op (AppendOp s) b = append s b"
| "exec_op (RetrieveOp n) b = retrieve n b"
| "exec_op RetrieveAllOp b = Inr (retrieveAll b)"
| "exec_op (UnwriteOp n) b = unwrite n b"
| "exec_op (RetrieveAsStringOp n) b = bind_res (retrieveAsString n b) (\<lambda>(s, b'). Inr b')"

fun spec_op :: "buffer_op \<Rightarrow> string \<Rightarrow> string option" where
  "spec_op (AppendOp s) q = Some (q @ s)"
| "spec_op (RetrieveOp n) q = (if n \<le> length q then Some (List.drop n q) else None)"
| "spec_op RetrieveAllOp q = Some []"
| "spec_op (UnwriteOp n) q = (if n \<le> length q then Some (take (length q - n) q) else None)"
| "spec_op (RetrieveAsStringOp n) q = (if n \<le> length q then Some (List.drop n q) else None)"

fun spec_run :: "buffer_op list \<Rightarrow> string \<Rightarrow> string option" where
  "spec_run [] q = Some q"
| "spec_run (x # xs) q = (case spec_op x q of None \<Rightarrow> None | Some q' \<Rightarrow> spec_run xs q')"

fun op_bytes :: "buffer_op \<Rightarrow> nat" where
  "op_bytes (AppendOp s) = length s"
| "op_bytes _ = 0"

section \<open>Facts about the operations\<close>

lemmas buffer_consts = kCheapPrepend_def kInitialSize_def kExtraBufferSize_def vector_max_size_def

lemma readableBytes_wf [simp]: "buf_wf b \<Longrightarrow> readableBytes b = m_writerIndex b - m_readerIndex b"
  by (simp add: readableBytes_def buf_wf_def)

lemma writableBytes_wf [simp]: "buf_wf b \<Longrightarrow> writableBytes b = length (m_buffer b) - m_writerIndex b"
  by (simp add: writableBytes_def buf_wf_def)

lemma length_write_at [simp]: "i + length bs \<le> length v \<Longrightarrow> length (write_at i bs v) = length v"
  by (simp add: write_at_def)

lemma take_write_at [simp]: "i \<le> length v \<Longrightarrow> take i (write_at i bs v) = take i v"
  by (simp add: write_at_def)

lemma take_drop_write_at:
  "r \<le> i \<Longrightarrow> i \<le> length v \<Longrightarrow>
   take (i + length bs - r) (drop r (write_at i bs v)) = take (i - r) (drop r v) @ bs"
  by (simp add: write_at_def take_drop)

lemma contents_alt: "contents b = take (m_writerIndex b - m_readerIndex b) (drop (m_readerIndex b) (m_buffer b))"
  by (simp add: contents_def bytes_between_def peek_def beginWrite_def)

lemma length_contents [simp]: "buf_wf b \<Longrightarrow> length (contents b) = m_writerIndex b - m_readerIndex b"
  by (auto simp: contents_alt buf_wf_def)

lemma Buffer_ctor_ok:
  "kCheapPrepend + n \<le> vector_max_size \<Longrightarrow>
   \<exists>b. Buffer_ctor n = Inr b \<and> buf_wf b \<and> contents b = [] \<and> m_writerIndex b = kCheapPrepend"
  by (simp add: Buffer_ctor_def Let_def readableBytes_def writableBytes_def prependableBytes_def
      buf_wf_def contents_alt)

lemma hasWritten_write:
  assumes "buf_wf b" and "length data \<le> length (m_buffer b) - m_writerIndex b"
  defines "b1 \<equiv> b\<lparr>m_buffer := write_at (beginWrite b) data (m_buffer b)\<rparr>"
  shows "\<exists>b'. hasWritten (length data) b1 = Inr b' \<and> buf_wf b' \<and> contents b' = contents b @ data \<and>
    m_writerIndex b' = m_writerIndex b + length data"
proof -
  have le: "m_writerIndex b + length data \<le> length (m_buffer b)"
    using assms(1,2) by (auto simp: buf_wf_def)
  have wf1: "buf_wf b1"
    using assms(1) le by (simp add: b1_def buf_wf_def beginWrite_def)
  let ?b' = "b1\<lparr>m_writerIndex := m_writerIndex b + length data\<rparr>"
  have "hasWritten (length data) b1 = Inr ?b'"
    using wf1 assms(2) le by (simp add: hasWritten_def) (simp add: b1_def beginWrite_def)
  moreover have "buf_wf ?b'"
    using wf1 le by (simp add: buf_wf_def b1_def beginWrite_def)
  moreover have "contents ?b' = contents b @ data"
    using assms(1) le
    by (simp add: contents_alt b1_def beginWrite_def buf_wf_def take_drop_write_at)
  ultimately show ?thesis by simp
qed

text \<open>\<open>makeSpace\<close> makes the requested space and keeps the readable bytes, by growing the vector or
  by moving the readable bytes to the front.\<close>

lemma makeSpace_guard:
  assumes "buf_wf b" and "buf_room n b"
  shows "add64 (writableBytes b) (prependableBytes b) =
      length (m_buffer b) - m_writerIndex b + m_readerIndex b"
    and "add64 (size_of_int (int n)) kCheapPrepend = n + kCheapPrepend"
    and "add64 (m_writerIndex b) (size_of_int (int n)) = m_writerIndex b + n"
  using assms
  by (auto simp: prependableBytes_def buf_wf_def buf_room_def buffer_consts writableBytes_def
      intro!: add64_small)

lemma makeSpace_ok:
  assumes wf: "buf_wf b" and room: "buf_room n b" and short: "writableBytes b < n"
  shows "\<exists>b'. makeSpace (int n) b = Inr b' \<and> buf_wf b' \<and> contents b' = contents b \<and>
    n \<le> length (m_buffer b') - m_writerIndex b' \<and> m_writerIndex b' \<le> m_writerIndex b"
proof (cases "length (m_buffer b) - m_writerIndex b + m_readerIndex b < n + kCheapPrepend")
  case True
  let ?v = "m_buffer b @ replicate (m_writerIndex b + n - length (m_buffer b)) (CHR 0x00)"
  have "vector_resize (m_writerIndex b + n) (m_buffer b) = Inr ?v"
    by (rule vector_resize_grow) (use wf room short in \<open>auto simp: buf_wf_def buf_room_def\<close>)
  then have "makeSpace (int n) b = Inr (b\<lparr>m_buffer := ?v\<rparr>)"
    using True by (simp add: makeSpace_def makeSpace_guard [OF wf room])
  with wf room short show ?thesis
    by (auto simp: buf_wf_def buf_room_def contents_alt)
next
  case False
  let ?b' = "b\<lparr>m_buffer := write_at kCheapPrepend (contents b) (m_buffer b),
    m_readerIndex := kCheapPrepend, m_writerIndex := kCheapPrepend + readableBytes b\<rparr>"
  have lt: "kCheapPrepend < m_readerIndex b"
    using False short wf by simp
  have fits: "kCheapPrepend + (m_writerIndex b - m_readerIndex b) \<le> length (m_buffer b)"
    using lt wf by (auto simp: buf_wf_def)
  have wf': "buf_wf ?b'"
    using wf fits by (auto simp: buf_wf_def)
  have "makeSpace (int n) b = Inr ?b'"
    using False lt wf wf' readableBytes_wf [OF wf']
    by (simp add: makeSpace_def makeSpace_guard [OF wf room] Let_def del: writableBytes_wf)
  moreover have "contents ?b' = contents b"
    using wf fits take_drop_write_at [of kCheapPrepend kCheapPrepend "m_buffer b" "contents b"]
    unfolding contents_alt [of ?b'] by simp
  moreover have "n \<le> length (m_buffer ?b') - m_writerIndex ?b' \<and> m_writerIndex ?b' \<le> m_writerIndex b"
    using wf lt fits False by (auto simp: buf_wf_def)
  ultimately show ?thesis
    using wf' by blast
qed

lemma append_aux:
  assumes wf: "buf_wf b" and room: "buf_room (length data) b"
  shows "\<exists>b'. append data b = Inr b' \<and> buf_wf b' \<and> contents b' = contents b @ data \<and>
    m_writerIndex b' \<le> m_writerIndex b + length data"
proof (cases "writableBytes b < length data")
  case True
  obtain b1 where b1: "makeSpace (int (length data)) b = Inr b1" "buf_wf b1" "contents b1 = contents b"
      "length data \<le> length (m_buffer b1) - m_writerIndex b1" "m_writerIndex b1 \<le> m_writerIndex b"
    using makeSpace_ok [OF wf room True] by blast
  with hasWritten_write [OF b1(2,4)] True room show ?thesis
    by (auto simp: append_def buf_room_def)
next
  case False
  with hasWritten_write [of b data] wf show ?thesis
    by (auto simp: append_def)
qed

lemma retrieve_aux:
  assumes "buf_wf b" and "n \<le> length (contents b)"
  shows "\<exists>b'. retrieve n b = Inr b' \<and> buf_wf b' \<and> contents b' = List.drop n (contents b) \<and>
    m_writerIndex b' \<le> m_writerIndex b"
proof (cases "n < length (contents b)")
  case True
  with assms show ?thesis
    by (auto simp: retrieve_def buf_wf_def contents_alt drop_take add.commute)
next
  case False
  with assms show ?thesis
    by (auto simp: retrieve_def retrieveAll_def buf_wf_def contents_alt)
qed

interpretation bq: byte_queue buf_wf contents buf_room append retrieve
proof (unfold_locales, goal_cases)
  case (1 b s)
  then show ?case using append_aux by blast
next
  case (2 b s n b')
  then have "buf_room (length s) b" by (simp add: buf_room_def)
  with 2 append_aux [of b s] show ?case by (auto simp: buf_room_def)
next
  case (3 b n)
  then show ?case using retrieve_aux by blast
next
  case (4 b n k b')
  have "k \<le> length (contents b)"
    using 4(1,3) by (auto simp: retrieve_def cassert_eq_Inr)
  with 4 retrieve_aux [of b k] show ?case by (auto simp: buf_room_def)
next
  case (5 b n)
  then show ?case by (simp add: retrieve_def)
next
  case (6 n b m)
  then show ?case by (simp add: buf_room_def)
qed

lemma append_room:
  "buf_wf b \<Longrightarrow> buf_room (length s + n) b \<Longrightarrow> append s b = Inr b' \<Longrightarrow> buf_room n b'"
  by (rule bq.put_room)

lemma unwrite_aux:
  assumes wf: "buf_wf b" and n: "n \<le> length (contents b)"
  shows "\<exists>b'. unwrite n b = Inr b' \<and> buf_wf b' \<and>
    contents b' = take (length (contents b) - n) (contents b) \<and> m_writerIndex b' \<le> m_writerIndex b"
proof -
  have le: "n \<le> m_writerIndex b - m_readerIndex b" using n wf by simp
  have "buf_wf (b\<lparr>m_writerIndex := m_writerIndex b - n\<rparr>)"
    using le wf by (auto simp: buf_wf_def)
  moreover have "contents (b\<lparr>m_writerIndex := m_writerIndex b - n\<rparr>) =
      take (m_writerIndex b - m_readerIndex b - n) (contents b)"
    by (simp add: contents_alt add.commute)
  ultimately show ?thesis
    using le wf by (auto simp: unwrite_def)
qed

lemma retrieveAsString_aux:
  assumes wf: "buf_wf b" and n: "n \<le> length (contents b)"
  shows "\<exists>b'. retrieveAsString n b = Inr (take n (contents b), b') \<and> retrieve n b = Inr b'"
proof -
  have le: "n \<le> m_writerIndex b - m_readerIndex b" using n wf by simp
  then have "bytes_between (peek b) (peek b + n) b = take n (contents b)"
    by (simp add: bytes_between_def peek_def contents_alt)
  with le wf retrieve_aux [OF wf n] show ?thesis
    by (auto simp: retrieveAsString_def Let_def)
qed

text \<open>One command: the buffer does what the string does, and room for later appends is kept.\<close>

lemma exec_op_refines:
  assumes wf: "buf_wf b" and room: "buf_room (op_bytes x + n) b"
  shows "case spec_op x (contents b) of
      None \<Rightarrow> \<exists>msg. exec_op x b = Inl (AssertFailed msg)
    | Some q \<Rightarrow> \<exists>b'. exec_op x b = Inr b' \<and> buf_wf b' \<and> contents b' = q \<and> buf_room n b'"
proof (cases x)
  case (AppendOp s)
  with room have "buf_room (length s) b" by (simp add: buf_room_def)
  with AppendOp wf room show ?thesis
    using append_aux [of b s] append_room [of b s n] by auto
next
  case (RetrieveOp k)
  with wf room show ?thesis
    using retrieve_aux [of b k] bq.drop_short [of b k] by (auto simp: buf_room_def)
next
  case RetrieveAllOp
  with wf room show ?thesis
    by (auto simp: retrieveAll_def buf_wf_def contents_alt buf_room_def)
next
  case (UnwriteOp k)
  with wf room show ?thesis
    using unwrite_aux [of b k] by (auto simp: buf_room_def unwrite_def)
next
  case (RetrieveAsStringOp k)
  with wf room show ?thesis
    using retrieveAsString_aux [of b k] retrieve_aux [of b k]
    by (auto simp: buf_room_def retrieveAsString_def)
qed

lemma exec_ops_refine:
  assumes "buf_wf b" and "buf_room (sum_list (map op_bytes xs)) b"
  shows "case spec_run xs (contents b) of
      None \<Rightarrow> \<exists>msg. fold_res exec_op xs b = Inl (AssertFailed msg)
    | Some q \<Rightarrow> \<exists>b'. fold_res exec_op xs b = Inr b' \<and> buf_wf b' \<and> contents b' = q"
  using assms
proof (induction xs arbitrary: b)
  case Nil
  then show ?case by simp
next
  case (Cons x xs)
  from Cons.prems have "buf_room (op_bytes x + sum_list (map op_bytes xs)) b" by simp
  from exec_op_refines [OF Cons.prems(1) this] Cons.IH show ?case
    by (fastforce split: option.splits)
qed

section \<open>Properties\<close>

text \<open>C2: the buffer refines a string of unread bytes. Any sequence of append, retrieve, retrieveAll,
  unwrite and retrieveAsString on a well-formed buffer leaves exactly the bytes that the same
  sequence leaves of the string, with the index invariant intact; it stops with a failed assertion
  exactly when the sequence asks for more bytes than are readable. (The appended bytes must fit the
  vector's maximal size and the \<open>int\<close> parameter of makeSpace.)\<close>

theorem buffer_refines_string:
  assumes "buf_wf b" and "buf_room (sum_list (map op_bytes xs)) b"
  shows "case spec_run xs (contents b) of
      None \<Rightarrow> \<exists>msg. fold_res exec_op xs b = Inl (AssertFailed msg)
    | Some q \<Rightarrow> \<exists>b'. fold_res exec_op xs b = Inr b' \<and> buf_wf b' \<and> contents b' = q"
  using assms by (rule exec_ops_refine)

abbreviation small_buffer :: buffer where
  "small_buffer \<equiv> \<lparr>m_buffer = replicate 8 (CHR 0x00) @ ''abcd'', m_readerIndex = 8, m_writerIndex = 12\<rparr>"

abbreviation small_ops :: "buffer_op list" where
  "small_ops \<equiv> [AppendOp ''efgh'', RetrieveOp 3, AppendOp ''ij'', UnwriteOp 1]"

theorem buffer_refines_string_witness:
  "\<exists>b'. fold_res exec_op small_ops small_buffer = Inr b' \<and> buf_wf b' \<and> contents b' = ''defghi''"
proof -
  have wf: "buf_wf small_buffer" by (simp add: buf_wf_def buffer_consts)
  have room: "buf_room (sum_list (map op_bytes small_ops)) small_buffer"
    by (simp add: buf_room_def buffer_consts)
  have "contents small_buffer = ''abcd''"
    by (simp add: contents_alt)
  then have "spec_run small_ops (contents small_buffer) = Some ''defghi''"
    by simp
  with buffer_refines_string [OF wf room] show ?thesis by (simp only: option.case)
qed

text \<open>ReadFd appends to the readable bytes exactly the bytes that readv delivered, whether they fit
  the writable area or spill into the 10240-byte extra buffer, and returns their number; on an error
  it returns -1, saves errno and leaves the buffer as it was.\<close>

theorem readFd_appends:
  assumes wf: "buf_wf b" and kernel: "readv_ok sys_readv"
    and room: "m_writerIndex b + writableBytes b + kExtraBufferSize \<le> vector_max_size"
  defines "answer \<equiv> sys_readv (take (if writableBytes b < kExtraBufferSize then 2 else 1)
      [writableBytes b, kExtraBufferSize])"
  shows "case answer of
      Inl err \<Rightarrow> readFd sys_readv b = Inr (- 1, Some err, b)
    | Inr bs \<Rightarrow> \<exists>b'. readFd sys_readv b = Inr (int (length bs), None, b') \<and> buf_wf b' \<and>
        contents b' = contents b @ bs"
proof (cases answer)
  case (Inl err)
  then show ?thesis by (simp add: readFd_def Let_def answer_def)
next
  case (Inr bs)
  let ?w = "length (m_buffer b) - m_writerIndex b"
  let ?b1 = "b\<lparr>m_buffer := write_at (beginWrite b) (take ?w bs) (m_buffer b)\<rparr>"
  have wf_bounds: "m_writerIndex b \<le> length (m_buffer b)" using wf by (simp add: buf_wf_def)
  have "length bs \<le> sum_list (take (if writableBytes b < kExtraBufferSize then 2 else 1)
      [writableBytes b, kExtraBufferSize])"
    using kernel Inr by (force simp: readv_ok_def answer_def split: sum.splits)
  then have len: "length bs \<le> ?w + kExtraBufferSize" and fit: "\<not> ?w < kExtraBufferSize \<Longrightarrow> length bs \<le> ?w"
    using wf by (auto split: if_splits)
  show ?thesis
  proof (cases "length bs \<le> ?w")
    case True
    then show ?thesis
      using Inr wf hasWritten_write [OF wf True]
      by (auto simp: readFd_def Let_def answer_def hasWritten_def cassert_eq_Inr)
  next
    case False
    let ?b2 = "?b1\<lparr>m_writerIndex := length (m_buffer ?b1)\<rparr>"
    have "length (take ?w bs) \<le> length (m_buffer b) - m_writerIndex b" by simp
    from hasWritten_write [OF wf this] False wf_bounds
    have b2: "buf_wf ?b2" "contents ?b2 = contents b @ take ?w bs"
      by (auto simp: hasWritten_def cassert_eq_Inr beginWrite_def)
    have "buf_room (length (drop ?w bs)) ?b2"
      using len room wf wf_bounds False by (auto simp: buf_room_def buffer_consts beginWrite_def)
    from append_aux [OF b2(1) this] obtain b3
      where "append (drop ?w bs) ?b2 = Inr b3" "buf_wf b3" "contents b3 = contents ?b2 @ drop ?w bs"
      by blast
    then show ?thesis
      using Inr wf False b2 by (auto simp: readFd_def Let_def answer_def)
  qed
qed

theorem readFd_appends_witness:
  "\<exists>b'. readFd (\<lambda>lens. Inr (take (sum_list lens) ''xyz'')) small_buffer = Inr (3, None, b') \<and>
     buf_wf b' \<and> contents b' = ''abcdxyz''"
proof -
  let ?sys = "\<lambda>lens. Inr (take (sum_list lens) ''xyz'') :: nat + string"
  have wf: "buf_wf small_buffer" by (simp add: buf_wf_def buffer_consts)
  have kernel: "readv_ok ?sys" by (simp add: readv_ok_def)
  have room: "m_writerIndex small_buffer + writableBytes small_buffer + kExtraBufferSize \<le> vector_max_size"
    by (simp add: writableBytes_def buffer_consts)
  have "contents small_buffer = ''abcd''" by (simp add: contents_alt)
  with readFd_appends [OF wf kernel room] show ?thesis
    by (simp add: writableBytes_def buffer_consts)
qed

end
