(* ===== verification/TA_Format.thy ===== *)
theory TA_Format
  imports TA_Prelude
begin

text \<open>
  Number formatting and scanning of the C library as the program uses it: the decimal output of
  \<open>snprintf\<close> (\<open>%d\<close>, \<open>%u\<close>, \<open>%zd\<close>, \<open>%06d\<close>), of \<open>std::to_string\<close> and of \<open>operator<<\<close> on streams,
  \<open>snprintf\<close>'s truncation to the size of its buffer, \<open>isspace\<close>, and \<open>atoi\<close>.
\<close>

section \<open>Printing\<close>

definition digit_char :: "nat \<Rightarrow> char" where
  "digit_char d = char_of (48 + d)"

fun dec_nat :: "nat \<Rightarrow> string" where
  "dec_nat n = (if n < 10 then [digit_char n] else dec_nat (n div 10) @ [digit_char (n mod 10)])"

declare dec_nat.simps [simp del]

definition dec_int :: "int \<Rightarrow> string" where
  "dec_int i = (if i < 0 then CHR ''-'' # dec_nat (nat (- i)) else dec_nat (nat i))"

text \<open>\<open>%0wd\<close> on a non-negative number, \<open>%wd\<close> on a non-negative number.\<close>

definition pad_with :: "char \<Rightarrow> nat \<Rightarrow> string \<Rightarrow> string" where
  "pad_with c w s = replicate (w - length s) c @ s"

text \<open>\<open>snprintf(buf, n, ...)\<close> stores at most \<open>n - 1\<close> characters; the C string read back from
  the buffer is that prefix.\<close>

definition snprintf_buf :: "nat \<Rightarrow> string \<Rightarrow> string" where
  "snprintf_buf n s = take (n - 1) s"

text \<open>A C string, such as the one a \<open>std::string\<close> gives to a call that takes a \<open>const char*\<close>, ends at its
  first null character.\<close>

definition c_str :: "string \<Rightarrow> string" where
  "c_str s = takeWhile (\<lambda>c. c \<noteq> CHR 0x00) s"

section \<open>Scanning\<close>

definition is_digit :: "char \<Rightarrow> bool" where
  "is_digit c \<longleftrightarrow> 48 \<le> (of_char c :: nat) \<and> (of_char c :: nat) \<le> 57"

text \<open>\<open>isspace\<close> in the C locale: space, \<open>\t \n \v \f \r\<close>.\<close>

definition isspace :: "char \<Rightarrow> bool" where
  "isspace c \<longleftrightarrow> c = CHR '' '' \<or> (9 \<le> (of_char c :: nat) \<and> (of_char c :: nat) \<le> 13)"

definition digit_val :: "char \<Rightarrow> nat" where
  "digit_val c = of_char c - 48"

fun digits_value :: "nat \<Rightarrow> string \<Rightarrow> nat" where
  "digits_value acc [] = acc"
| "digits_value acc (c # cs) = (if is_digit c then digits_value (10 * acc + digit_val c) cs else acc)"

text \<open>\<open>strtol\<close> clamps to the range of \<open>long\<close>; \<open>atoi\<close> keeps the low 32 bits of the result.\<close>

definition strtol10 :: "string \<Rightarrow> int" where
  "strtol10 s =
     (let t = dropWhile isspace s;
          v = (case t of
                 [] \<Rightarrow> 0
               | c # cs \<Rightarrow> (if c = CHR ''-'' then - int (digits_value 0 cs)
                            else if c = CHR ''+'' then int (digits_value 0 cs)
                            else int (digits_value 0 t)))
      in max (- (2 ^ 63)) (min (2 ^ 63 - 1) v))"

definition wrap32 :: "int \<Rightarrow> int" where
  "wrap32 i = (i + 2 ^ 31) mod 2 ^ 32 - 2 ^ 31"

definition atoi :: "string \<Rightarrow> int" where
  "atoi s = wrap32 (strtol10 s)"

section \<open>Facts\<close>

lemma of_char_digit_char [simp]: "d < 10 \<Longrightarrow> (of_char (digit_char d) :: nat) = 48 + d"
  by (simp add: digit_char_def)

lemma is_digit_digit_char [simp]: "d < 10 \<Longrightarrow> is_digit (digit_char d)"
  by (simp add: is_digit_def)

lemma digit_val_digit_char [simp]: "d < 10 \<Longrightarrow> digit_val (digit_char d) = d"
  by (simp add: digit_val_def)

lemma dec_nat_ne [simp]: "dec_nat n \<noteq> []"
  by (subst dec_nat.simps) simp

lemma dec_nat_digits: "c \<in> set (dec_nat n) \<Longrightarrow> is_digit c"
proof (induction n rule: dec_nat.induct)
  case (1 n)
  show ?case
  proof (cases "n < 10")
    case True
    with "1.prems" show ?thesis by (subst (asm) dec_nat.simps) simp
  next
    case False
    with "1.prems" have "c \<in> set (dec_nat (n div 10)) \<or> c = digit_char (n mod 10)"
      by (subst (asm) dec_nat.simps) auto
    with "1.IH" [OF False] show ?thesis by auto
  qed
qed

lemma not_digit_notin_dec_nat: "\<not> is_digit c \<Longrightarrow> c \<notin> set (dec_nat n)"
  using dec_nat_digits by blast

lemma dec_nat_free [simp]:
  "CHR '' '' \<notin> set (dec_nat n)" "CHR '':'' \<notin> set (dec_nat n)" "CHR ''-'' \<notin> set (dec_nat n)"
  "CHR 0x0D \<notin> set (dec_nat n)" "CHR 0x0A \<notin> set (dec_nat n)" "CHR 0x00 \<notin> set (dec_nat n)"
  by (rule not_digit_notin_dec_nat, simp add: is_digit_def)+

lemma digits_value_append:
  "(\<And>c. c \<in> set xs \<Longrightarrow> is_digit c) \<Longrightarrow>
   digits_value acc (xs @ ys) = digits_value (digits_value acc xs) ys"
  by (induction xs arbitrary: acc) auto

lemma digits_value_dec_nat: "digits_value 0 (dec_nat n) = n"
proof (induction n rule: dec_nat.induct)
  case (1 n)
  show ?case
  proof (cases "n < 10")
    case True
    then show ?thesis by (subst dec_nat.simps) simp
  next
    case False
    then have "digits_value 0 (dec_nat n) = digits_value (digits_value 0 (dec_nat (n div 10))) [digit_char (n mod 10)]"
      by (subst dec_nat.simps) (simp add: digits_value_append dec_nat_digits)
    with "1.IH" [OF False] show ?thesis by simp
  qed
qed

lemma digits_value_stop: "\<not> is_digit c \<Longrightarrow> digits_value acc (c # cs) = acc"
  by simp

lemma digits_value_dec_nat_append:
  "cs = [] \<or> \<not> is_digit (hd cs) \<Longrightarrow> digits_value 0 (dec_nat n @ cs) = n"
  by (cases cs) (simp_all add: digits_value_append dec_nat_digits digits_value_dec_nat)

lemma dec_nat_inj: "dec_nat m = dec_nat n \<Longrightarrow> m = n"
  by (metis digits_value_dec_nat)

lemma dec_nat_hd: "\<exists>c cs. dec_nat n = c # cs \<and> is_digit c"
  using dec_nat_digits [of _ n] dec_nat_ne [of n] by (cases "dec_nat n") auto

lemma length_dec_nat_le: "n < 10 ^ k \<Longrightarrow> 0 < k \<Longrightarrow> length (dec_nat n) \<le> k"
proof (induction k arbitrary: n)
  case 0
  then show ?case by simp
next
  case (Suc k)
  show ?case
  proof (cases "n < 10")
    case True
    then show ?thesis by (subst dec_nat.simps) simp
  next
    case False
    with Suc.prems have "n div 10 < 10 ^ k" and "0 < k"
      by (auto simp: less_mult_imp_div_less mult.commute intro: gr0I)
    with Suc.IH have "length (dec_nat (n div 10)) \<le> k" by simp
    with False show ?thesis by (subst dec_nat.simps) simp
  qed
qed

lemma wrap32_id [simp]: "- (2 ^ 31) \<le> i \<Longrightarrow> i < 2 ^ 31 \<Longrightarrow> wrap32 i = i"
  by (simp add: wrap32_def)

lemma strtol10_unfold:
  assumes "c # cs = dec_nat n @ rest"
  shows "strtol10 (c # cs) = max (- (2 ^ 63)) (min (2 ^ 63 - 1) (int (digits_value 0 (c # cs))))"
proof -
  from assms have "is_digit c" using dec_nat_hd [of n] by auto
  then have "\<not> isspace c" "c \<noteq> CHR ''-''" "c \<noteq> CHR ''+''"
    by (auto simp: is_digit_def isspace_def)
  then show ?thesis by (simp add: strtol10_def)
qed

text \<open>\<open>atoi\<close> reads back what \<open>%d\<close> printed, up to the first character that is no digit.\<close>

lemma atoi_dec_nat:
  assumes "n < 2 ^ 31" and "rest = [] \<or> \<not> is_digit (hd rest)"
  shows "atoi (dec_nat n @ rest) = int n"
proof -
  obtain c cs where c: "c # cs = dec_nat n @ rest"
    using dec_nat_hd [of n] by fastforce
  have "strtol10 (dec_nat n @ rest) = int n"
    using assms strtol10_unfold [OF c] digits_value_dec_nat_append [OF assms(2), of n]
    by (simp add: c)
  with assms(1) show ?thesis by (simp add: atoi_def)
qed

lemma length_pad_with: "length (pad_with c w s) = max w (length s)"
  by (simp add: pad_with_def)

end
