(* ===== verification/TA_Http.thy ===== *)
theory TA_Http
  imports TA_Buffer TA_Format "HOL-Library.While_Combinator"
begin

text \<open>
  HTTP requests and their incremental parser (\<open>src/Http/HttpRequest.h\<close>, \<open>HttpContext.h\<close>,
  \<open>HttpContext.cpp\<close>). A character range \<open>[begin, end)\<close> is the string of its bytes. The loop of
  \<open>parseRequest\<close> is a \<open>while_option\<close> over one definition of its body, so that a run that never
  leaves the loop is the value \<open>None\<close>. \<open>parse_str\<close> is the reference parser on the plain string of
  unread bytes that \<open>parseRequest\<close> is shown to implement.
\<close>

section \<open>HttpRequest\<close>

datatype http_method = kInvalid | kGet | kPost | kHead | kPut | kDelete

datatype http_version = kUnknown | kHttp10 | kHttp11

record http_request =
  req_method :: http_method
  req_version :: http_version
  req_path :: string
  req_query :: string
  req_receiveTime :: int
  req_headers :: "(string \<times> string) list"

definition HttpRequest_ctor :: http_request where
  "HttpRequest_ctor = \<lparr>req_method = kInvalid, req_version = kUnknown, req_path = [], req_query = [],
     req_receiveTime = 0, req_headers = []\<rparr>"

definition setVersion :: "http_version \<Rightarrow> http_request \<Rightarrow> http_request" where
  "setVersion v r = r\<lparr>req_version := v\<rparr>"

definition setMethod :: "string \<Rightarrow> http_request \<Rightarrow> (bool \<times> http_request) res" where
  "setMethod m r =
     cassert (req_method r = kInvalid) ''method_ == kInvalid''
       (let meth = (if m = ''GET'' then kGet
                    else if m = ''POST'' then kPost
                    else if m = ''HEAD'' then kHead
                    else if m = ''PUT'' then kPut
                    else if m = ''DELETE'' then kDelete
                    else kInvalid)
        in Inr (meth \<noteq> kInvalid, r\<lparr>req_method := meth\<rparr>))"

definition methodString :: "http_request \<Rightarrow> string" where
  "methodString r =
     (case req_method r of kGet \<Rightarrow> ''GET'' | kPost \<Rightarrow> ''POST'' | kHead \<Rightarrow> ''HEAD'' | kPut \<Rightarrow> ''PUT''
      | kDelete \<Rightarrow> ''DELETE'' | kInvalid \<Rightarrow> ''UNKNOWN'')"

definition setPath :: "string \<Rightarrow> http_request \<Rightarrow> http_request" where
  "setPath p r = r\<lparr>req_path := p\<rparr>"

definition setQuery :: "string \<Rightarrow> http_request \<Rightarrow> http_request" where
  "setQuery q r = r\<lparr>req_query := q\<rparr>"

definition setReceiveTime :: "int \<Rightarrow> http_request \<Rightarrow> http_request" where
  "setReceiveTime t r = r\<lparr>req_receiveTime := t\<rparr>"

text \<open>The two whitespace loops of \<open>addHeader\<close>: forward from the colon, backward from the end.\<close>

definition rtrim :: "string \<Rightarrow> string" where
  "rtrim v = rev (dropWhile isspace (rev v))"

definition addHeader :: "string \<Rightarrow> nat \<Rightarrow> http_request \<Rightarrow> http_request" where
  "addHeader line colon r =
     (let field = take colon line;
          val = rtrim (dropWhile isspace (drop (Suc colon) line))
      in r\<lparr>req_headers := omap_update field val (req_headers r)\<rparr>)"

definition getHeader :: "string \<Rightarrow> http_request \<Rightarrow> string" where
  "getHeader field r = (case map_of (req_headers r) field of None \<Rightarrow> [] | Some v \<Rightarrow> v)"

text \<open>\<open>swap\<close> exchanges every field of two requests.\<close>

definition swap_requests :: "http_request \<times> http_request \<Rightarrow> http_request \<times> http_request" where
  "swap_requests p =
     (let (r, that) = p in
      (r\<lparr>req_method := req_method that, req_version := req_version that, req_path := req_path that,
         req_query := req_query that, req_receiveTime := req_receiveTime that,
         req_headers := req_headers that\<rparr>,
       that\<lparr>req_method := req_method r, req_version := req_version r, req_path := req_path r,
         req_query := req_query r, req_receiveTime := req_receiveTime r,
         req_headers := req_headers r\<rparr>))"

section \<open>HttpContext\<close>

datatype parse_state = kExpectRequestLine | kExpectHeaders | kExpectBody | kGotAll

record http_context =
  ctx_state :: parse_state
  ctx_request :: http_request

definition HttpContext_ctor :: http_context where
  "HttpContext_ctor = \<lparr>ctx_state = kExpectRequestLine, ctx_request = HttpRequest_ctor\<rparr>"

definition gotAll :: "http_context \<Rightarrow> bool" where
  "gotAll c \<longleftrightarrow> ctx_state c = kGotAll"

definition reset :: "http_context \<Rightarrow> http_context" where
  "reset c = \<lparr>ctx_state = kExpectRequestLine,
     ctx_request = fst (swap_requests (ctx_request c, HttpRequest_ctor))\<rparr>"

definition processRequestLine :: "string \<Rightarrow> http_request \<Rightarrow> (bool \<times> http_request) res" where
  "processRequestLine line r =
     (let space = find_char (CHR '' '') line
      in if space \<noteq> length line
         then bind_res (setMethod (take space line) r) (\<lambda>(good, r).
           if good
           then (let start = drop (Suc space) line;
                     space = find_char (CHR '' '') start
                 in if space \<noteq> length start
                    then (let target = take space start;
                              question = find_char (CHR ''?'') target;
                              r = (if question \<noteq> length target
                                   then setQuery (drop question target) (setPath (take question target) r)
                                   else setPath target r);
                              start = drop (Suc space) start
                          in if length start = 8 \<and> take 7 start = ''HTTP/1.''
                             then (if start ! 7 = CHR ''1'' then Inr (True, setVersion kHttp11 r)
                                   else if start ! 7 = CHR ''0'' then Inr (True, setVersion kHttp10 r)
                                   else Inr (False, r))
                             else Inr (False, r))
                    else Inr (False, r))
           else Inr (False, r))
         else Inr (False, r))"

text \<open>One turn of the \<open>while (hasMore)\<close> loop, on \<open>(ok, hasMore, context, buffer)\<close>. In the states
  \<open>kExpectBody\<close> and \<open>kGotAll\<close> the body does nothing.\<close>

type_synonym parse_vars = "bool \<times> bool \<times> http_context \<times> buffer"

definition parse_turn :: "int \<Rightarrow> parse_vars \<Rightarrow> parse_vars res" where
  "parse_turn receiveTime vars =
     (let (good, hasMore, c, b) = vars in
      case ctx_state c of
        kExpectRequestLine \<Rightarrow>
          (case findCRLF b of
             Some crlf \<Rightarrow>
               bind_res (processRequestLine (bytes_between (peek b) crlf b) (ctx_request c)) (\<lambda>(good, r).
                 if good
                 then bind_res (retrieveUntil (crlf + 2) b) (\<lambda>b.
                   Inr (good, hasMore,
                        c\<lparr>ctx_request := setReceiveTime receiveTime r, ctx_state := kExpectHeaders\<rparr>, b))
                 else Inr (good, False, c\<lparr>ctx_request := r\<rparr>, b))
           | None \<Rightarrow> Inr (good, False, c, b))
      | kExpectHeaders \<Rightarrow>
          (case findCRLF b of
             Some crlf \<Rightarrow>
               (let line = bytes_between (peek b) crlf b;
                    colon = find_char (CHR '':'') line;
                    (hasMore, c) = (if colon \<noteq> length line
                                    then (hasMore, c\<lparr>ctx_request := addHeader line colon (ctx_request c)\<rparr>)
                                    else (False, c\<lparr>ctx_state := kGotAll\<rparr>))
                in bind_res (retrieveUntil (crlf + 2) b) (\<lambda>b. Inr (good, hasMore, c, b)))
           | None \<Rightarrow> Inr (good, False, c, b))
      | kExpectBody \<Rightarrow> Inr vars
      | kGotAll \<Rightarrow> Inr vars)"

definition parse_running :: "parse_vars res \<Rightarrow> bool" where
  "parse_running s = (case s of Inl _ \<Rightarrow> False | Inr (good, hasMore, c, b) \<Rightarrow> hasMore)"

definition parseRequest :: "int \<Rightarrow> http_context \<Rightarrow> buffer \<Rightarrow> (bool \<times> http_context \<times> buffer) res option" where
  "parseRequest receiveTime c b =
     map_option (\<lambda>s. bind_res s (\<lambda>(good, hasMore, c, b). Inr (good, c, b)))
       (while_option parse_running (\<lambda>s. bind_res s (parse_turn receiveTime)) (Inr (True, True, c, b)))"

section \<open>The reference parser\<close>

definition find_crlf :: "string \<Rightarrow> nat option" where
  "find_crlf s = (let k = search_sub kCRLF s in if k = length s then None else Some k)"

lemma search_sub_le: "search_sub pat s \<le> length s"
  by (induction s) auto

lemma search_sub_found:
  "search_sub pat s < length s \<Longrightarrow> take (length pat) (drop (search_sub pat s) s) = pat"
  by (induction s) auto

lemma find_crlf_bound:
  assumes "find_crlf s = Some k"
  shows "k + 2 \<le> length s"
proof -
  from assms have k: "k = search_sub kCRLF s" "k < length s"
    using search_sub_le [of kCRLF s] by (auto simp: find_crlf_def Let_def split: if_splits)
  then have "take 2 (drop k s) = kCRLF"
    using search_sub_found [of kCRLF s] by (simp add: kCRLF_def numeral_2_eq_2)
  then have "length (take 2 (drop k s)) = 2" by (simp add: kCRLF_def)
  then show ?thesis by simp
qed

text \<open>The parser by lines on the unread bytes: the request line, then one header per line up to the
  first line without a colon.\<close>

function parse_headers :: "http_request \<Rightarrow> string \<Rightarrow> bool \<times> http_request \<times> string" where
  "parse_headers r s =
     (case find_crlf s of
        None \<Rightarrow> (False, r, s)
      | Some k \<Rightarrow>
          (let line = take k s; colon = find_char (CHR '':'') line
           in if colon \<noteq> length line then parse_headers (addHeader line colon r) (drop (k + 2) s)
              else (True, r, drop (k + 2) s)))"
  by pat_completeness auto
termination
  by (relation "measure (\<lambda>(r, s). length s)") (auto dest: find_crlf_bound)

declare parse_headers.simps [simp del]

definition parse_headers_ctx :: "http_context \<Rightarrow> string \<Rightarrow> http_context \<times> string" where
  "parse_headers_ctx c s =
     (let (finished, r, rest) = parse_headers (ctx_request c) s
      in (\<lparr>ctx_state = (if finished then kGotAll else kExpectHeaders), ctx_request = r\<rparr>, rest))"

definition parse_str :: "int \<Rightarrow> http_context \<Rightarrow> string \<Rightarrow> (bool \<times> http_context \<times> string) res" where
  "parse_str t c s =
     (if ctx_state c = kExpectHeaders then Inr (True, parse_headers_ctx c s)
      else case find_crlf s of
        None \<Rightarrow> Inr (True, c, s)
      | Some k \<Rightarrow>
          bind_res (processRequestLine (take k s) (ctx_request c)) (\<lambda>(good, r).
            if good
            then Inr (True, parse_headers_ctx
                   (c\<lparr>ctx_request := setReceiveTime t r, ctx_state := kExpectHeaders\<rparr>) (drop (k + 2) s))
            else Inr (False, c\<lparr>ctx_request := r\<rparr>, s)))"

section \<open>Clients of the parser\<close>

text \<open>Feeding bytes as they arrive: each piece is appended to the input buffer and the parser is
  called, until it reports an error or a complete request. The result carries the pieces not read.\<close>

fun feed :: "int \<Rightarrow> string list \<Rightarrow> http_context \<Rightarrow> buffer \<Rightarrow>
    (bool \<times> http_context \<times> buffer \<times> string list) res option" where
  "feed t [] c b = Some (Inr (True, c, b, []))"
| "feed t (p # ps) c b =
     (case append p b of
        Inl e \<Rightarrow> Some (Inl e)
      | Inr b1 \<Rightarrow>
          (case parseRequest t c b1 of
             None \<Rightarrow> None
           | Some (Inl e) \<Rightarrow> Some (Inl e)
           | Some (Inr (good, c1, b2)) \<Rightarrow>
               (if good \<and> \<not> gotAll c1 then feed t ps c1 b2 else Some (Inr (good, c1, b2, ps)))))"

text \<open>A request as a client writes it.\<close>

definition version_string :: "http_version \<Rightarrow> string" where
  "version_string v = (case v of kHttp11 \<Rightarrow> ''HTTP/1.1'' | kHttp10 \<Rightarrow> ''HTTP/1.0'' | kUnknown \<Rightarrow> ''HTTP/?'')"

definition render_headers :: "(string \<times> string) list \<Rightarrow> string" where
  "render_headers hs = concat (map (\<lambda>(f, v). f @ '': '' @ v @ kCRLF) hs) @ kCRLF"

definition render_request :: "http_request \<Rightarrow> (string \<times> string) list \<Rightarrow> string" where
  "render_request r hs =
     methodString r @ '' '' @ req_path r @ req_query r @ '' '' @ version_string (req_version r) @ kCRLF @
     render_headers hs"

text \<open>The requests it can carry: a known method and version, a target without space, and header
  lines that keep the field free of a colon and the value free of surrounding white space; no part
  contains a carriage return.\<close>

definition header_ok :: "string \<times> string \<Rightarrow> bool" where
  "header_ok h = (CHR '':'' \<notin> set (fst h) \<and> CHR 0x0D \<notin> set (fst h) \<and> CHR 0x0D \<notin> set (snd h) \<and>
     (snd h = [] \<or> (\<not> isspace (hd (snd h)) \<and> \<not> isspace (last (snd h)))))"

definition request_ok :: "http_request \<Rightarrow> bool" where
  "request_ok r = (req_method r \<noteq> kInvalid \<and> req_version r \<noteq> kUnknown \<and>
     CHR '' '' \<notin> set (req_path r @ req_query r) \<and> CHR 0x0D \<notin> set (req_path r @ req_query r) \<and>
     CHR ''?'' \<notin> set (req_path r) \<and> (req_query r = [] \<or> hd (req_query r) = CHR ''?''))"

definition add_headers :: "(string \<times> string) list \<Rightarrow> (string \<times> string) list \<Rightarrow> (string \<times> string) list" where
  "add_headers hs m = fold (\<lambda>(f, v). omap_update f v) hs m"

section \<open>parseRequest implements the reference parser\<close>

lemma find_crlf_contents:
  "buf_wf b \<Longrightarrow> findCRLF b = map_option (\<lambda>k. peek b + k) (find_crlf (contents b))"
  by (auto simp: findCRLF_def find_crlf_def Let_def peek_def beginWrite_def buf_wf_def)

lemma bytes_between_contents:
  "buf_wf b \<Longrightarrow> k \<le> length (contents b) \<Longrightarrow> bytes_between (peek b) (peek b + k) b = take k (contents b)"
  by (simp add: bytes_between_def contents_alt peek_def)

lemma retrieveUntil_contents:
  assumes "buf_wf b" and "k \<le> length (contents b)"
  shows "\<exists>b'. retrieveUntil (peek b + k) b = Inr b' \<and> buf_wf b' \<and> contents b' = drop k (contents b) \<and>
    m_writerIndex b' \<le> m_writerIndex b"
proof -
  have "m_readerIndex b + k \<le> m_writerIndex b"
    using assms by (auto simp: buf_wf_def contents_alt)
  with retrieve_aux [OF assms] show ?thesis
    by (auto simp: retrieveUntil_def peek_def beginWrite_def)
qed

lemmas crlf_facts = find_crlf_contents bytes_between_contents find_crlf_bound

lemma line_retrieved:
  assumes wf: "buf_wf b" and k: "find_crlf (contents b) = Some k"
  shows "\<exists>b'. findCRLF b = Some (peek b + k) \<and> bytes_between (peek b) (peek b + k) b = take k (contents b) \<and>
    retrieveUntil (peek b + k + 2) b = Inr b' \<and> buf_wf b' \<and> contents b' = drop (k + 2) (contents b) \<and>
    m_writerIndex b' \<le> m_writerIndex b"
proof -
  have "k + 2 \<le> length (contents b)" using k by (rule find_crlf_bound)
  with wf k retrieveUntil_contents [OF wf this] show ?thesis
    by (simp add: find_crlf_contents bytes_between_contents add.assoc)
qed

abbreviation parse_loop :: "int \<Rightarrow> parse_vars res \<Rightarrow> parse_vars res option" where
  "parse_loop t \<equiv> while_option parse_running (\<lambda>s. bind_res s (parse_turn t))"

lemma parse_loop_step:
  "parse_turn t (g, True, c, b) = s \<Longrightarrow> parse_loop t (Inr (g, True, c, b)) = parse_loop t s"
  by (subst while_option_unfold) (simp add: parse_running_def)

lemma parse_loop_stop [simp]:
  "parse_loop t (Inr (g, False, c, b)) = Some (Inr (g, False, c, b))"
  "parse_loop t (Inl e) = Some (Inl e)"
  by (subst while_option_unfold, simp add: parse_running_def)+

lemma parse_loop_headers:
  assumes "buf_wf b" and "ctx_state c = kExpectHeaders"
  shows "\<exists>b'. parse_loop t (Inr (g, True, c, b)) =
      Some (Inr (g, False, fst (parse_headers_ctx c (contents b)), b')) \<and>
    buf_wf b' \<and> contents b' = snd (parse_headers_ctx c (contents b)) \<and> m_writerIndex b' \<le> m_writerIndex b"
  using assms
proof (induction "length (contents b)" arbitrary: b c rule: less_induct)
  case less
  show ?case
  proof (cases "find_crlf (contents b)")
    case None
    then have "parse_turn t (g, True, c, b) = Inr (g, False, c, b)"
      using less.prems by (simp add: parse_turn_def find_crlf_contents)
    with None less.prems show ?thesis
      by (simp add: parse_loop_step parse_headers_ctx_def parse_headers.simps)
  next
    case (Some k)
    let ?line = "take k (contents b)"
    let ?colon = "find_char (CHR '':'') ?line"
    let ?c' = "c\<lparr>ctx_request := addHeader ?line ?colon (ctx_request c)\<rparr>"
    obtain b1 where b1: "findCRLF b = Some (peek b + k)"
        "bytes_between (peek b) (peek b + k) b = ?line" "retrieveUntil (peek b + k + 2) b = Inr b1"
        "buf_wf b1" "contents b1 = drop (k + 2) (contents b)" "m_writerIndex b1 \<le> m_writerIndex b"
      using line_retrieved [OF less.prems(1) Some] by blast
    show ?thesis
    proof (cases "?colon = length ?line")
      case True
      have "parse_turn t (g, True, c, b) = Inr (g, False, c\<lparr>ctx_state := kGotAll\<rparr>, b1)"
        using less.prems(2) b1(1-3) True by (simp add: parse_turn_def Let_def)
      moreover have "parse_headers (ctx_request c) (contents b) =
          (True, ctx_request c, drop (k + 2) (contents b))"
        by (subst parse_headers.simps) (use Some True in \<open>simp add: Let_def\<close>)
      ultimately show ?thesis
        using b1 by (simp add: parse_loop_step parse_headers_ctx_def)
    next
      case False
      have shorter: "length (contents b1) < length (contents b)"
        unfolding b1(5) using find_crlf_bound [OF Some] by simp
      have "parse_turn t (g, True, c, b) = Inr (g, True, ?c', b1)"
        using less.prems(2) b1(1-3) False by (simp add: parse_turn_def Let_def)
      moreover have "parse_headers (ctx_request c) (contents b) =
          parse_headers (ctx_request ?c') (drop (k + 2) (contents b))"
        by (subst parse_headers.simps) (use Some False in \<open>simp add: Let_def\<close>)
      then have "parse_headers_ctx c (contents b) = parse_headers_ctx ?c' (contents b1)"
        using less.prems(2) b1(5) by (simp add: parse_headers_ctx_def)
      ultimately show ?thesis
        using less.hyps [OF shorter b1(4), of ?c'] less.prems(2) b1(6) parse_loop_step
        by fastforce
    qed
  qed
qed

abbreviation expecting :: "http_context \<Rightarrow> bool" where
  "expecting c \<equiv> ctx_state c = kExpectRequestLine \<or> ctx_state c = kExpectHeaders"

lemma parseRequest_refines:
  assumes wf: "buf_wf b" and st: "expecting c"
  shows "case parse_str t c (contents b) of
      Inl e \<Rightarrow> parseRequest t c b = Some (Inl e)
    | Inr (good, c', rest) \<Rightarrow> \<exists>b'. parseRequest t c b = Some (Inr (good, c', b')) \<and> buf_wf b' \<and>
        contents b' = rest \<and> m_writerIndex b' \<le> m_writerIndex b"
proof (cases "ctx_state c = kExpectHeaders")
  case True
  with parse_loop_headers [OF wf, of c t True] show ?thesis
    by (auto simp: parse_str_def parseRequest_def split: prod.splits)
next
  case False
  with st have rl: "ctx_state c = kExpectRequestLine" by simp
  show ?thesis
  proof (cases "find_crlf (contents b)")
    case None
    then have "parse_turn t (True, True, c, b) = Inr (True, False, c, b)"
      using rl wf by (simp add: parse_turn_def find_crlf_contents)
    with None rl wf show ?thesis
      by (simp add: parse_loop_step parse_str_def parseRequest_def)
  next
    case (Some k)
    let ?c' = "\<lambda>r. c\<lparr>ctx_request := setReceiveTime t r, ctx_state := kExpectHeaders\<rparr>"
    obtain b1 where b1: "findCRLF b = Some (peek b + k)"
        "bytes_between (peek b) (peek b + k) b = take k (contents b)"
        "retrieveUntil (peek b + k + 2) b = Inr b1"
        "buf_wf b1" "contents b1 = drop (k + 2) (contents b)" "m_writerIndex b1 \<le> m_writerIndex b"
      using line_retrieved [OF wf Some] by blast
    have turn: "parse_turn t (True, True, c, b) =
        bind_res (processRequestLine (take k (contents b)) (ctx_request c))
          (\<lambda>(good, r). if good then Inr (True, True, ?c' r, b1) else Inr (False, False, c\<lparr>ctx_request := r\<rparr>, b))"
      using rl b1(1-3)
      by (cases "processRequestLine (take k (contents b)) (ctx_request c)") (auto simp: parse_turn_def)
    show ?thesis
    proof (cases "processRequestLine (take k (contents b)) (ctx_request c)")
      case (Inl e)
      with Some rl parse_loop_step [OF turn] show ?thesis
        by (simp add: parse_str_def parseRequest_def)
    next
      case (Inr p)
      obtain good r where p: "p = (good, r)" by fastforce
      show ?thesis
      proof (cases good)
        case True
        with Some rl p Inr parse_loop_step [OF turn] parse_loop_headers [OF b1(4), of "?c' r" t True] b1(5,6)
        show ?thesis
          by (auto simp: parse_str_def parseRequest_def split: prod.splits)
      next
        case False
        with Some rl p Inr wf parse_loop_step [OF turn] show ?thesis
          by (simp add: parse_str_def parseRequest_def)
      qed
    qed
  qed
qed

section \<open>Feeding the parser in pieces\<close>

lemma search_sub_append:
  assumes "search_sub kCRLF s < length s"
  shows "search_sub kCRLF (s @ ext) = search_sub kCRLF s"
  using assms
proof (induction s)
  case Nil
  then show ?case by simp
next
  case (Cons x xs)
  show ?case
  proof (cases "take (length kCRLF) (x # xs) = kCRLF")
    case True
    then have "length (take (length kCRLF) (x # xs)) = length kCRLF" by simp
    then have "length kCRLF \<le> length (x # xs)" by simp
    then have "take (length kCRLF) ((x # xs) @ ext) = take (length kCRLF) (x # xs)"
      unfolding take_append by simp
    with True show ?thesis by simp
  next
    case False
    with Cons.prems have less: "search_sub kCRLF xs < length xs" by (simp split: if_splits)
    then have "xs \<noteq> []" by auto
    then have "take (length kCRLF) ((x # xs) @ ext) = take (length kCRLF) (x # xs)"
      by (cases xs) (simp_all add: kCRLF_def)
    with False Cons.IH [OF less] show ?thesis by simp
  qed
qed

lemma find_crlf_append: "find_crlf s = Some k \<Longrightarrow> find_crlf (s @ ext) = Some k"
  using search_sub_append [of s ext] search_sub_le [of kCRLF s]
  by (auto simp: find_crlf_def Let_def split: if_splits)

lemma parse_headers_append:
  "parse_headers r (s @ ext) =
     (case parse_headers r s of
        (True, r', rest) \<Rightarrow> (True, r', rest @ ext)
      | (False, r', rest) \<Rightarrow> parse_headers r' (rest @ ext))"
proof (induction r s rule: parse_headers.induct)
  case (1 r s)
  show ?case
  proof (cases "find_crlf s")
    case None
    then have "parse_headers r s = (False, r, s)"
      by (simp add: parse_headers.simps [of r s])
    then show ?thesis by simp
  next
    case (Some k)
    let ?line = "take k s"
    let ?colon = "find_char (CHR '':'') ?line"
    have k: "k + 2 \<le> length s" using Some by (rule find_crlf_bound)
    have s: "parse_headers r s = (if ?colon \<noteq> length ?line
        then parse_headers (addHeader ?line ?colon r) (drop (k + 2) s) else (True, r, drop (k + 2) s))"
      by (subst parse_headers.simps) (use Some in \<open>simp add: Let_def\<close>)
    have sm: "parse_headers r (s @ ext) = (if ?colon \<noteq> length ?line
        then parse_headers (addHeader ?line ?colon r) (drop (k + 2) s @ ext)
        else (True, r, drop (k + 2) s @ ext))"
      by (subst parse_headers.simps) (use find_crlf_append [OF Some] k in \<open>simp add: Let_def\<close>)
    show ?thesis
    proof (cases "?colon = length ?line")
      case True
      with s sm show ?thesis by simp
    next
      case False
      with "1.IH" [OF Some refl refl] s sm show ?thesis by simp
    qed
  qed
qed

lemma parse_headers_ctx_append:
  assumes "ctx_state c = kExpectHeaders"
  shows "parse_headers_ctx c (s @ ext) =
     (let (c', rest) = parse_headers_ctx c s
      in if gotAll c' then (c', rest @ ext) else parse_headers_ctx c' (rest @ ext))"
proof -
  obtain f r rest where p: "parse_headers (ctx_request c) s = (f, r, rest)" by (rule prod_cases3)
  show ?thesis
    by (cases f) (simp_all add: parse_headers_ctx_def parse_headers_append p gotAll_def)
qed

lemma parse_headers_ctx_state:
  "ctx_state (fst (parse_headers_ctx c s)) = kGotAll \<or> ctx_state (fst (parse_headers_ctx c s)) = kExpectHeaders"
  by (auto simp: parse_headers_ctx_def split: prod.splits)

text \<open>Parsing some of the bytes and then the rest is parsing them all.\<close>

lemma parse_str_append:
  assumes "expecting c" and "parse_str t c s = Inr (True, c', rest)"
  shows "parse_str t c (s @ ext) =
    (if gotAll c' then Inr (True, c', rest @ ext) else parse_str t c' (rest @ ext))"
proof (cases "ctx_state c = kExpectHeaders")
  case True
  have "fst (parse_headers_ctx c s) = c'" "snd (parse_headers_ctx c s) = rest"
    using assms(2) True by (auto simp: parse_str_def split: prod.splits)
  moreover from this(1) have "gotAll c' \<or> ctx_state c' = kExpectHeaders"
    using parse_headers_ctx_state [of c s] by (auto simp: gotAll_def)
  ultimately show ?thesis
    using True by (auto simp: parse_str_def parse_headers_ctx_append Let_def split: prod.splits)
next
  case False
  show ?thesis
  proof (cases "find_crlf s")
    case None
    with False assms show ?thesis by (auto simp: parse_str_def gotAll_def)
  next
    case (Some k)
    have k: "k + 2 \<le> length s" using Some by (rule find_crlf_bound)
    from assms(2) False Some obtain r where r: "processRequestLine (take k s) (ctx_request c) = Inr (True, r)"
      and c': "parse_headers_ctx (c\<lparr>ctx_request := setReceiveTime t r, ctx_state := kExpectHeaders\<rparr>)
        (drop (k + 2) s) = (c', rest)"
      by (auto simp: parse_str_def bind_res_eq_Inr split: if_splits)
    have "gotAll c' \<or> ctx_state c' = kExpectHeaders"
      using parse_headers_ctx_state
        [of "c\<lparr>ctx_request := setReceiveTime t r, ctx_state := kExpectHeaders\<rparr>" "drop (k + 2) s"] c'
      by (auto simp: gotAll_def)
    with False k r c' find_crlf_append [OF Some] show ?thesis
      by (auto simp: parse_str_def parse_headers_ctx_append Let_def)
  qed
qed

lemma parse_str_append_stopped:
  assumes "expecting c"
  shows "parse_str t c s = Inl e \<Longrightarrow> parse_str t c (s @ ext) = Inl e"
    and "parse_str t c s = Inr (False, c', rest) \<Longrightarrow> parse_str t c (s @ ext) = Inr (False, c', rest @ ext)"
proof -
  assume "parse_str t c s = Inl e"
  then obtain k where k: "ctx_state c \<noteq> kExpectHeaders" "find_crlf s = Some k"
      "processRequestLine (take k s) (ctx_request c) = Inl e"
    by (auto simp: parse_str_def bind_res_eq_Inl split: if_splits option.splits)
  with find_crlf_append [OF k(2), of ext] find_crlf_bound [OF k(2)]
  show "parse_str t c (s @ ext) = Inl e" by (simp add: parse_str_def)
next
  assume "parse_str t c s = Inr (False, c', rest)"
  then obtain k r where k: "ctx_state c \<noteq> kExpectHeaders" "find_crlf s = Some k"
      "processRequestLine (take k s) (ctx_request c) = Inr (False, r)" "c' = c\<lparr>ctx_request := r\<rparr>" "rest = s"
    by (auto simp: parse_str_def bind_res_eq_Inr split: if_splits option.splits)
  with find_crlf_append [OF k(2), of ext] find_crlf_bound [OF k(2)]
  show "parse_str t c (s @ ext) = Inr (False, c', rest @ ext)" by (simp add: parse_str_def)
qed

lemma parse_str_expecting:
  assumes "expecting c" and "parse_str t c s = Inr (True, c', rest)" and "\<not> gotAll c'"
  shows "expecting c' \<and> parse_str t c' rest = Inr (True, c', rest)"
proof -
  have "parse_str t c s = parse_str t c' rest"
    using parse_str_append [OF assms(1,2), of "[]"] assms(3) by simp
  moreover have "expecting c'"
    using assms parse_headers_ctx_state
    by (auto simp: parse_str_def bind_res_eq_Inr gotAll_def split: if_splits option.splits)
      (metis fst_conv)+
  ultimately show ?thesis using assms(2) by simp
qed

lemma feed_parses:
  assumes "buf_wf b" and "expecting c" and "buf_room (length (concat ps)) b"
    and "parse_str t c (contents b) = Inr (True, c, contents b)" and "\<not> gotAll c"
  shows "case parse_str t c (contents b @ concat ps) of
      Inl e \<Rightarrow> feed t ps c b = Some (Inl e)
    | Inr (good, c', rest) \<Rightarrow> \<exists>b' ps'. feed t ps c b = Some (Inr (good, c', b', ps')) \<and>
        buf_wf b' \<and> contents b' @ concat ps' = rest"
  using assms
proof (induction ps arbitrary: b c)
  case Nil
  then show ?case by simp
next
  case (Cons p ps)
  have room: "buf_room (length p + length (concat ps)) b" using Cons.prems(3) by simp
  then have "buf_room (length p) b" by (simp add: buf_room_def)
  from append_aux [OF Cons.prems(1) this] obtain b1
    where b1: "append p b = Inr b1" "buf_wf b1" "contents b1 = contents b @ p" by blast
  have room1: "buf_room (length (concat ps)) b1" by (rule append_room [OF Cons.prems(1) room b1(1)])
  have all: "contents b @ concat (p # ps) = contents b1 @ concat ps" using b1(3) by simp
  note ref = parseRequest_refines [OF b1(2) Cons.prems(2), of t]
  show ?case
  proof (cases "parse_str t c (contents b1)")
    case (Inl e)
    with ref b1(1) parse_str_append_stopped(1) [OF Cons.prems(2) Inl] show ?thesis
      unfolding all by simp
  next
    case (Inr q)
    obtain good c1 rest where q: "q = (good, c1, rest)" by (rule prod_cases3)
    with Inr ref obtain b2 where b2: "parseRequest t c b1 = Some (Inr (good, c1, b2))" "buf_wf b2"
        "contents b2 = rest" "m_writerIndex b2 \<le> m_writerIndex b1"
      by auto
    show ?thesis
    proof (cases "good \<and> \<not> gotAll c1")
      case True
      with Inr q have p1: "parse_str t c (contents b1) = Inr (True, c1, rest)" by simp
      from parse_str_expecting [OF Cons.prems(2) p1] True
      have c1: "expecting c1" "parse_str t c1 (contents b2) = Inr (True, c1, contents b2)"
        by (simp_all add: b2(3))
      have "buf_room (length (concat ps)) b2" using room1 b2(4) by (simp add: buf_room_def)
      note IH = Cons.IH [OF b2(2) c1(1) this c1(2)]
      have step: "feed t (p # ps) c b = feed t ps c1 b2" using True b1(1) b2(1) by simp
      have "parse_str t c (contents b1 @ concat ps) = parse_str t c1 (contents b2 @ concat ps)"
        using parse_str_append [OF Cons.prems(2) p1, of "concat ps"] True b2(3) by simp
      with IH True show ?thesis unfolding all step by simp
    next
      case False
      then have "parse_str t c (contents b1 @ concat ps) = Inr (good, c1, rest @ concat ps)"
        using Inr q parse_str_append [OF Cons.prems(2), of t "contents b1" c1 rest "concat ps"]
          parse_str_append_stopped(2) [OF Cons.prems(2), of t "contents b1" c1 rest "concat ps"]
        by (cases good) auto
      with False b1(1) b2 show ?thesis unfolding all by auto
    qed
  qed
qed

section \<open>Parsing what a client wrote\<close>

lemma search_sub_crlf: "CHR 0x0D \<notin> set line \<Longrightarrow> search_sub kCRLF (line @ kCRLF @ rest) = length line"
proof (induction line)
  case Nil
  then show ?case by (simp add: kCRLF_def)
next
  case (Cons x xs)
  have "take (length kCRLF) (x # ys) \<noteq> kCRLF" for ys
    using Cons.prems by (auto simp: kCRLF_def)
  with Cons show ?case by simp
qed

lemma find_crlf_line: "CHR 0x0D \<notin> set line \<Longrightarrow> find_crlf (line @ kCRLF @ rest) = Some (length line)"
  using search_sub_crlf [of line rest] by (simp add: find_crlf_def kCRLF_def)

lemma parse_headers_line:
  assumes "CHR 0x0D \<notin> set line"
  shows "parse_headers r (line @ kCRLF @ rest) =
    (let colon = find_char (CHR '':'') line
     in if colon \<noteq> length line then parse_headers (addHeader line colon r) rest else (True, r, rest))"
  by (subst parse_headers.simps) (use find_crlf_line [OF assms, of rest] in \<open>simp add: kCRLF_def Let_def\<close>)

lemma rtrim_id: "v = [] \<or> \<not> isspace (last v) \<Longrightarrow> rtrim v = v"
  by (cases v rule: rev_cases) (simp_all add: rtrim_def)

lemma addHeader_written:
  assumes "header_ok (f, v)"
  shows "addHeader (f @ '': '' @ v) (length f) r = r\<lparr>req_headers := omap_update f v (req_headers r)\<rparr>"
proof -
  have "dropWhile isspace (CHR '' '' # v) = v"
    using assms by (cases v) (auto simp: header_ok_def isspace_def)
  moreover have "rtrim v = v"
    using assms by (auto simp: header_ok_def intro: rtrim_id)
  ultimately show ?thesis
    by (simp add: addHeader_def)
qed

lemma parse_headers_written:
  assumes "list_all header_ok hs"
  shows "parse_headers r (render_headers hs @ rest) =
    (True, r\<lparr>req_headers := add_headers hs (req_headers r)\<rparr>, rest)"
  using assms
proof (induction hs arbitrary: r)
  case Nil
  have "parse_headers r ([] @ kCRLF @ rest) = (True, r, rest)"
    by (subst parse_headers_line) simp_all
  then show ?case by (simp add: render_headers_def add_headers_def)
next
  case (Cons h hs)
  obtain f v where h: "h = (f, v)" by fastforce
  with Cons.prems have ok: "header_ok (f, v)" by simp
  let ?line = "f @ '': '' @ v"
  have cr: "CHR 0x0D \<notin> set ?line" and colon: "find_char (CHR '':'') ?line = length f"
    using ok by (auto simp: header_ok_def)
  have "render_headers (h # hs) @ rest = ?line @ kCRLF @ (render_headers hs @ rest)"
    by (simp add: render_headers_def h)
  with parse_headers_line [OF cr, of r "render_headers hs @ rest"] colon addHeader_written [OF ok, of r]
    Cons.IH Cons.prems
  show ?case by (simp add: add_headers_def h)
qed

lemma setMethod_methodString:
  "req_method r \<noteq> kInvalid \<Longrightarrow> req_method r0 = kInvalid \<Longrightarrow>
   setMethod (methodString r) r0 = Inr (True, r0\<lparr>req_method := req_method r\<rparr>)"
  by (cases "req_method r") (simp_all add: setMethod_def methodString_def)

lemma methodString_free: "CHR '' '' \<notin> set (methodString r) \<and> CHR 0x0D \<notin> set (methodString r)"
  by (simp add: methodString_def split: http_method.split)

lemma processRequestLine_written:
  assumes "request_ok r" and "req_method r0 = kInvalid" and "req_query r0 = []"
  shows "processRequestLine (methodString r @ '' '' @ req_path r @ req_query r @ '' '' @
      version_string (req_version r)) r0 =
    Inr (True, r0\<lparr>req_method := req_method r, req_path := req_path r, req_query := req_query r,
      req_version := req_version r\<rparr>)"
proof -
  let ?target = "req_path r @ req_query r"
  have m: "CHR '' '' \<notin> set (methodString r)" using methodString_free by blast
  have t: "CHR '' '' \<notin> set ?target" using assms(1) by (simp add: request_ok_def)
  have ver: "version_string (req_version r) = ''HTTP/1.1'' \<and> req_version r = kHttp11 \<or>
      version_string (req_version r) = ''HTTP/1.0'' \<and> req_version r = kHttp10"
    using assms(1) by (cases "req_version r") (auto simp: request_ok_def version_string_def)
  have q: "find_char (CHR ''?'') ?target = length (req_path r)"
    using assms(1) by (cases "req_query r") (auto simp: request_ok_def find_char_append_notin find_char_eq_length)
  show ?thesis
    using ver m t q assms setMethod_methodString [of r r0]
    by (auto simp: processRequestLine_def Let_def find_char_append_notin setQuery_def setPath_def
        setVersion_def request_ok_def)
qed

lemma cut_line: "take (length xs) (xs @ kCRLF @ ys) = xs" "drop (length xs + 2) (xs @ kCRLF @ ys) = ys"
  by (simp_all add: kCRLF_def)

lemma parse_str_written:
  assumes "request_ok r" and "list_all header_ok hs"
    and "ctx_state c = kExpectRequestLine" and "ctx_request c = HttpRequest_ctor"
  shows "parse_str t c (render_request r hs @ rest) =
    Inr (True, \<lparr>ctx_state = kGotAll, ctx_request = r\<lparr>req_receiveTime := t, req_headers := add_headers hs []\<rparr>\<rparr>, rest)"
proof -
  let ?line = "methodString r @ '' '' @ req_path r @ req_query r @ '' '' @ version_string (req_version r)"
  have "CHR 0x0D \<notin> set (version_string (req_version r))"
    by (simp add: version_string_def split: http_version.split)
  then have cr: "CHR 0x0D \<notin> set ?line"
    using assms(1) methodString_free [of r] by (simp add: request_ok_def)
  have split: "render_request r hs @ rest = ?line @ kCRLF @ (render_headers hs @ rest)"
    by (simp add: render_request_def)
  have len: "take (length ?line) (render_request r hs @ rest) = ?line"
    "drop (length ?line + 2) (render_request r hs @ rest) = render_headers hs @ rest"
    unfolding split by (rule cut_line)+
  have "find_crlf (render_request r hs @ rest) = Some (length ?line)"
    unfolding split by (rule find_crlf_line [OF cr])
  moreover have "processRequestLine ?line (ctx_request c) =
      Inr (True, HttpRequest_ctor\<lparr>req_method := req_method r, req_path := req_path r,
        req_query := req_query r, req_version := req_version r\<rparr>)"
    unfolding assms(4) by (rule processRequestLine_written [OF assms(1)]) (simp_all add: HttpRequest_ctor_def)
  ultimately show ?thesis
    using assms(3) len parse_headers_written [OF assms(2)]
    by (simp add: parse_str_def parse_headers_ctx_def setReceiveTime_def HttpRequest_ctor_def)
qed

lemma processRequestLine_False:
  assumes "processRequestLine line r = Inr (good, r')" and "req_method r' \<noteq> kInvalid"
    and "req_method r = kInvalid"
  shows "find_char (CHR '' '') line \<noteq> length line"
  using assms by (auto simp: processRequestLine_def Let_def)

lemma processRequestLine_twice:
  "find_char (CHR '' '') line \<noteq> length line \<Longrightarrow> req_method r \<noteq> kInvalid \<Longrightarrow>
   processRequestLine line r = Inl (AssertFailed ''method_ == kInvalid'')"
  by (simp add: processRequestLine_def Let_def setMethod_def)

lemma parse_turn_idle:
  "ctx_state c = kGotAll \<or> ctx_state c = kExpectBody \<Longrightarrow> parse_turn t (g, h, c, b) = Inr (g, h, c, b)"
  by (auto simp: parse_turn_def)

section \<open>Properties\<close>

abbreviation empty_buffer :: buffer where
  "empty_buffer \<equiv> \<lparr>m_buffer = replicate 4104 (CHR 0x00), m_readerIndex = 8, m_writerIndex = 8\<rparr>"

lemma empty_buffer_facts: "buf_wf empty_buffer" "contents empty_buffer = []"
    "n \<le> 1000 \<Longrightarrow> buf_room n empty_buffer"
  by (simp_all add: buf_wf_def contents_alt buf_room_def buffer_consts)

text \<open>C3: whatever bytes the buffer holds, \<open>parseRequest\<close> called while a request line or headers are
  expected returns (the loop ends), and computes exactly the reference parse of the unread bytes: the
  same verdict, the same request and state, and the buffer left with exactly the bytes the reference
  leaves. The only fault it can end in is the one of the reference (the assertion of setMethod).\<close>

theorem parseRequest_correct:
  assumes "buf_wf b" and "expecting c"
  shows "case parse_str t c (contents b) of
      Inl e \<Rightarrow> parseRequest t c b = Some (Inl e)
    | Inr (good, c', rest) \<Rightarrow> \<exists>b'. parseRequest t c b = Some (Inr (good, c', b')) \<and> buf_wf b' \<and> contents b' = rest"
  using parseRequest_refines [OF assms, of t] by (auto split: sum.splits)

theorem parseRequest_correct_witness:
  "\<exists>b'. parseRequest 0 HttpContext_ctor empty_buffer = Some (Inr (True, HttpContext_ctor, b')) \<and> contents b' = []"
  using parseRequest_correct [of empty_buffer HttpContext_ctor 0] empty_buffer_facts
  by (auto simp: parse_str_def HttpContext_ctor_def find_crlf_def)

text \<open>C4: the bytes of a request may arrive cut into pieces in any way: appending each piece and calling
  \<open>parseRequest\<close> after each gives the verdict, request and state of parsing all the bytes at once, and
  the bytes it leaves (in the buffer and in the pieces not yet read) are the same.\<close>

theorem feed_pieces_eq_whole:
  assumes "buf_wf b" and "contents b = []" and "ctx_state c = kExpectRequestLine"
    and "buf_room (length (concat ps)) b"
  shows "case parse_str t c (concat ps) of
      Inl e \<Rightarrow> feed t ps c b = Some (Inl e)
    | Inr (good, c', rest) \<Rightarrow> \<exists>b' ps'. feed t ps c b = Some (Inr (good, c', b', ps')) \<and>
        buf_wf b' \<and> contents b' @ concat ps' = rest"
proof -
  have "parse_str t c (contents b) = Inr (True, c, contents b)"
    using assms(2,3) by (simp add: parse_str_def find_crlf_def)
  with feed_parses [of b c ps t] assms show ?thesis by (simp add: gotAll_def)
qed

theorem feed_pieces_eq_whole_witness:
  "\<exists>b' ps'. feed 0 [''GE'', ''T'', '' /x''] HttpContext_ctor empty_buffer =
     Some (Inr (True, HttpContext_ctor, b', ps')) \<and> buf_wf b' \<and> contents b' @ concat ps' = ''GET /x''"
  using feed_pieces_eq_whole [of empty_buffer HttpContext_ctor "[''GE'', ''T'', '' /x'']" 0] empty_buffer_facts
  by (simp add: parse_str_def HttpContext_ctor_def find_crlf_def kCRLF_def)

text \<open>C5: parsing is inverse to writing. A request written by a client (request line, header lines, empty
  line), followed by any further bytes, is accepted by a fresh context: the parsed request has the
  method, path, query, version and headers that were written (a repeated field keeps its last value),
  the context has got all, and the further bytes stay in the buffer.\<close>

theorem parseRequest_roundtrip:
  assumes "request_ok r" and "list_all header_ok hs" and "buf_wf b"
    and "contents b = render_request r hs @ rest"
  shows "\<exists>b'. parseRequest t HttpContext_ctor b =
      Some (Inr (True, \<lparr>ctx_state = kGotAll,
        ctx_request = r\<lparr>req_receiveTime := t, req_headers := add_headers hs []\<rparr>\<rparr>, b')) \<and>
    buf_wf b' \<and> contents b' = rest"
proof -
  have "parse_str t HttpContext_ctor (contents b) =
      Inr (True, \<lparr>ctx_state = kGotAll, ctx_request = r\<lparr>req_receiveTime := t, req_headers := add_headers hs []\<rparr>\<rparr>, rest)"
    unfolding assms(4) by (rule parse_str_written [OF assms(1,2)]) (simp_all add: HttpContext_ctor_def)
  with parseRequest_refines [OF assms(3), of HttpContext_ctor t] show ?thesis
    by (auto simp: HttpContext_ctor_def)
qed

abbreviation sample_request :: http_request where
  "sample_request \<equiv> \<lparr>req_method = kGet, req_version = kHttp11, req_path = ''/a'', req_query = ''?k=v'',
     req_receiveTime = 0, req_headers = []\<rparr>"

abbreviation sample_bytes :: string where
  "sample_bytes \<equiv> render_request sample_request [(''Host'', ''h'')] @ ''next''"

theorem parseRequest_roundtrip_witness:
  "\<exists>b b'. contents b = sample_bytes \<and>
     parseRequest 7 HttpContext_ctor b = Some (Inr (True, \<lparr>ctx_state = kGotAll,
       ctx_request = sample_request\<lparr>req_receiveTime := 7, req_headers := [(''Host'', ''h'')]\<rparr>\<rparr>, b')) \<and>
     contents b' = ''next''"
proof -
  have len: "length sample_bytes \<le> 1000"
    by (simp add: render_request_def render_headers_def methodString_def version_string_def kCRLF_def)
  obtain b where b: "buf_wf b" "contents b = sample_bytes"
    using append_aux [OF empty_buffer_facts(1) empty_buffer_facts(3) [OF len]] empty_buffer_facts(2) by auto
  have "request_ok sample_request" "list_all header_ok [(''Host'', ''h'')]"
    by (simp_all add: request_ok_def header_ok_def isspace_def)
  from parseRequest_roundtrip [OF this b, of 7] b(2) show ?thesis
    by (auto simp: add_headers_def)
qed

text \<open>C38: a context that has got all (or expects a body) and is not reset makes \<open>parseRequest\<close> loop
  forever: the loop body does nothing in these states and \<open>hasMore\<close> stays true.\<close>

theorem parseRequest_diverges:
  assumes "ctx_state c = kGotAll \<or> ctx_state c = kExpectBody"
  shows "parseRequest t c b = None"
proof (rule ccontr)
  assume "parseRequest t c b \<noteq> None"
  then obtain s where s: "parse_loop t (Inr (True, True, c, b)) = Some s"
    by (auto simp: parseRequest_def)
  have "s = Inr (True, True, c, b)"
    by (rule while_option_rule [OF _ s, where P = "\<lambda>s. s = Inr (True, True, c, b)"])
      (use assms in \<open>simp_all add: parse_turn_idle\<close>)
  with while_option_stop [OF s] show False by (simp add: parse_running_def)
qed

theorem parseRequest_diverges_witness:
  "parseRequest 0 (HttpContext_ctor\<lparr>ctx_state := kGotAll\<rparr>) empty_buffer = None"
  by (rule parseRequest_diverges) simp

text \<open>A request line that is rejected after its method was recognised poisons the connection. The bad
  line stays in the buffer and the method stays set, so the next call of \<open>parseRequest\<close>, whatever was
  received in between, fails the assertion of setMethod (and the process aborts).\<close>

theorem rejected_line_then_abort:
  assumes wf: "buf_wf b" and st: "ctx_state c = kExpectRequestLine"
    and fresh: "req_method (ctx_request c) = kInvalid"
    and rej: "parseRequest t c b = Some (Inr (False, c', b'))"
    and meth: "req_method (ctx_request c') \<noteq> kInvalid"
    and ext: "buf_room (length ext) b'"
  shows "\<exists>b''. append ext b' = Inr b'' \<and>
    parseRequest t' c' b'' = Some (Inl (AssertFailed ''method_ == kInvalid''))"
proof -
  have ex: "expecting c" using st by simp
  have "parse_str t c (contents b) = Inr (False, c', contents b')" and wf': "buf_wf b'"
    using parseRequest_refines [OF wf ex, of t] rej by (auto split: sum.splits)
  then obtain k where k: "find_crlf (contents b) = Some k" "contents b' = contents b"
      "processRequestLine (take k (contents b)) (ctx_request c) = Inr (False, ctx_request c')"
      "ctx_state c' = kExpectRequestLine"
    using st by (auto simp: parse_str_def bind_res_eq_Inr split: option.splits if_splits)
  obtain b'' where b'': "append ext b' = Inr b''" "buf_wf b''" "contents b'' = contents b @ ext"
    using append_aux [OF wf' ext] k(2) by auto
  have "processRequestLine (take k (contents b)) (ctx_request c') = Inl (AssertFailed ''method_ == kInvalid'')"
    using processRequestLine_False [OF k(3) meth fresh] meth by (rule processRequestLine_twice)
  then have "parse_str t' c' (contents b'') = Inl (AssertFailed ''method_ == kInvalid'')"
    using k(4) b''(3) find_crlf_append [OF k(1), of ext] find_crlf_bound [OF k(1)]
    by (simp add: parse_str_def)
  with parseRequest_refines [OF b''(2), of c' t'] k(4) b''(1) show ?thesis by simp
qed

abbreviation bad_line :: string where
  "bad_line \<equiv> ''GET / HTTP/2.0'' @ kCRLF"

theorem rejected_line_then_abort_witness:
  "\<exists>b c' b' b''. contents b = bad_line \<and> parseRequest 0 HttpContext_ctor b = Some (Inr (False, c', b')) \<and>
     append ''x'' b' = Inr b'' \<and> parseRequest 0 c' b'' = Some (Inl (AssertFailed ''method_ == kInvalid''))"
proof -
  have len: "length bad_line \<le> 1000" by (simp add: kCRLF_def)
  obtain b where b: "buf_wf b" "contents b = bad_line" "m_writerIndex b \<le> 8 + length bad_line"
    using append_aux [OF empty_buffer_facts(1) empty_buffer_facts(3) [OF len]] empty_buffer_facts(2) by auto
  have "parse_str 0 HttpContext_ctor bad_line = Inr (False, HttpContext_ctor\<lparr>ctx_request :=
      HttpRequest_ctor\<lparr>req_method := kGet, req_path := ''/''\<rparr>\<rparr>, bad_line)"
    by (simp add: parse_str_def HttpContext_ctor_def find_crlf_def kCRLF_def processRequestLine_def
        setMethod_def HttpRequest_ctor_def setPath_def Let_def numeral_2_eq_2)
  with parseRequest_refines [OF b(1), of HttpContext_ctor 0] b(2) obtain b' where
    b': "parseRequest 0 HttpContext_ctor b = Some (Inr (False, HttpContext_ctor\<lparr>ctx_request :=
      HttpRequest_ctor\<lparr>req_method := kGet, req_path := ''/''\<rparr>\<rparr>, b'))" "m_writerIndex b' \<le> m_writerIndex b"
    by (auto simp: HttpContext_ctor_def)
  have "buf_room (length ''x'') b'" using b(3) b'(2) by (simp add: buf_room_def buffer_consts kCRLF_def)
  from rejected_line_then_abort [OF b(1) _ _ b'(1) _ this, of 0] b(2) b'(1) show ?thesis
    by (auto simp: HttpContext_ctor_def HttpRequest_ctor_def)
qed

end
