(* ===== verification/TA_HttpResponse.thy ===== *)
theory TA_HttpResponse
  imports TA_Http
begin

text \<open>
  The HTTP response (\<open>src/Http/HttpResponse.h\<close>, \<open>HttpResponse.cpp\<close>) and the table of media types
  (\<open>src/Http/Mimetype.cpp\<close>). A response is serialised by a sequence of appends to a \<open>Buffer\<close>; the
  proofs use the buffer only through its byte-queue interface. The specification is a client that
  reads the status line, the header lines and the body back.
\<close>

section \<open>Data\<close>

datatype http_status = kUnknownStatus | k200Ok | k301MovedPermanently | k400BadRequest | k404NotFound

definition status_value :: "http_status \<Rightarrow> nat" where
  "status_value c = (case c of kUnknownStatus \<Rightarrow> 0 | k200Ok \<Rightarrow> 200 | k301MovedPermanently \<Rightarrow> 301
     | k400BadRequest \<Rightarrow> 400 | k404NotFound \<Rightarrow> 404)"

record http_response =
  resp_headers :: "(string \<times> string) list"
  resp_statusCode :: http_status
  resp_statusMessage :: string
  resp_closeConnection :: bool
  resp_body :: string

definition HttpResponse_ctor :: "bool \<Rightarrow> http_response" where
  "HttpResponse_ctor close = \<lparr>resp_headers = [], resp_statusCode = kUnknownStatus, resp_statusMessage = [],
     resp_closeConnection = close, resp_body = []\<rparr>"

section \<open>Operations\<close>

definition setStatusCode :: "http_status \<Rightarrow> http_response \<Rightarrow> http_response" where
  "setStatusCode c r = r\<lparr>resp_statusCode := c\<rparr>"

definition setStatusMessage :: "string \<Rightarrow> http_response \<Rightarrow> http_response" where
  "setStatusMessage m r = r\<lparr>resp_statusMessage := m\<rparr>"

definition setCloseConnection :: "bool \<Rightarrow> http_response \<Rightarrow> http_response" where
  "setCloseConnection on r = r\<lparr>resp_closeConnection := on\<rparr>"

definition resp_addHeader :: "string \<Rightarrow> string \<Rightarrow> http_response \<Rightarrow> http_response" where
  "resp_addHeader k v r = r\<lparr>resp_headers := omap_update k v (resp_headers r)\<rparr>"

definition setContentType :: "string \<Rightarrow> http_response \<Rightarrow> http_response" where
  "setContentType t r = resp_addHeader ''Content-Type'' t r"

definition setBody :: "string \<Rightarrow> http_response \<Rightarrow> http_response" where
  "setBody s r = r\<lparr>resp_body := s\<rparr>"

text \<open>\<open>appendToBuffer\<close>: the strings it appends, in order (\<open>buf\<close> has 32 bytes), and the appends.\<close>

definition response_pieces :: "http_response \<Rightarrow> string list" where
  "response_pieces r =
     [snprintf_buf 32 (''HTTP/1.1 '' @ dec_nat (status_value (resp_statusCode r)) @ '' ''),
      resp_statusMessage r, kCRLF] @
     (if resp_closeConnection r then [''Connection: close'' @ kCRLF]
      else [snprintf_buf 32 (''Content-Length: '' @ dec_nat (length (resp_body r)) @ kCRLF),
            ''Connection: Keep-Alive'' @ kCRLF]) @
     concat (map (\<lambda>h. [fst h, '': '', snd h, kCRLF]) (resp_headers r)) @
     [kCRLF, resp_body r]"

definition appendToBuffer :: "http_response \<Rightarrow> buffer \<Rightarrow> buffer res" where
  "appendToBuffer r output = fold_res append (response_pieces r) output"

section \<open>Media types\<close>

definition Mimetype_init :: "(string \<times> string) list" where
  "Mimetype_init =
     fold (\<lambda>(k, v). omap_update k v)
       [(''.html'', ''text/html''), (''.css'', ''text/css''), (''.avi'', ''video/x-msvideo''),
        (''.bmp'', ''image/bmp''), (''.c'', ''text/plain''), (''.doc'', ''application/msword''),
        (''.gif'', ''image/gif''), (''.gz'', ''application/x-gzip''), (''.htm'', ''text/html''),
        (''.ico'', ''image/x-icon''), (''.jpg'', ''image/jpeg''), (''.png'', ''image/png''),
        (''.txt'', ''text/plain''), (''.mp3'', ''audio/mp3''), (''default'', ''text/html'')] []"

text \<open>\<open>operator[]\<close> on the map: the value, or a default-constructed string for a new key. \<open>getMime\<close>
  only indexes keys that are present, so the map does not change.\<close>

definition omap_index :: "('k::linorder \<times> string) list \<Rightarrow> 'k \<Rightarrow> string" where
  "omap_index m k = (case map_of m k of None \<Rightarrow> [] | Some v \<Rightarrow> v)"

definition getMime :: "string \<Rightarrow> string" where
  "getMime suffix =
     (if map_of Mimetype_init suffix = None then omap_index Mimetype_init ''default''
      else omap_index Mimetype_init suffix)"

section \<open>A client that reads responses\<close>

text \<open>The status line, the header map, the body (as long as Content-Length says, or everything up to the
  end of the stream) and the bytes after the response.\<close>

definition client_read :: "string \<Rightarrow> (string \<times> (string \<times> string) list \<times> string \<times> string) option" where
  "client_read s =
     (case find_crlf s of
        None \<Rightarrow> None
      | Some k \<Rightarrow>
          (let (fin, r, rest) = parse_headers HttpRequest_ctor (drop (k + 2) s);
               hs = req_headers r;
               n = (case map_of hs ''Content-Length'' of None \<Rightarrow> length rest | Some v \<Rightarrow> digits_value 0 v)
           in if fin then Some (take k s, hs, take n rest, drop n rest) else None))"

text \<open>The header lines a response carries, and the responses whose parts fit the wire format.\<close>

definition sent_headers :: "http_response \<Rightarrow> (string \<times> string) list" where
  "sent_headers r =
     (if resp_closeConnection r then [(''Connection'', ''close'')]
      else [(''Content-Length'', dec_nat (length (resp_body r))), (''Connection'', ''Keep-Alive'')]) @
     resp_headers r"

definition response_ok :: "http_response \<Rightarrow> bool" where
  "response_ok r = (list_all header_ok (resp_headers r) \<and> omap_wf (resp_headers r) \<and>
     ''Content-Length'' \<notin> fst ` set (resp_headers r) \<and> ''Connection'' \<notin> fst ` set (resp_headers r) \<and>
     CHR 0x0D \<notin> set (resp_statusMessage r) \<and> length (resp_body r) < 10 ^ 13)"

definition status_line :: "http_response \<Rightarrow> string" where
  "status_line r = ''HTTP/1.1 '' @ dec_nat (status_value (resp_statusCode r)) @ '' '' @ resp_statusMessage r"

section \<open>Lemmas\<close>

lemma map_of_add_headers: "map_of (add_headers hs m) = map_of m ++ map_of (rev hs)"
proof (induction hs arbitrary: m)
  case Nil
  then show ?case by (simp add: add_headers_def)
next
  case (Cons h hs)
  have "add_headers (h # hs) m = add_headers hs (omap_update (fst h) (snd h) m)"
    by (simp add: add_headers_def case_prod_beta)
  with Cons.IH [of "omap_update (fst h) (snd h) m"] show ?case
    by (cases h) (simp add: fun_eq_iff map_add_def split: option.split)
qed

lemma status_value_bound: "status_value c < 10 ^ 3"
  by (cases c) (simp_all add: status_value_def)

lemma status_piece: "snprintf_buf 32 (''HTTP/1.1 '' @ dec_nat (status_value c) @ '' '') =
    ''HTTP/1.1 '' @ dec_nat (status_value c) @ '' ''"
  using length_dec_nat_le [OF status_value_bound [of c]] by (simp add: snprintf_buf_def)

text \<open>The 32 byte buffer holds the Content-Length line of every body below \<open>10 ^ 13\<close> bytes.\<close>

lemma length_piece: "n < 10 ^ 13 \<Longrightarrow> snprintf_buf 32 (''Content-Length: '' @ dec_nat n @ kCRLF) =
    ''Content-Length: '' @ dec_nat n @ kCRLF"
  using length_dec_nat_le [of n 13] by (simp add: snprintf_buf_def kCRLF_def)

lemma concat_header_pieces:
  "concat (concat (map (\<lambda>h. [fst h, '': '', snd h, kCRLF]) hs)) = concat (map (\<lambda>(f, v). f @ '': '' @ v @ kCRLF) hs)"
  by (induction hs) auto

lemma response_bytes:
  assumes "length (resp_body r) < 10 ^ 13"
  shows "concat (response_pieces r) =
    status_line r @ kCRLF @ render_headers (sent_headers r) @ resp_body r"
  unfolding response_pieces_def status_piece length_piece [OF assms]
  by (simp add: status_line_def sent_headers_def render_headers_def concat_header_pieces)

lemma header_ok_sent:
  assumes "response_ok r"
  shows "list_all header_ok (sent_headers r)"
proof -
  have "\<not> isspace c" if "c \<in> set (dec_nat n)" for c n
    using dec_nat_digits [OF that] by (auto simp: is_digit_def isspace_def)
  then have "\<not> isspace (hd (dec_nat n)) \<and> \<not> isspace (last (dec_nat n))" for n
    by (meson dec_nat_ne hd_in_set last_in_set)
  with assms show ?thesis
    by (simp add: response_ok_def sent_headers_def header_ok_def isspace_def)
qed

lemma map_of_distinct_eq:
  assumes "distinct (map fst xs)" and "distinct (map fst ys)" and "set xs = set ys"
  shows "map_of xs = map_of ys"
proof
  fix k
  show "map_of xs k = map_of ys k"
  proof (cases "map_of xs k")
    case None
    with assms(3) show ?thesis by (metis map_of_eq_None_iff)
  next
    case (Some v)
    with assms show ?thesis by (metis map_of_eq_Some_iff)
  qed
qed

lemma sent_header_map:
  assumes "response_ok r"
  shows "map_of (rev (sent_headers r)) = map_of (sent_headers r)"
proof -
  have "distinct (map fst (resp_headers r))"
    using assms oset_wf_distinct by (auto simp: response_ok_def)
  then have "distinct (map fst (sent_headers r))"
    using assms by (simp add: response_ok_def sent_headers_def)
  then show ?thesis
    by (intro map_of_distinct_eq) (simp_all add: rev_map [symmetric])
qed

lemma client_read_response:
  assumes "response_ok r" and "resp_closeConnection r \<Longrightarrow> rest = []"
  shows "\<exists>hs. client_read (concat (response_pieces r) @ rest) = Some (status_line r, hs, resp_body r, rest) \<and>
    map_of hs = map_of (sent_headers r)"
proof -
  define s where "s = concat (response_pieces r) @ rest"
  have s: "s = status_line r @ kCRLF @ (render_headers (sent_headers r) @ resp_body r @ rest)"
    using response_bytes [of r] assms(1) by (simp add: response_ok_def s_def)
  have cut: "take (length (status_line r)) s = status_line r"
    "drop (length (status_line r) + 2) s = render_headers (sent_headers r) @ resp_body r @ rest"
    unfolding s by (rule cut_line)+
  have "CHR 0x0D \<notin> set (status_line r)"
    using assms(1) by (simp add: status_line_def response_ok_def)
  then have "find_crlf s = Some (length (status_line r))" unfolding s by (rule find_crlf_line)
  moreover have "map_of (add_headers (sent_headers r) []) = map_of (sent_headers r)"
    using sent_header_map [OF assms(1)] by (simp add: map_of_add_headers)
  moreover have "(case map_of (sent_headers r) ''Content-Length'' of None \<Rightarrow> length (resp_body r @ rest)
      | Some v \<Rightarrow> digits_value 0 v) = length (resp_body r)"
    using assms by (force simp: sent_headers_def digits_value_dec_nat response_ok_def
        split: option.split dest!: map_of_SomeD)
  ultimately show ?thesis
    unfolding s_def [symmetric] client_read_def
    using parse_headers_written [OF header_ok_sent [OF assms(1)], of HttpRequest_ctor "resp_body r @ rest"] cut
    by (simp add: HttpRequest_ctor_def)
qed

lemma appendToBuffer_bytes:
  assumes "buf_wf b" and "buf_room (length (concat (response_pieces r))) b"
  shows "\<exists>b'. appendToBuffer r b = Inr b' \<and> buf_wf b' \<and> contents b' = contents b @ concat (response_pieces r)"
  unfolding appendToBuffer_def using assms by (rule bq.puts_ok)

lemma getMime_known: "map_of Mimetype_init suffix = Some t \<Longrightarrow> getMime suffix = t"
  by (simp add: getMime_def omap_index_def)

section \<open>Properties\<close>

text \<open>A serialised response can be read back. Appending a well-formed response to any buffer with
  room appends bytes from which a client recovers the status line, every header (the framing headers
  the code adds included) and exactly the body, whatever follows a response that keeps the connection
  alive (a response that closes it is the last).\<close>

theorem response_roundtrip:
  assumes "buf_wf b" and "buf_room (length (concat (response_pieces r))) b" and "response_ok r"
    and "resp_closeConnection r \<Longrightarrow> rest = []"
  shows "\<exists>b' bs hs. appendToBuffer r b = Inr b' \<and> contents b' = contents b @ bs \<and>
    client_read (bs @ rest) = Some (status_line r, hs, resp_body r, rest) \<and>
    map_of hs = map_of (sent_headers r)"
  using appendToBuffer_bytes [OF assms(1,2)] client_read_response [OF assms(3,4)] by blast

abbreviation sample_response :: http_response where
  "sample_response \<equiv> setContentType ''text/plain'' (setBody ''hello'' (setStatusMessage ''OK''
     (setStatusCode k200Ok (HttpResponse_ctor False))))"

theorem response_roundtrip_witness:
  "\<exists>b' bs hs. appendToBuffer sample_response empty_buffer = Inr b' \<and> contents b' = contents empty_buffer @ bs \<and>
    client_read (bs @ ''HTTP/1.1'') = Some (''HTTP/1.1 200 OK'', hs, ''hello'', ''HTTP/1.1'') \<and>
    map_of hs = map_of [(''Content-Length'', ''5''), (''Connection'', ''Keep-Alive''), (''Content-Type'', ''text/plain'')]"
proof -
  note defs = setContentType_def setBody_def setStatusMessage_def setStatusCode_def HttpResponse_ctor_def
    resp_addHeader_def
  have ok: "response_ok sample_response"
    by (simp add: defs response_ok_def header_ok_def isspace_def)
  have len: "length (concat (response_pieces sample_response)) \<le> 1000"
    by (simp add: defs response_pieces_def snprintf_buf_def kCRLF_def status_value_def dec_nat.simps)
  have st: "status_line sample_response = ''HTTP/1.1 200 OK''"
    by code_simp
  have hd: "sent_headers sample_response =
      [(''Content-Length'', ''5''), (''Connection'', ''Keep-Alive''), (''Content-Type'', ''text/plain'')]"
    by code_simp
  have body: "resp_body sample_response = ''hello''" "\<not> resp_closeConnection sample_response"
    by (simp_all add: defs)
  show ?thesis
    using response_roundtrip [OF empty_buffer_facts(1) empty_buffer_facts(3) [OF len] ok, of "''HTTP/1.1''"] body
    unfolding st hd by simp
qed

end
