(* ===== verification/TA_Reactor.thy ===== *)
theory TA_Reactor
  imports TA_Format
begin

unbundle bit_operations_syntax

text \<open>
  Channels and the poller of an event loop (\<open>src/Reactor/Channel.h\<close>, \<open>Channel.cpp\<close>, \<open>Poller.h\<close>,
  \<open>Poller.cpp\<close>, \<open>src/Socket/Epoll.h\<close>, \<open>Epoll.cpp\<close>). The poller and the channels share the \<open>Channel\<close>
  objects (the poller sets their index and their received events), so the objects are a store of the
  loop's state, under their addresses. The interest list of the kernel is part of the state, with the
  documented behaviour of \<open>epoll_ctl(2)\<close>: adding a registered descriptor or changing an unregistered
  one fails; the code logs a failure and goes on. \<open>epoll_wait(2)\<close> is a parameter.

  The operations run in the loop's thread and the channels belong to the loop; the two assertions that
  say so are not part of these definitions.
\<close>

section \<open>Channels\<close>

definition EVENTIN :: "32 word" where "EVENTIN = 0x001"
definition EVENTPRI :: "32 word" where "EVENTPRI = 0x002"
definition EVENTOUT :: "32 word" where "EVENTOUT = 0x004"
definition EVENTERR :: "32 word" where "EVENTERR = 0x008"
definition EVENTHUP :: "32 word" where "EVENTHUP = 0x010"
definition EVENTRDHUP :: "32 word" where "EVENTRDHUP = 0x2000"

definition kNoneEvent :: "32 word" where "kNoneEvent = 0"
definition kReadEvent :: "32 word" where "kReadEvent = EVENTIN OR EVENTPRI"
definition kWriteEvent :: "32 word" where "kWriteEvent = EVENTOUT"

lemmas event_defs = EVENTIN_def EVENTPRI_def EVENTOUT_def EVENTERR_def EVENTHUP_def EVENTRDHUP_def
  kNoneEvent_def kReadEvent_def kWriteEvent_def

text \<open>A callback is named by a number; \<open>None\<close> is an empty \<open>std::function\<close>.\<close>

record channel =
  ch_fd :: int
  ch_events :: "32 word"
  ch_revents :: "32 word"
  ch_index :: int
  ch_addedToLoop :: bool
  ch_readCallBack :: "nat option"
  ch_writeCallBack :: "nat option"
  ch_errorCallBack :: "nat option"
  ch_closeCallBack :: "nat option"

definition Channel_ctor :: "int \<Rightarrow> channel" where
  "Channel_ctor fd = \<lparr>ch_fd = fd, ch_events = 0, ch_revents = 0, ch_index = - 1, ch_addedToLoop = False,
     ch_readCallBack = None, ch_writeCallBack = None, ch_errorCallBack = None, ch_closeCallBack = None\<rparr>"

definition isNoneEvent :: "channel \<Rightarrow> bool" where
  "isNoneEvent c \<longleftrightarrow> ch_events c = kNoneEvent"

text \<open>\<open>isWriting\<close> and \<open>isReading\<close> use \<open>&=\<close>: they test a bit and store the masked value.\<close>

definition isWriting :: "channel \<Rightarrow> bool \<times> channel" where
  "isWriting c = (let ev = ch_events c AND kWriteEvent in (ev \<noteq> 0, c\<lparr>ch_events := ev\<rparr>))"

definition isReading :: "channel \<Rightarrow> bool \<times> channel" where
  "isReading c = (let ev = ch_events c AND kReadEvent in (ev \<noteq> 0, c\<lparr>ch_events := ev\<rparr>))"

text \<open>\<open>handleEvent\<close>: the callbacks it calls, in order.\<close>

definition call_if :: "bool \<Rightarrow> nat option \<Rightarrow> nat list" where
  "call_if cond cb = (if cond then (case cb of None \<Rightarrow> [] | Some f \<Rightarrow> [f]) else [])"

definition handleEvent :: "channel \<Rightarrow> nat list" where
  "handleEvent c =
     call_if (ch_revents c AND EVENTHUP \<noteq> 0 \<and> ch_revents c AND EVENTIN = 0) (ch_closeCallBack c) @
     call_if (ch_revents c AND EVENTERR \<noteq> 0) (ch_errorCallBack c) @
     call_if (ch_revents c AND (EVENTIN OR EVENTPRI OR EVENTRDHUP) \<noteq> 0) (ch_readCallBack c) @
     call_if (ch_revents c AND EVENTOUT \<noteq> 0) (ch_writeCallBack c)"

definition eventsToString :: "int \<Rightarrow> 32 word \<Rightarrow> string" where
  "eventsToString fd ev =
     dec_int fd @ '': '' @
     (if ev AND EVENTIN \<noteq> 0 then ''IN '' else []) @ (if ev AND EVENTPRI \<noteq> 0 then ''PRI '' else []) @
     (if ev AND EVENTOUT \<noteq> 0 then ''OUT '' else []) @ (if ev AND EVENTHUP \<noteq> 0 then ''HUP '' else []) @
     (if ev AND EVENTRDHUP \<noteq> 0 then ''RDHUP '' else []) @ (if ev AND EVENTERR \<noteq> 0 then ''ERR '' else [])"

section \<open>The epoll poller\<close>

text \<open>\<open>m_epollEvents\<close> is represented by its size and its capacity; its elements are what the last
  \<open>epoll_wait\<close> wrote.\<close>

record reactor =
  rx_chans :: "nat \<rightharpoonup> channel"
  ep_channels :: "(int \<times> nat) list"
  ep_maxEventsSize :: nat
  ep_size :: nat
  ep_capacity :: nat
  ep_kernel :: "int \<rightharpoonup> 32 word"

definition kMaxEpollConcurrencySize :: nat where
  "kMaxEpollConcurrencySize = 10000"

definition kInitEpollEventsSize :: nat where
  "kInitEpollEventsSize = 1024"

definition Epoll_ctor :: reactor where
  "Epoll_ctor = \<lparr>rx_chans = Map.empty, ep_channels = [], ep_maxEventsSize = 0, ep_size = kInitEpollEventsSize,
     ep_capacity = kInitEpollEventsSize, ep_kernel = Map.empty\<rparr>"

definition chan_at :: "nat \<Rightarrow> reactor \<Rightarrow> channel res" where
  "chan_at p s = (case rx_chans s p of Some c \<Rightarrow> Inr c | None \<Rightarrow> Inl (if p = 0 then NullDeref else Dangling))"

definition put_chan :: "nat \<Rightarrow> channel \<Rightarrow> reactor \<Rightarrow> reactor" where
  "put_chan p c s = s\<lparr>rx_chans := (rx_chans s)(p \<mapsto> c)\<rparr>"

definition epollRegister :: "int \<Rightarrow> 32 word \<Rightarrow> reactor \<Rightarrow> reactor" where
  "epollRegister fd ev s = (if ep_kernel s fd \<noteq> None then s else s\<lparr>ep_kernel := (ep_kernel s)(fd \<mapsto> ev)\<rparr>)"

definition epollUpdate :: "int \<Rightarrow> 32 word \<Rightarrow> reactor \<Rightarrow> reactor" where
  "epollUpdate fd ev s = (if ep_kernel s fd = None then s else s\<lparr>ep_kernel := (ep_kernel s)(fd \<mapsto> ev)\<rparr>)"

definition epollDelete :: "int \<Rightarrow> reactor \<Rightarrow> reactor" where
  "epollDelete fd s = (if ep_kernel s fd = None then s else s\<lparr>ep_kernel := (ep_kernel s)(fd := None)\<rparr>)"

definition grow_events :: "reactor \<Rightarrow> reactor" where
  "grow_events s =
     (if ep_maxEventsSize s + 1 = ep_capacity s
      then s\<lparr>ep_capacity := max (ep_capacity s) (min (2 * ep_capacity s) kMaxEpollConcurrencySize)\<rparr>
      else s)"

definition updateChannel :: "nat \<Rightarrow> reactor \<Rightarrow> reactor res" where
  "updateChannel p s =
     bind_res (chan_at p s) (\<lambda>c.
     bind_res
       (if ch_index c < 0
        then cassert (map_of (ep_channels s) (ch_fd c) = None) ''m_channels.find(channel->fd()) == m_channels.end()''
          (let s1 = epollRegister (ch_fd c) (ch_events c) s;
               idx = ep_maxEventsSize s1 + 1
           in Inr (put_chan p (c\<lparr>ch_index := int_of_size idx\<rparr>)
                (s1\<lparr>ep_maxEventsSize := idx, ep_channels := omap_update (ch_fd c) p (ep_channels s1)\<rparr>)))
        else cassert (map_of (ep_channels s) (ch_fd c) \<noteq> None) ''m_channels.find(channel->fd()) != m_channels.end()''
          (cassert (map_of (ep_channels s) (ch_fd c) = Some p) ''m_channels[channel->fd()] == channel''
            (Inr (epollUpdate (ch_fd c) (ch_events c) s))))
       (\<lambda>s1. Inr (grow_events s1)))"

definition removeChannel :: "nat \<Rightarrow> reactor \<Rightarrow> reactor res" where
  "removeChannel p s =
     bind_res (chan_at p s) (\<lambda>c.
     cassert (map_of (ep_channels s) (ch_fd c) \<noteq> None) ''m_channels.find(channel->fd()) != m_channels.end()''
     (cassert (map_of (ep_channels s) (ch_fd c) = Some p) ''m_channels[channel->fd()] == channel''
     (cassert (isNoneEvent c) ''channel->isNoneEvent()''
     (let s1 = epollDelete (ch_fd c) s;
          chans = filter (\<lambda>e. fst e \<noteq> ch_fd c) (ep_channels s1)
      in cassert (length (ep_channels s1) = length chans + 1) ''n == 1''
        (Inr (s1\<lparr>ep_channels := chans, ep_maxEventsSize := sub64 (ep_maxEventsSize s1) 1\<rparr>))))))"

definition hasChannel :: "nat \<Rightarrow> reactor \<Rightarrow> bool res" where
  "hasChannel p s = bind_res (chan_at p s) (\<lambda>c. Inr (map_of (ep_channels s) (ch_fd c) = Some p))"

text \<open>The interest operations of a channel: change \<open>m_events\<close>, then \<open>update()\<close>.\<close>

definition set_interest :: "(32 word \<Rightarrow> 32 word) \<Rightarrow> nat \<Rightarrow> reactor \<Rightarrow> reactor res" where
  "set_interest f p s =
     bind_res (chan_at p s) (\<lambda>c.
       updateChannel p (put_chan p (c\<lparr>ch_events := f (ch_events c), ch_addedToLoop := True\<rparr>) s))"

definition enableReading :: "nat \<Rightarrow> reactor \<Rightarrow> reactor res" where
  "enableReading = set_interest (\<lambda>ev. ev OR kReadEvent)"

definition disableReading :: "nat \<Rightarrow> reactor \<Rightarrow> reactor res" where
  "disableReading = set_interest (\<lambda>ev. ev AND NOT kReadEvent)"

definition enableWriting :: "nat \<Rightarrow> reactor \<Rightarrow> reactor res" where
  "enableWriting = set_interest (\<lambda>ev. ev OR kWriteEvent)"

definition disableWriting :: "nat \<Rightarrow> reactor \<Rightarrow> reactor res" where
  "disableWriting = set_interest (\<lambda>ev. ev AND NOT kWriteEvent)"

definition disableAll :: "nat \<Rightarrow> reactor \<Rightarrow> reactor res" where
  "disableAll = set_interest (\<lambda>ev. kNoneEvent)"

definition channel_remove :: "nat \<Rightarrow> reactor \<Rightarrow> reactor res" where
  "channel_remove p s =
     bind_res (chan_at p s) (\<lambda>c.
       cassert (isNoneEvent c) ''isNoneEvent()''
         (removeChannel p (put_chan p (c\<lparr>ch_addedToLoop := False\<rparr>) s)))"

text \<open>\<open>poll\<close>: \<open>sys_epoll_wait interest maxevents\<close> is an error (\<open>None\<close>) or the ready descriptors with their
  events, which the kernel writes into the array of \<open>ep_capacity\<close> elements. The loop that fills the
  active channels ends at the size of the vector.\<close>

definition fill_active :: "int \<times> 32 word \<Rightarrow> nat list \<times> reactor \<Rightarrow> (nat list \<times> reactor) res" where
  "fill_active e st =
     (case st of (act, s) \<Rightarrow>
        cassert (0 < snd e) ''it->events > 0''
          (case map_of (ep_channels s) (fst e) of
             None \<Rightarrow> Inl (AssertFailed ''ch != m_channels.end()'')
           | Some p \<Rightarrow>
               bind_res (chan_at p s) (\<lambda>c.
                 cassert (ch_fd c = fst e) ''channel->fd() == it->data.fd''
                   (Inr (act @ [p], put_chan p (c\<lparr>ch_revents := snd e\<rparr>) s)))))"

definition poll :: "((int \<rightharpoonup> 32 word) \<Rightarrow> nat \<Rightarrow> (int \<times> 32 word) list option) \<Rightarrow> reactor \<Rightarrow> (nat list \<times> reactor) res" where
  "poll sys_epoll_wait s =
     cassert (0 < ep_size s) ''m_epollEvents.size() > 0''
       (case sys_epoll_wait (ep_kernel s) (ep_maxEventsSize s) of
          None \<Rightarrow> Inr ([], s)
        | Some evs \<Rightarrow>
            if ep_capacity s < length evs then Inl OutOfRange
            else fold_res fill_active (take (ep_size s) evs) ([], s))"

text \<open>What \<open>epoll_wait(2)\<close> promises: at most \<open>maxevents\<close> different registered descriptors, each with an event.\<close>

definition epoll_wait_ok :: "((int \<rightharpoonup> 32 word) \<Rightarrow> nat \<Rightarrow> (int \<times> 32 word) list option) \<Rightarrow> bool" where
  "epoll_wait_ok w \<longleftrightarrow> (\<forall>k n evs. w k n = Some evs \<longrightarrow>
     length evs \<le> n \<and> distinct (map fst evs) \<and> (\<forall>e \<in> set evs. fst e \<in> dom k \<and> snd e \<noteq> 0))"

section \<open>Invariant\<close>

text \<open>The map of the poller and the interest list of the kernel hold the same descriptors; each is registered
  for a live channel of that descriptor whose index is not negative; the counter counts them; and the
  event array has room for one more than the counter, until it reaches its maximum.\<close>

definition rx_inv :: "reactor \<Rightarrow> bool" where
  "rx_inv s \<longleftrightarrow>
     omap_wf (ep_channels s) \<and> dom (ep_kernel s) = fst ` set (ep_channels s) \<and>
     (\<forall>(fd, p) \<in> set (ep_channels s). \<exists>c. rx_chans s p = Some c \<and> ch_fd c = fd \<and> 0 \<le> ch_index c) \<and>
     ep_maxEventsSize s = length (ep_channels s) \<and> ep_size s = kInitEpollEventsSize \<and>
     kInitEpollEventsSize \<le> ep_capacity s \<and> ep_capacity s \<le> kMaxEpollConcurrencySize \<and>
     (ep_maxEventsSize s + 1 < ep_capacity s \<or> ep_capacity s = kMaxEpollConcurrencySize)"

text \<open>The counter still fits the \<open>int\<close> index of a channel after one more registration.\<close>

definition rx_room :: "reactor \<Rightarrow> bool" where
  "rx_room s \<longleftrightarrow> length (ep_channels s) < 2 ^ 31 - 1"

definition owner :: "reactor \<Rightarrow> int \<rightharpoonup> nat" where
  "owner s = map_of (ep_channels s)"

section \<open>The interface of a poller\<close>

locale poller =
  fixes inv :: "'s \<Rightarrow> bool"
    and chan :: "'s \<Rightarrow> nat \<rightharpoonup> channel"
    and put :: "nat \<Rightarrow> channel \<Rightarrow> 's \<Rightarrow> 's"
    and interest :: "'s \<Rightarrow> int \<rightharpoonup> 32 word"
    and owned :: "'s \<Rightarrow> int \<rightharpoonup> nat"
    and room :: "'s \<Rightarrow> bool"
    and upd :: "nat \<Rightarrow> 's \<Rightarrow> 's res"
    and rem :: "nat \<Rightarrow> 's \<Rightarrow> 's res"
  assumes put_laws: "chan (put p c s) = (chan s)(p \<mapsto> c)" "interest (put p c s) = interest s"
      "owned (put p c s) = owned s" "room (put p c s) = room s"
    and put_inv: "inv s \<Longrightarrow> chan s p = Some c \<Longrightarrow> ch_fd c' = ch_fd c \<Longrightarrow> ch_index c' = ch_index c \<Longrightarrow> inv (put p c' s)"
    and upd_new: "inv s \<Longrightarrow> room s \<Longrightarrow> chan s p = Some c \<Longrightarrow> ch_index c < 0 \<Longrightarrow> owned s (ch_fd c) = None \<Longrightarrow>
      \<exists>s' i. upd p s = Inr s' \<and> inv s' \<and> 0 \<le> i \<and> interest s' = (interest s)(ch_fd c \<mapsto> ch_events c) \<and>
        owned s' = (owned s)(ch_fd c \<mapsto> p) \<and> chan s' = (chan s)(p \<mapsto> c\<lparr>ch_index := i\<rparr>)"
    and upd_old: "inv s \<Longrightarrow> chan s p = Some c \<Longrightarrow> owned s (ch_fd c) = Some p \<Longrightarrow>
      \<exists>s'. upd p s = Inr s' \<and> inv s' \<and> interest s' = (interest s)(ch_fd c \<mapsto> ch_events c) \<and>
        owned s' = owned s \<and> chan s' = chan s"
    and rem_ok: "inv s \<Longrightarrow> chan s p = Some c \<Longrightarrow> owned s (ch_fd c) = Some p \<Longrightarrow> isNoneEvent c \<Longrightarrow>
      \<exists>s'. rem p s = Inr s' \<and> inv s' \<and> interest s' = (interest s)(ch_fd c := None) \<and>
        owned s' = (owned s)(ch_fd c := None) \<and> chan s' = chan s"
begin

text \<open>A channel that is new or registered can change its events and update; it is registered afterwards.\<close>

lemma change_events:
  assumes "inv s" and "room s" and "chan s p = Some c"
    and "ch_index c < 0 \<and> owned s (ch_fd c) = None \<or> owned s (ch_fd c) = Some p"
    and "ch_fd c' = ch_fd c" and "ch_index c' = ch_index c"
  shows "\<exists>s' i. upd p (put p c' s) = Inr s' \<and> inv s' \<and> interest s' = (interest s)(ch_fd c \<mapsto> ch_events c') \<and>
    owned s' = (owned s)(ch_fd c \<mapsto> p) \<and> chan s' = (chan s)(p \<mapsto> c'\<lparr>ch_index := i\<rparr>)"
proof -
  have inv1: "inv (put p c' s)" by (rule put_inv [OF assms(1,3,5,6)])
  have c1: "chan (put p c' s) p = Some c'" by (simp add: put_laws)
  show ?thesis
  proof (cases "owned s (ch_fd c) = Some p")
    case True
    with upd_old [OF inv1 c1] obtain s' where s': "upd p (put p c' s) = Inr s'" "inv s'"
        "interest s' = (interest s)(ch_fd c \<mapsto> ch_events c')" "owned s' = owned s" "chan s' = (chan s)(p \<mapsto> c')"
      by (auto simp: put_laws assms(5))
    have "(owned s)(ch_fd c \<mapsto> p) = owned s" using True by auto
    with s' show ?thesis by (intro exI [of _ s'] exI [of _ "ch_index c'"]) simp
  next
    case False
    with assms(2,4,6) upd_new [OF inv1 _ c1] show ?thesis by (auto simp: put_laws assms(5))
  qed
qed

text \<open>Registering a new channel for some events, masking all of them and removing it leaves no trace in the
  interest list.\<close>

lemma lifecycle:
  assumes "inv s" and "room s" and "chan s p = Some c" and "ch_index c < 0" and "owned s (ch_fd c) = None"
    and "interest s (ch_fd c) = None"
    and "ch_fd c1 = ch_fd c" and "ch_index c1 = ch_index c"
  shows "\<exists>s1 i s2 s3. upd p (put p c1 s) = Inr s1 \<and> interest s1 (ch_fd c) = Some (ch_events c1) \<and>
    chan s1 p = Some (c1\<lparr>ch_index := i\<rparr>) \<and>
    upd p (put p (c1\<lparr>ch_index := i, ch_events := kNoneEvent\<rparr>) s1) = Inr s2 \<and> rem p s2 = Inr s3 \<and>
    inv s3 \<and> interest s3 = interest s \<and> owned s3 = owned s"
proof -
  from change_events [OF assms(1-3) _ assms(7,8)] assms(4,5) obtain s1 i where s1:
      "upd p (put p c1 s) = Inr s1" "inv s1" "interest s1 = (interest s)(ch_fd c \<mapsto> ch_events c1)"
      "owned s1 = (owned s)(ch_fd c \<mapsto> p)" "chan s1 = (chan s)(p \<mapsto> c1\<lparr>ch_index := i\<rparr>)"
    by blast
  let ?c2 = "c1\<lparr>ch_index := i, ch_events := kNoneEvent\<rparr>"
  have inv1: "inv (put p ?c2 s1)" by (rule put_inv [OF s1(2), of p "c1\<lparr>ch_index := i\<rparr>"]) (simp_all add: s1(5))
  have "\<exists>s2. upd p (put p ?c2 s1) = Inr s2 \<and> inv s2 \<and> interest s2 = (interest s1)(ch_fd c \<mapsto> kNoneEvent) \<and>
      owned s2 = owned s1 \<and> chan s2 = (chan s1)(p \<mapsto> ?c2)"
    using upd_old [OF inv1, of p ?c2] s1(4) by (simp add: put_laws assms(7))
  then obtain s2 where s2: "upd p (put p ?c2 s1) = Inr s2" "inv s2"
      "interest s2 = (interest s1)(ch_fd c \<mapsto> kNoneEvent)" "owned s2 = owned s1" "chan s2 = (chan s1)(p \<mapsto> ?c2)"
    by blast
  have "\<exists>s3. rem p s2 = Inr s3 \<and> inv s3 \<and> interest s3 = (interest s2)(ch_fd c := None) \<and>
      owned s3 = (owned s2)(ch_fd c := None)"
    using rem_ok [OF s2(2), of p ?c2] s2(4,5) s1(4) by (auto simp: assms(7) isNoneEvent_def)
  then obtain s3 where s3: "rem p s2 = Inr s3" "inv s3" "interest s3 = (interest s2)(ch_fd c := None)"
      "owned s3 = (owned s2)(ch_fd c := None)"
    by blast
  have "interest s3 = interest s" "owned s3 = owned s"
    using s1 s2 s3 assms(5,6) by (auto simp: fun_upd_idem)
  with s1 s2 s3 show ?thesis by auto
qed

end

section \<open>The epoll poller is a poller\<close>

lemma rx_invD:
  assumes "rx_inv s"
  shows "omap_wf (ep_channels s)" "dom (ep_kernel s) = fst ` set (ep_channels s)"
    "ep_maxEventsSize s = length (ep_channels s)"
  using assms by (simp_all add: rx_inv_def)

lemma rx_inv_registered:
  "rx_inv s \<Longrightarrow> map_of (ep_channels s) fd = Some p \<Longrightarrow> \<exists>c. rx_chans s p = Some c \<and> ch_fd c = fd \<and> 0 \<le> ch_index c"
  by (auto simp: rx_inv_def dest!: map_of_SomeD)

lemma kernel_registered: "rx_inv s \<Longrightarrow> ep_kernel s fd = None \<longleftrightarrow> map_of (ep_channels s) fd = None"
  using rx_invD(2) [of s] by (metis domIff map_of_eq_None_iff)

lemma chan_at_live: "rx_chans s p = Some c \<Longrightarrow> chan_at p s = Inr c"
  by (simp add: chan_at_def)

lemma rx_inv_put:
  "rx_inv s \<Longrightarrow> rx_chans s p = Some c \<Longrightarrow> ch_fd c' = ch_fd c \<Longrightarrow> ch_index c' = ch_index c \<Longrightarrow> rx_inv (put_chan p c' s)"
  by (fastforce simp: rx_inv_def put_chan_def)

text \<open>The capacity test keeps the room of the event array.\<close>

lemma grow_events_inv:
  assumes "omap_wf (ep_channels s)" "dom (ep_kernel s) = fst ` set (ep_channels s)"
    "\<forall>(fd, p) \<in> set (ep_channels s). \<exists>c. rx_chans s p = Some c \<and> ch_fd c = fd \<and> 0 \<le> ch_index c"
    "ep_maxEventsSize s = length (ep_channels s)" "ep_size s = kInitEpollEventsSize"
    "kInitEpollEventsSize \<le> ep_capacity s" "ep_capacity s \<le> kMaxEpollConcurrencySize"
    "ep_maxEventsSize s + 1 \<le> ep_capacity s \<or> ep_capacity s = kMaxEpollConcurrencySize"
  shows "rx_inv (grow_events s)"
proof -
  let ?n = "ep_maxEventsSize s" and ?c = "ep_capacity s"
  have "ep_maxEventsSize (grow_events s) + 1 < ep_capacity (grow_events s) \<or>
      ep_capacity (grow_events s) = kMaxEpollConcurrencySize"
    "kInitEpollEventsSize \<le> ep_capacity (grow_events s)" "ep_capacity (grow_events s) \<le> kMaxEpollConcurrencySize"
    using assms(6-8) by (auto simp: grow_events_def kMaxEpollConcurrencySize_def kInitEpollEventsSize_def min_def max_def)
  with assms(1-5) show ?thesis by (simp add: rx_inv_def grow_events_def)
qed

lemma length_omap_update:
  "omap_wf m \<Longrightarrow> length (omap_update k v m) = (if k \<in> fst ` set m then length m else Suc (length m))"
proof (induction m)
  case Nil
  then show ?case by simp
next
  case (Cons x m)
  have "k \<notin> fst ` set m" if "k < fst x \<or> k = fst x" using Cons.prems that by fastforce
  with Cons show ?case by (cases x) auto
qed

lemma set_omap_update_subset: "set (omap_update k v m) \<subseteq> insert (k, v) (set m)"
  by (induction k v m rule: omap_update.induct) auto

lemma grow_events_simps [simp]:
  "rx_chans (grow_events s) = rx_chans s" "ep_channels (grow_events s) = ep_channels s"
  "ep_kernel (grow_events s) = ep_kernel s"
  by (simp_all add: grow_events_def)

lemma updateChannel_new:
  assumes "rx_inv s" and "rx_room s" and "rx_chans s p = Some c" and "ch_index c < 0" and "owner s (ch_fd c) = None"
  shows "\<exists>s' i. updateChannel p s = Inr s' \<and> rx_inv s' \<and> 0 \<le> i \<and> ep_kernel s' = (ep_kernel s)(ch_fd c \<mapsto> ch_events c) \<and>
    owner s' = (owner s)(ch_fd c \<mapsto> p) \<and> rx_chans s' = (rx_chans s)(p \<mapsto> c\<lparr>ch_index := i\<rparr>)"
proof -
  let ?i = "int (length (ep_channels s) + 1)"
  let ?s1 = "put_chan p (c\<lparr>ch_index := ?i\<rparr>) (s\<lparr>ep_kernel := (ep_kernel s)(ch_fd c \<mapsto> ch_events c),
    ep_maxEventsSize := length (ep_channels s) + 1, ep_channels := omap_update (ch_fd c) p (ep_channels s)\<rparr>)"
  have none: "map_of (ep_channels s) (ch_fd c) = None" using assms(5) by (simp add: owner_def)
  have run: "updateChannel p s = Inr (grow_events ?s1)"
    using assms(2,3,4) none kernel_registered [OF assms(1), of "ch_fd c"] rx_invD(3) [OF assms(1)]
    by (simp add: updateChannel_def chan_at_live epollRegister_def rx_room_def Let_def)
  have "rx_inv (grow_events ?s1)"
  proof (rule grow_events_inv)
    show "omap_wf (ep_channels ?s1)" "dom (ep_kernel ?s1) = fst ` set (ep_channels ?s1)"
      using rx_invD(1,2) [OF assms(1)] by (simp_all add: put_chan_def)
    have "\<exists>c'. rx_chans ?s1 q = Some c' \<and> ch_fd c' = fd \<and> 0 \<le> ch_index c'"
      if "(fd, q) \<in> set (ep_channels ?s1)" for fd q
    proof -
      have "(fd, q) = (ch_fd c, p) \<or> (fd, q) \<in> set (ep_channels s)"
        using that set_omap_update_subset [of "ch_fd c" p "ep_channels s"] by (auto simp: put_chan_def)
      then show ?thesis using assms(1,3) by (auto simp: put_chan_def rx_inv_def)
    qed
    then show "\<forall>(fd, q) \<in> set (ep_channels ?s1). \<exists>c. rx_chans ?s1 q = Some c \<and> ch_fd c = fd \<and> 0 \<le> ch_index c"
      by blast
    show "ep_maxEventsSize ?s1 = length (ep_channels ?s1)"
      using length_omap_update [OF rx_invD(1) [OF assms(1)], of "ch_fd c" p] none
      by (simp add: put_chan_def map_of_eq_None_iff)
  qed (use assms(1) in \<open>auto simp: rx_inv_def put_chan_def\<close>)
  with run show ?thesis
    by (intro exI [of _ "grow_events ?s1"] exI [of _ ?i]) (simp add: put_chan_def owner_def)
qed

lemma updateChannel_registered:
  assumes "rx_inv s" and "rx_chans s p = Some c" and "owner s (ch_fd c) = Some p"
  shows "\<exists>s'. updateChannel p s = Inr s' \<and> rx_inv s' \<and> ep_kernel s' = (ep_kernel s)(ch_fd c \<mapsto> ch_events c) \<and>
    ep_channels s' = ep_channels s \<and> rx_chans s' = rx_chans s"
proof -
  let ?s1 = "s\<lparr>ep_kernel := (ep_kernel s)(ch_fd c \<mapsto> ch_events c)\<rparr>"
  have own: "map_of (ep_channels s) (ch_fd c) = Some p" using assms(3) by (simp add: owner_def)
  then have "\<not> ch_index c < 0" using rx_inv_registered [OF assms(1)] assms(2) by fastforce
  then have run: "updateChannel p s = Inr (grow_events ?s1)"
    using own kernel_registered [OF assms(1), of "ch_fd c"] assms(2)
    by (auto simp: updateChannel_def chan_at_live epollUpdate_def)
  have dom: "insert (ch_fd c) (fst ` set (ep_channels s)) = fst ` set (ep_channels s)"
    using own by (force dest!: map_of_SomeD)
  have "rx_inv (grow_events ?s1)"
    by (rule grow_events_inv) (use assms(1) dom in \<open>auto simp: rx_inv_def\<close>)
  with run show ?thesis by simp
qed

lemma updateChannel_old:
  assumes "rx_inv s" and "rx_chans s p = Some c" and "owner s (ch_fd c) = Some p"
  shows "\<exists>s'. updateChannel p s = Inr s' \<and> rx_inv s' \<and> ep_kernel s' = (ep_kernel s)(ch_fd c \<mapsto> ch_events c) \<and>
    owner s' = owner s \<and> rx_chans s' = rx_chans s"
  using updateChannel_registered [OF assms] by (auto simp: owner_def)

lemma filter_omap:
  assumes "omap_wf m"
  shows "map_of (filter (\<lambda>e. fst e \<noteq> k) m) = (map_of m)(k := None)"
    and "map_of m k = Some v \<Longrightarrow> length m = Suc (length (filter (\<lambda>e. fst e \<noteq> k) m))"
proof -
  show "map_of (filter (\<lambda>e. fst e \<noteq> k) m) = (map_of m)(k := None)"
    by (induction m) auto
  show "length m = Suc (length (filter (\<lambda>e. fst e \<noteq> k) m))" if "map_of m k = Some v"
    using assms that
  proof (induction m)
    case (Cons x m)
    show ?case
    proof (cases "fst x = k")
      case True
      with Cons.prems(1) have "filter (\<lambda>e. fst e \<noteq> k) m = m" by (auto simp: filter_id_conv)
      with True show ?thesis by simp
    next
      case False
      with Cons show ?thesis by (cases x) auto
    qed
  qed simp
qed

lemma removeChannel_ok:
  assumes "rx_inv s" and "rx_chans s p = Some c" and "owner s (ch_fd c) = Some p" and "isNoneEvent c"
  shows "\<exists>s'. removeChannel p s = Inr s' \<and> rx_inv s' \<and> ep_kernel s' = (ep_kernel s)(ch_fd c := None) \<and>
    owner s' = (owner s)(ch_fd c := None) \<and> rx_chans s' = rx_chans s"
proof -
  have own: "map_of (ep_channels s) (ch_fd c) = Some p" using assms(3) by (simp add: owner_def)
  note rest = filter_omap [OF rx_invD(1) [OF assms(1)], of "ch_fd c"]
  let ?m = "filter (\<lambda>e. fst e \<noteq> ch_fd c) (ep_channels s)"
  let ?s' = "s\<lparr>ep_kernel := (ep_kernel s)(ch_fd c := None), ep_channels := ?m, ep_maxEventsSize := length ?m\<rparr>"
  have run: "removeChannel p s = Inr ?s'"
    using own assms(2,4) kernel_registered [OF assms(1), of "ch_fd c"] rest(2) [OF own] rx_invD(3) [OF assms(1)]
    by (auto simp: removeChannel_def chan_at_live epollDelete_def Let_def)
  have "fst ` set ?m = fst ` set (ep_channels s) - {ch_fd c}" by auto
  then have "rx_inv ?s'"
    using assms(1) rest(2) [OF own] by (auto simp: rx_inv_def sorted_wrt_map sorted_wrt_filter)
  with run rest(1) show ?thesis by (simp add: owner_def)
qed

interpretation epl: poller rx_inv rx_chans put_chan ep_kernel owner rx_room updateChannel removeChannel
proof unfold_locales
  show "rx_inv (put_chan p c' s)"
    if "rx_inv s" "rx_chans s p = Some c" "ch_fd c' = ch_fd c" "ch_index c' = ch_index c" for s p c c'
    using that by (rule rx_inv_put)
qed (use updateChannel_new updateChannel_old removeChannel_ok in
    \<open>auto simp: put_chan_def owner_def rx_room_def\<close>)

section \<open>Facts the event loop uses\<close>

lemma set_interest_ok:
  assumes "rx_inv s" and "rx_room s" and "rx_chans s p = Some c"
    and "ch_index c < 0 \<and> owner s (ch_fd c) = None \<or> owner s (ch_fd c) = Some p"
  shows "\<exists>s' i. set_interest f p s = Inr s' \<and> rx_inv s' \<and> ep_kernel s' = (ep_kernel s)(ch_fd c \<mapsto> f (ch_events c)) \<and>
    owner s' = (owner s)(ch_fd c \<mapsto> p) \<and>
    rx_chans s' = (rx_chans s)(p \<mapsto> c\<lparr>ch_events := f (ch_events c), ch_addedToLoop := True, ch_index := i\<rparr>)"
  using epl.change_events [OF assms, of "c\<lparr>ch_events := f (ch_events c), ch_addedToLoop := True\<rparr>"] assms(3)
  by (simp add: set_interest_def chan_at_live)

lemma set_interest_registered:
  assumes "rx_inv s" and "rx_chans s p = Some c" and "owner s (ch_fd c) = Some p"
  shows "\<exists>s'. set_interest f p s = Inr s' \<and> rx_inv s' \<and> ep_kernel s' = (ep_kernel s)(ch_fd c \<mapsto> f (ch_events c)) \<and>
    ep_channels s' = ep_channels s \<and>
    rx_chans s' = (rx_chans s)(p \<mapsto> c\<lparr>ch_events := f (ch_events c), ch_addedToLoop := True\<rparr>)"
proof -
  let ?c = "c\<lparr>ch_events := f (ch_events c), ch_addedToLoop := True\<rparr>"
  have "rx_inv (put_chan p ?c s)" by (rule rx_inv_put [OF assms(1,2)]) simp_all
  from updateChannel_registered [OF this, of p ?c] assms show ?thesis
    by (simp add: set_interest_def chan_at_live put_chan_def owner_def)
qed

lemma channel_remove_ok:
  assumes "rx_inv s" and "rx_chans s p = Some c" and "owner s (ch_fd c) = Some p" and "isNoneEvent c"
  shows "\<exists>s'. channel_remove p s = Inr s' \<and> rx_inv s' \<and> ep_kernel s' = (ep_kernel s)(ch_fd c := None) \<and>
    owner s' = (owner s)(ch_fd c := None) \<and> rx_chans s' = (rx_chans s)(p \<mapsto> c\<lparr>ch_addedToLoop := False\<rparr>)"
  using epl.rem_ok [of "put_chan p (c\<lparr>ch_addedToLoop := False\<rparr>) s" p "c\<lparr>ch_addedToLoop := False\<rparr>"]
    rx_inv_put [OF assms(1,2), of "c\<lparr>ch_addedToLoop := False\<rparr>"] assms
  by (simp add: channel_remove_def chan_at_live put_chan_def owner_def isNoneEvent_def)

text \<open>The received events after a poll.\<close>

definition with_revents :: "(int \<times> 32 word) list \<Rightarrow> reactor \<Rightarrow> nat \<rightharpoonup> channel" where
  "with_revents evs s p =
     (case rx_chans s p of None \<Rightarrow> None
      | Some c \<Rightarrow> Some (if owner s (ch_fd c) = Some p
                       then (case map_of evs (ch_fd c) of None \<Rightarrow> c | Some ev \<Rightarrow> c\<lparr>ch_revents := ev\<rparr>) else c))"

lemma fill_active_fold:
  assumes "rx_inv s" and "distinct (map fst evs)" and "\<forall>e \<in> set evs. fst e \<in> dom (ep_kernel s) \<and> snd e \<noteq> 0"
  shows "\<exists>s'. fold_res fill_active evs (act, s) = Inr (act @ map (\<lambda>e. the (owner s (fst e))) evs, s') \<and>
    rx_inv s' \<and> ep_kernel s' = ep_kernel s \<and> owner s' = owner s \<and> rx_chans s' = with_revents evs s"
  using assms
proof (induction evs arbitrary: act s)
  case Nil
  have "with_revents [] s = rx_chans s" by (auto simp: with_revents_def fun_eq_iff split: option.split)
  with Nil show ?case by simp
next
  case (Cons e evs)
  have e: "ep_kernel s (fst e) \<noteq> None" "0 < snd e" using Cons.prems(3) by (auto simp: word_neq_0_conv)
  then obtain p where p: "map_of (ep_channels s) (fst e) = Some p"
    using kernel_registered [OF Cons.prems(1), of "fst e"] by auto
  then obtain c where c: "rx_chans s p = Some c" "ch_fd c = fst e"
    using rx_inv_registered [OF Cons.prems(1)] by blast
  let ?s1 = "put_chan p (c\<lparr>ch_revents := snd e\<rparr>) s"
  have step: "fill_active e (act, s) = Inr (act @ [p], ?s1)"
    using e(2) p c by (simp add: fill_active_def chan_at_live)
  have inv1: "rx_inv ?s1" by (rule rx_inv_put [OF Cons.prems(1) c(1)]) simp_all
  have same: "owner ?s1 = owner s" "ep_kernel ?s1 = ep_kernel s" by (simp_all add: put_chan_def owner_def)
  obtain s' where s': "fold_res fill_active evs (act @ [p], ?s1) =
        Inr ((act @ [p]) @ map (\<lambda>e. the (owner ?s1 (fst e))) evs, s')" "rx_inv s'"
      "ep_kernel s' = ep_kernel ?s1" "owner s' = owner ?s1" "rx_chans s' = with_revents evs ?s1"
    using Cons.IH [OF inv1, of "act @ [p]"] Cons.prems(2,3) same(2) by auto
  have p': "owner s (fst e) = Some p" using p by (simp add: owner_def)
  have fresh: "map_of evs (fst e) = None" using Cons.prems(2) by (simp add: map_of_eq_None_iff)
  have "with_revents evs ?s1 q = with_revents (e # evs) s q" for q
    using c p' fresh by (cases e) (auto simp: with_revents_def put_chan_def owner_def split: option.split)
  then have "with_revents evs ?s1 = with_revents (e # evs) s" by blast
  with step s' same p' show ?case by simp
qed

lemma poll_ok:
  assumes "rx_inv s" and "epoll_wait_ok w" and "length (ep_channels s) \<le> kMaxEpollConcurrencySize"
    and "w (ep_kernel s) (ep_maxEventsSize s) = Some evs"
  shows "\<exists>s'. poll w s = Inr (map (\<lambda>e. the (owner s (fst e))) (take kInitEpollEventsSize evs), s') \<and> rx_inv s' \<and>
    ep_kernel s' = ep_kernel s \<and> owner s' = owner s \<and> rx_chans s' = with_revents (take kInitEpollEventsSize evs) s"
proof -
  let ?evs = "take kInitEpollEventsSize evs"
  have ok: "length evs \<le> ep_maxEventsSize s" "distinct (map fst evs)"
      "\<forall>e \<in> set evs. fst e \<in> dom (ep_kernel s) \<and> snd e \<noteq> 0"
    using assms(2,4) by (auto simp: epoll_wait_ok_def)
  have "ep_maxEventsSize s \<le> ep_capacity s" using assms(1,3) by (auto simp: rx_inv_def)
  then have "\<not> ep_capacity s < length evs" using ok(1) by simp
  moreover have "ep_size s = kInitEpollEventsSize" using assms(1) by (simp add: rx_inv_def)
  moreover have "distinct (map fst ?evs)" using ok(2) by (simp add: take_map [symmetric])
  moreover have "\<forall>e \<in> set ?evs. fst e \<in> dom (ep_kernel s) \<and> snd e \<noteq> 0" using ok(3) by (blast dest: in_set_takeD)
  ultimately show ?thesis
    using fill_active_fold [OF assms(1), of ?evs "[]"] assms(4)
    by (simp add: poll_def kInitEpollEventsSize_def)
qed

lemma handleEvent_cases:
  "handleEvent (c\<lparr>ch_revents := EVENTHUP\<rparr>) = call_if True (ch_closeCallBack c)"
  "handleEvent (c\<lparr>ch_revents := EVENTIN\<rparr>) = call_if True (ch_readCallBack c)"
  "handleEvent (c\<lparr>ch_revents := EVENTOUT\<rparr>) = call_if True (ch_writeCallBack c)"
  "handleEvent (c\<lparr>ch_revents := EVENTIN OR EVENTHUP\<rparr>) = call_if True (ch_readCallBack c)"
  by (simp_all add: handleEvent_def event_defs call_if_def)

section \<open>Properties\<close>

text \<open>Sample data for the witnesses: channel 1 of descriptor 7 is new, channel 2 of descriptor 5 is registered.\<close>

abbreviation sample_reactor :: reactor where
  "sample_reactor \<equiv> Epoll_ctor\<lparr>rx_chans := [1 \<mapsto> Channel_ctor 7, 2 \<mapsto> (Channel_ctor 5)\<lparr>ch_events := 3, ch_index := 1\<rparr>],
     ep_channels := [(5, 2)], ep_maxEventsSize := 1, ep_kernel := [5 \<mapsto> 3]\<rparr>"

lemma sample_reactor_inv: "rx_inv sample_reactor" "rx_room sample_reactor"
  by (auto simp: rx_inv_def rx_room_def Epoll_ctor_def Channel_ctor_def kInitEpollEventsSize_def
      kMaxEpollConcurrencySize_def)

text \<open>C25: the interest operations of a channel reach the kernel. For a channel that is new or registered, each
  of the five operations succeeds, keeps the poller consistent, and leaves the kernel watching the
  channel's descriptor for exactly the channel's new events, and every other descriptor as before.\<close>

theorem interest_reaches_kernel:
  assumes "rx_inv s" and "rx_room s" and "rx_chans s p = Some c"
    and "ch_index c < 0 \<and> owner s (ch_fd c) = None \<or> owner s (ch_fd c) = Some p"
    and "(operation, f) \<in> {(enableReading, \<lambda>ev. ev OR kReadEvent), (disableReading, \<lambda>ev. ev AND NOT kReadEvent),
      (enableWriting, \<lambda>ev. ev OR kWriteEvent), (disableWriting, \<lambda>ev. ev AND NOT kWriteEvent),
      (disableAll, \<lambda>ev. 0)}"
  shows "\<exists>s' i. operation p s = Inr s' \<and> rx_inv s' \<and> ep_kernel s' = (ep_kernel s)(ch_fd c \<mapsto> f (ch_events c)) \<and>
    owner s' = (owner s)(ch_fd c \<mapsto> p) \<and>
    rx_chans s' = (rx_chans s)(p \<mapsto> c\<lparr>ch_events := f (ch_events c), ch_addedToLoop := True, ch_index := i\<rparr>)"
proof -
  have "operation = set_interest f"
    using assms(5) by (auto simp: enableReading_def disableReading_def enableWriting_def disableWriting_def
        disableAll_def kNoneEvent_def)
  with set_interest_ok [OF assms(1-4), of f] show ?thesis by simp
qed

theorem interest_reaches_kernel_witness:
  "\<exists>s' i. enableReading 1 sample_reactor = Inr s' \<and> rx_inv s' \<and> ep_kernel s' = [5 \<mapsto> 3, 7 \<mapsto> 3]"
  using interest_reaches_kernel [OF sample_reactor_inv, of 1 "Channel_ctor 7" enableReading "\<lambda>ev. ev OR kReadEvent"]
  by (auto simp: Epoll_ctor_def Channel_ctor_def owner_def event_defs)

text \<open>Registering a new channel and later disabling and removing it leaves no trace: the interest list of
  the kernel and the map of the poller are as before, and no assertion fails on the way.\<close>

theorem register_remove_no_trace:
  assumes "rx_inv s" and "rx_room s" and "rx_chans s p = Some c" and "ch_index c < 0" and "owner s (ch_fd c) = None"
  shows "\<exists>s1 s2 s3. enableReading p s = Inr s1 \<and> disableAll p s1 = Inr s2 \<and> channel_remove p s2 = Inr s3 \<and>
    rx_inv s3 \<and> ep_kernel s3 = ep_kernel s \<and> owner s3 = owner s"
proof -
  let ?c1 = "c\<lparr>ch_events := ch_events c OR kReadEvent, ch_addedToLoop := True\<rparr>"
  obtain s1 i where s1: "set_interest (\<lambda>ev. ev OR kReadEvent) p s = Inr s1" "rx_inv s1"
      "ep_kernel s1 = (ep_kernel s)(ch_fd c \<mapsto> ch_events c OR kReadEvent)" "owner s1 = (owner s)(ch_fd c \<mapsto> p)"
      "rx_chans s1 = (rx_chans s)(p \<mapsto> ?c1\<lparr>ch_index := i\<rparr>)"
    using set_interest_ok [OF assms(1-3), of "\<lambda>ev. ev OR kReadEvent"] assms(4,5) by auto
  let ?c2 = "?c1\<lparr>ch_index := i, ch_events := kNoneEvent, ch_addedToLoop := True\<rparr>"
  have "rx_inv (put_chan p ?c2 s1)"
    by (rule rx_inv_put [OF s1(2), of p "?c1\<lparr>ch_index := i\<rparr>"]) (simp_all add: s1(5))
  then have "\<exists>s2. set_interest (\<lambda>ev. kNoneEvent) p s1 = Inr s2 \<and> rx_inv s2 \<and>
      ep_kernel s2 = (ep_kernel s1)(ch_fd c \<mapsto> kNoneEvent) \<and> owner s2 = owner s1 \<and> rx_chans s2 = (rx_chans s1)(p \<mapsto> ?c2)"
    using updateChannel_old [of "put_chan p ?c2 s1" p ?c2] s1(4,5)
    by (simp add: set_interest_def chan_at_live put_chan_def owner_def)
  then obtain s2 where s2: "set_interest (\<lambda>ev. kNoneEvent) p s1 = Inr s2" "rx_inv s2"
      "ep_kernel s2 = (ep_kernel s1)(ch_fd c \<mapsto> kNoneEvent)" "owner s2 = owner s1" "rx_chans s2 = (rx_chans s1)(p \<mapsto> ?c2)"
    by blast
  have "rx_chans s2 p = Some ?c2" "owner s2 (ch_fd ?c2) = Some p" "isNoneEvent ?c2"
    using s1(4) s2(4,5) by (simp_all add: isNoneEvent_def)
  from channel_remove_ok [OF s2(2) this] obtain s3 where s3: "channel_remove p s2 = Inr s3" "rx_inv s3"
      "ep_kernel s3 = (ep_kernel s2)(ch_fd c := None)" "owner s3 = (owner s2)(ch_fd c := None)"
    by auto
  have "ep_kernel s (ch_fd c) = None" using kernel_registered [OF assms(1)] assms(5) by (simp add: owner_def)
  then have "ep_kernel s3 = ep_kernel s" "owner s3 = owner s" using s1 s2 s3 assms(5) by auto
  with s1(1) s2(1) s3 show ?thesis by (simp add: enableReading_def disableAll_def)
qed

theorem register_remove_no_trace_witness:
  "\<exists>s1 s2 s3. enableReading 1 sample_reactor = Inr s1 \<and> disableAll 1 s1 = Inr s2 \<and> channel_remove 1 s2 = Inr s3 \<and>
    rx_inv s3 \<and> ep_kernel s3 = [5 \<mapsto> 3] \<and> owner s3 = [5 \<mapsto> 2]"
  using register_remove_no_trace [OF sample_reactor_inv, of 1 "Channel_ctor 7"]
  by (simp add: Epoll_ctor_def Channel_ctor_def owner_def)

text \<open>C26: with at most 10000 channels, \<open>poll\<close> never writes past the event array and no assertion fails: it
  returns the channels of the first 1024 ready descriptors, in the kernel's order, each with the events
  the kernel reported, and changes nothing else.\<close>

theorem poll_reports_ready:
  assumes "rx_inv s" and "epoll_wait_ok w" and "length (ep_channels s) \<le> 10000"
    and "w (ep_kernel s) (ep_maxEventsSize s) = Some evs"
  shows "\<exists>s'. poll w s = Inr (map (\<lambda>e. the (owner s (fst e))) (take 1024 evs), s') \<and> rx_inv s' \<and>
    ep_kernel s' = ep_kernel s \<and> owner s' = owner s \<and> rx_chans s' = with_revents (take 1024 evs) s"
  using poll_ok [OF assms(1,2) _ assms(4)] assms(3)
  by (simp add: kMaxEpollConcurrencySize_def kInitEpollEventsSize_def)

definition sample_wait :: "(int \<rightharpoonup> 32 word) \<Rightarrow> nat \<Rightarrow> (int \<times> 32 word) list option" where
  "sample_wait k n = (if k 5 = None \<or> n = 0 then None else Some [(5, 1)])"

theorem poll_reports_ready_witness:
  "\<exists>s'. poll sample_wait sample_reactor = Inr ([2], s') \<and> rx_inv s' \<and>
    rx_chans s' 2 = Some ((Channel_ctor 5)\<lparr>ch_events := 3, ch_index := 1, ch_revents := 1\<rparr>)"
proof -
  have "epoll_wait_ok sample_wait" by (auto simp: epoll_wait_ok_def sample_wait_def)
  from poll_reports_ready [OF sample_reactor_inv(1) this, of "[(5, 1)]"] show ?thesis
    by (auto simp: Epoll_ctor_def Channel_ctor_def owner_def sample_wait_def with_revents_def)
qed

text \<open>Beyond 10000 channels the event array is too small. In every consistent state with more channels, a
  kernel that reports all of them makes \<open>epoll_wait\<close> write past the end of the array.\<close>

theorem poll_overflow:
  assumes "rx_inv s" and "10000 < length (ep_channels s)"
  shows "\<exists>w. epoll_wait_ok w \<and> poll w s = Inl OutOfRange"
proof -
  let ?evs = "map (\<lambda>e. (fst e, 1 :: 32 word)) (ep_channels s)"
  let ?w = "\<lambda>k n. if k = ep_kernel s \<and> n = ep_maxEventsSize s then Some ?evs else None"
  have "distinct (map fst ?evs)"
    using oset_wf_distinct [OF rx_invD(1) [OF assms(1)]] by (simp add: comp_def)
  then have "epoll_wait_ok ?w"
    using rx_invD(2,3) [OF assms(1)] by (auto simp: epoll_wait_ok_def)
  moreover have "poll ?w s = Inl OutOfRange"
    using assms by (auto simp: poll_def rx_inv_def kInitEpollEventsSize_def kMaxEpollConcurrencySize_def)
  ultimately show ?thesis by blast
qed

abbreviation crowded_reactor :: reactor where
  "crowded_reactor \<equiv> \<lparr>rx_chans = (\<lambda>p. Some ((Channel_ctor (int p))\<lparr>ch_index := 1\<rparr>)),
     ep_channels = map (\<lambda>i. (int i, i)) [0..<10001], ep_maxEventsSize = 10001, ep_size = 1024, ep_capacity = 10000,
     ep_kernel = (\<lambda>fd. if fd \<in> int ` {0..<10001} then Some 1 else None)\<rparr>"

theorem poll_overflow_witness: "\<exists>w. epoll_wait_ok w \<and> poll w crowded_reactor = Inl OutOfRange"
proof (rule poll_overflow)
  have "sorted_wrt (<) [0..<10001 :: nat]" by (rule sorted_wrt_upt)
  then have "sorted_wrt (<) (map int [0..<10001])" by (simp only: sorted_wrt_map of_nat_less_iff)
  then have "sorted_wrt (<) (map fst (ep_channels crowded_reactor))"
    by (simp only: map_map comp_def fst_conv reactor.simps)
  then show "rx_inv crowded_reactor"
    unfolding rx_inv_def
    by (auto simp: kInitEpollEventsSize_def kMaxEpollConcurrencySize_def Channel_ctor_def image_image
        simp del: map_map upt_rec_numeral split: if_splits)
qed simp

end
