(* ===== verification/TA_TcpConnection.thy ===== *)
theory TA_TcpConnection
  imports TA_Buffer TA_Reactor
begin

text \<open>
  The TCP connection (\<open>src/Tcp/TcpConnection.h\<close>, \<open>TcpConnection.cpp\<close>). A connection owns a channel of the
  reactor and two buffers; its operations run in the thread of its loop, so the state the definitions
  transform is the connection together with the reactor. Ghost fields record what the kernel accepted for
  the peer, whether the write side was shut down, and the messages and closes the callbacks were told.

  Parameters: \<open>sys_write\<close> is \<open>write(2)\<close> on the socket (an errno, or the number of bytes accepted),
  \<open>sys_readv\<close> is \<open>readv(2)\<close> as in the buffer, \<open>on_message\<close> and \<open>on_close\<close> are the user's callbacks.
\<close>

section \<open>State\<close>

datatype conn_state = kDisConnected | kConnecting | kDisConnecting | kConnected

record tcp_conn =
  cn_name :: string
  cn_state :: conn_state
  cn_channel :: nat
  cn_inputBuffer :: buffer
  cn_outputBuffer :: buffer

record tcp_io =
  io_rx :: reactor
  io_conn :: tcp_conn
  io_wire :: string
  io_shutdown :: bool
  io_closes :: nat

definition EWOULDBLOCK :: nat where "EWOULDBLOCK = 11"
definition EPIPE :: nat where "EPIPE = 32"
definition ECONNRESET :: nat where "ECONNRESET = 104"

definition stateToString :: "conn_state \<Rightarrow> string" where
  "stateToString st = (case st of kDisConnected \<Rightarrow> ''kDisConnected'' | kConnecting \<Rightarrow> ''kConnecting''
     | kConnected \<Rightarrow> ''kConnected'' | kDisConnecting \<Rightarrow> ''kDisConnecting'')"

definition setState :: "conn_state \<Rightarrow> tcp_io \<Rightarrow> tcp_io" where
  "setState st io = io\<lparr>io_conn := (io_conn io)\<lparr>cn_state := st\<rparr>\<rparr>"

definition set_output :: "buffer \<Rightarrow> tcp_io \<Rightarrow> tcp_io" where
  "set_output b io = io\<lparr>io_conn := (io_conn io)\<lparr>cn_outputBuffer := b\<rparr>\<rparr>"

definition set_input :: "buffer \<Rightarrow> tcp_io \<Rightarrow> tcp_io" where
  "set_input b io = io\<lparr>io_conn := (io_conn io)\<lparr>cn_inputBuffer := b\<rparr>\<rparr>"

text \<open>The constructor sets a read and a close callback on the channel, and no write or error callback. The
  numbers of the callbacks name \<open>handleRead\<close> and \<open>handleClose\<close>.\<close>

definition cb_handleRead :: nat where "cb_handleRead = 1"
definition cb_handleClose :: nat where "cb_handleClose = 2"

definition TcpConnection_ctor :: "string \<Rightarrow> int \<Rightarrow> nat \<Rightarrow> buffer \<Rightarrow> reactor \<Rightarrow> tcp_io" where
  "TcpConnection_ctor nm sockfd p buf0 s =
     \<lparr>io_rx = put_chan p ((Channel_ctor sockfd)\<lparr>ch_readCallBack := Some cb_handleRead,
        ch_closeCallBack := Some cb_handleClose\<rparr>) s,
      io_conn = \<lparr>cn_name = nm, cn_state = kConnecting, cn_channel = p, cn_inputBuffer = buf0, cn_outputBuffer = buf0\<rparr>,
      io_wire = [], io_shutdown = False, io_closes = 0\<rparr>"

text \<open>An operation of the channel, and \<open>p_channel->isWriting()\<close>.\<close>

definition on_channel :: "(nat \<Rightarrow> reactor \<Rightarrow> reactor res) \<Rightarrow> tcp_io \<Rightarrow> tcp_io res" where
  "on_channel f io = bind_res (f (cn_channel (io_conn io)) (io_rx io)) (\<lambda>s. Inr (io\<lparr>io_rx := s\<rparr>))"

definition channel_isWriting :: "tcp_io \<Rightarrow> (bool \<times> tcp_io) res" where
  "channel_isWriting io =
     bind_res (chan_at (cn_channel (io_conn io)) (io_rx io)) (\<lambda>c.
       let (w, c') = isWriting c
       in Inr (w, io\<lparr>io_rx := put_chan (cn_channel (io_conn io)) c' (io_rx io)\<rparr>))"

section \<open>Operations\<close>

definition connectEstablished :: "(tcp_io \<Rightarrow> tcp_io res) \<Rightarrow> tcp_io \<Rightarrow> tcp_io res" where
  "connectEstablished on_connection io =
     cassert (cn_state (io_conn io) = kConnecting) ''m_state == kConnecting''
       (bind_res (on_channel enableReading (setState kConnected io)) on_connection)"

text \<open>The direct write of \<open>sendInLoop\<close>: the bytes accepted, whether the error is fatal, the state.\<close>

definition try_write :: "(string \<Rightarrow> nat + nat) \<Rightarrow> string \<Rightarrow> tcp_io \<Rightarrow> nat \<times> bool \<times> tcp_io" where
  "try_write sys_write data io =
     (case sys_write data of
        Inr n \<Rightarrow> (n, False, io\<lparr>io_wire := io_wire io @ take n data\<rparr>)
      | Inl err \<Rightarrow> (0, err \<noteq> EWOULDBLOCK \<and> (err = EPIPE \<or> err = ECONNRESET), io))"

text \<open>The second half of \<open>sendInLoop\<close>: what was not accepted goes to the output buffer.\<close>

definition queue_output :: "string \<Rightarrow> tcp_io \<Rightarrow> tcp_io res" where
  "queue_output bs io =
     bind_res (append bs (cn_outputBuffer (io_conn io))) (\<lambda>b.
     bind_res (channel_isWriting (set_output b io)) (\<lambda>(w, io1).
       if \<not> w then on_channel enableWriting io1 else Inr io1))"

definition sendInLoop :: "(string \<Rightarrow> nat + nat) \<Rightarrow> string \<Rightarrow> tcp_io \<Rightarrow> tcp_io res" where
  "sendInLoop sys_write data io =
     (if cn_state (io_conn io) = kDisConnected then Inr io
      else bind_res (channel_isWriting io) (\<lambda>(w, io1).
        let (nwrote, faultError, io2) =
              (if \<not> w \<and> readableBytes (cn_outputBuffer (io_conn io1)) = 0
               then try_write sys_write data io1 else (0, False, io1));
            len = length data;
            remaining = sub64 len nwrote
        in cassert (remaining \<le> len) ''remaining <= len''
          (if \<not> faultError \<and> 0 < remaining then queue_output (drop nwrote data) io2 else Inr io2)))"

text \<open>\<open>send\<close> in the loop's thread; with a \<open>Buffer\<close> it also empties the buffer.\<close>

definition send :: "(string \<Rightarrow> nat + nat) \<Rightarrow> string \<Rightarrow> tcp_io \<Rightarrow> tcp_io res" where
  "send sys_write message io =
     (if cn_state (io_conn io) = kConnected then sendInLoop sys_write message io else Inr io)"

definition send_buffer :: "(string \<Rightarrow> nat + nat) \<Rightarrow> buffer \<Rightarrow> tcp_io \<Rightarrow> (buffer \<times> tcp_io) res" where
  "send_buffer sys_write message io =
     (if cn_state (io_conn io) = kConnected
      then bind_res (sendInLoop sys_write (contents message) io) (\<lambda>io'. Inr (retrieveAll message, io'))
      else Inr (message, io))"

definition shutdownInLoop :: "tcp_io \<Rightarrow> tcp_io res" where
  "shutdownInLoop io =
     bind_res (channel_isWriting io) (\<lambda>(w, io1). Inr (if \<not> w then io1\<lparr>io_shutdown := True\<rparr> else io1))"

definition shutdown :: "tcp_io \<Rightarrow> tcp_io res" where
  "shutdown io =
     (if cn_state (io_conn io) = kConnected then shutdownInLoop (setState kDisConnecting io) else Inr io)"

definition handleClose :: "(tcp_io \<Rightarrow> tcp_io res) \<Rightarrow> tcp_io \<Rightarrow> tcp_io res" where
  "handleClose on_close io =
     cassert (cn_state (io_conn io) = kConnected \<or> cn_state (io_conn io) = kDisConnecting)
       ''m_state == kConnected || m_state == kDisConnecting''
       (bind_res (on_channel disableAll (setState kDisConnected io)) (\<lambda>io1.
          on_close (io1\<lparr>io_closes := Suc (io_closes io1)\<rparr>)))"

definition tcp_handleRead :: "(nat list \<Rightarrow> nat + string) \<Rightarrow> (tcp_io \<Rightarrow> tcp_io res) \<Rightarrow> (tcp_io \<Rightarrow> tcp_io res) \<Rightarrow>
    tcp_io \<Rightarrow> tcp_io res" where
  "tcp_handleRead sys_readv on_message on_close io =
     bind_res (readFd sys_readv (cn_inputBuffer (io_conn io))) (\<lambda>(n, err, b).
       let io1 = set_input b io
       in if 0 < n then on_message io1 else if n = 0 then handleClose on_close io1 else Inr io1)"

definition handleWrite :: "(string \<Rightarrow> nat + nat) \<Rightarrow> tcp_io \<Rightarrow> tcp_io res" where
  "handleWrite sys_write io =
     bind_res (channel_isWriting io) (\<lambda>(w, io1).
       let out = cn_outputBuffer (io_conn io1)
       in if w
          then (case sys_write (contents out) of
                  Inl err \<Rightarrow> Inr io1
                | Inr n \<Rightarrow>
                    if 0 < n
                    then bind_res (retrieve n out) (\<lambda>b.
                           let io2 = (set_output b io1)\<lparr>io_wire := io_wire io1 @ take n (contents out)\<rparr>
                           in if readableBytes b = 0 then on_channel disableWriting io2 else Inr io2)
                    else Inr io1)
          else Inr io1)"

definition connectDestroyed :: "tcp_io \<Rightarrow> tcp_io res" where
  "connectDestroyed io =
     bind_res (if cn_state (io_conn io) = kConnected
               then on_channel disableAll (setState kDisConnected io) else Inr io)
       (on_channel channel_remove)"

text \<open>\<open>forceClose\<close> queues \<open>forceCloseInLoop\<close> (the boolean says whether it does).\<close>

definition forceClose :: "tcp_io \<Rightarrow> bool \<times> tcp_io" where
  "forceClose io =
     (if cn_state (io_conn io) = kConnected \<or> cn_state (io_conn io) = kDisConnecting
      then (True, setState kDisConnecting io) else (False, io))"

definition forceCloseInLoop :: "(tcp_io \<Rightarrow> tcp_io res) \<Rightarrow> tcp_io \<Rightarrow> tcp_io res" where
  "forceCloseInLoop on_close io =
     (if cn_state (io_conn io) = kConnected \<or> cn_state (io_conn io) = kDisConnecting
      then handleClose on_close io else Inr io)"

text \<open>The destructor's assertion.\<close>

definition TcpConnection_dtor :: "tcp_io \<Rightarrow> unit res" where
  "TcpConnection_dtor io = cassert (cn_state (io_conn io) = kDisConnected) ''m_state == kDisConnected'' (Inr ())"

text \<open>What \<open>write(2)\<close> promises: it accepts no more bytes than it is given.\<close>

definition write_ok :: "(string \<Rightarrow> nat + nat) \<Rightarrow> bool" where
  "write_ok w \<longleftrightarrow> (\<forall>s. case w s of Inl _ \<Rightarrow> True | Inr n \<Rightarrow> n \<le> length s)"

definition fatal_write :: "(string \<Rightarrow> nat + nat) \<Rightarrow> bool" where
  "fatal_write w \<longleftrightarrow> (\<exists>s. w s = Inl EPIPE \<or> w s = Inl ECONNRESET)"

section \<open>Invariant\<close>

text \<open>The reactor and both buffers are consistent, and the channel of the connection is live and registered.\<close>

definition io_inv :: "tcp_io \<Rightarrow> bool" where
  "io_inv io \<longleftrightarrow>
     rx_inv (io_rx io) \<and> rx_room (io_rx io) \<and> buf_wf (cn_inputBuffer (io_conn io)) \<and>
     buf_wf (cn_outputBuffer (io_conn io)) \<and>
     (\<exists>c. rx_chans (io_rx io) (cn_channel (io_conn io)) = Some c \<and>
          owner (io_rx io) (ch_fd c) = Some (cn_channel (io_conn io)) \<and>
          ch_writeCallBack c = None)"

definition conn_chan :: "tcp_io \<Rightarrow> channel" where
  "conn_chan io = the (rx_chans (io_rx io) (cn_channel (io_conn io)))"

section \<open>Lemmas\<close>

lemma io_invE:
  assumes "io_inv io"
  obtains c where "rx_chans (io_rx io) (cn_channel (io_conn io)) = Some c" "conn_chan io = c"
    "owner (io_rx io) (ch_fd c) = Some (cn_channel (io_conn io))" "ch_writeCallBack c = None"
  using assms by (auto simp: io_inv_def conn_chan_def)

lemma isWriting_channel:
  "isWriting c = (ch_events c AND kWriteEvent \<noteq> 0, c\<lparr>ch_events := ch_events c AND kWriteEvent\<rparr>)"
  by (simp add: isWriting_def Let_def)

text \<open>Asking whether a connection is writing clears its interest in reading.\<close>

lemma channel_isWriting_ok:
  assumes "io_inv io"
  shows "\<exists>io'. channel_isWriting io = Inr (ch_events (conn_chan io) AND kWriteEvent \<noteq> 0, io') \<and> io_inv io' \<and>
    io_conn io' = io_conn io \<and> io_wire io' = io_wire io \<and> io_shutdown io' = io_shutdown io \<and>
    io_closes io' = io_closes io \<and> ep_kernel (io_rx io') = ep_kernel (io_rx io) \<and>
    conn_chan io' = (conn_chan io)\<lparr>ch_events := ch_events (conn_chan io) AND kWriteEvent\<rparr>"
proof -
  obtain c where c: "rx_chans (io_rx io) (cn_channel (io_conn io)) = Some c" "conn_chan io = c"
    "owner (io_rx io) (ch_fd c) = Some (cn_channel (io_conn io))" "ch_writeCallBack c = None"
    using assms by (rule io_invE)
  let ?c = "c\<lparr>ch_events := ch_events c AND kWriteEvent\<rparr>"
  let ?io = "io\<lparr>io_rx := put_chan (cn_channel (io_conn io)) ?c (io_rx io)\<rparr>"
  have "rx_inv (io_rx ?io)"
    using rx_inv_put [of "io_rx io" _ c ?c] assms c(1) by (simp add: io_inv_def)
  then have "io_inv ?io"
    using assms c by (simp add: io_inv_def put_chan_def owner_def rx_room_def)
  moreover have "channel_isWriting io = Inr (ch_events c AND kWriteEvent \<noteq> 0, ?io)"
    using c by (simp add: channel_isWriting_def chan_at_live isWriting_channel)
  moreover have "conn_chan ?io = ?c" "ep_kernel (io_rx ?io) = ep_kernel (io_rx io)"
    by (simp_all add: conn_chan_def put_chan_def)
  ultimately show ?thesis using c(2) by auto
qed

lemma on_channel_interest:
  assumes "io_inv io"
  shows "\<exists>io'. on_channel (set_interest f) io = Inr io' \<and> io_inv io' \<and>
    io_conn io' = io_conn io \<and> io_wire io' = io_wire io \<and> io_shutdown io' = io_shutdown io \<and> io_closes io' = io_closes io \<and>
    ep_kernel (io_rx io') = (ep_kernel (io_rx io))(ch_fd (conn_chan io) \<mapsto> f (ch_events (conn_chan io))) \<and>
    conn_chan io' = (conn_chan io)\<lparr>ch_events := f (ch_events (conn_chan io)), ch_addedToLoop := True\<rparr>"
proof -
  obtain c where c: "rx_chans (io_rx io) (cn_channel (io_conn io)) = Some c" "conn_chan io = c"
    "owner (io_rx io) (ch_fd c) = Some (cn_channel (io_conn io))" "ch_writeCallBack c = None"
    using assms by (rule io_invE)
  let ?c = "c\<lparr>ch_events := f (ch_events c), ch_addedToLoop := True\<rparr>"
  obtain s' where s': "set_interest f (cn_channel (io_conn io)) (io_rx io) = Inr s'" "rx_inv s'"
      "ep_kernel s' = (ep_kernel (io_rx io))(ch_fd c \<mapsto> f (ch_events c))"
      "ep_channels s' = ep_channels (io_rx io)" "rx_chans s' = (rx_chans (io_rx io))(cn_channel (io_conn io) \<mapsto> ?c)"
    using set_interest_registered [OF _ c(1,3), of f] assms by (auto simp: io_inv_def)
  have "io_inv (io\<lparr>io_rx := s'\<rparr>)"
    using assms c s' by (simp add: io_inv_def owner_def rx_room_def)
  with s' c(2) show ?thesis by (simp add: on_channel_def conn_chan_def)
qed

lemma io_inv_output: "io_inv io \<Longrightarrow> buf_wf b \<Longrightarrow> io_inv (set_output b io)"
  by (simp add: io_inv_def set_output_def)

lemma io_inv_setState [simp]: "io_inv (setState st io) = io_inv io"
  by (simp add: io_inv_def setState_def)

lemma set_output_simps [simp]:
  "conn_chan (set_output b io) = conn_chan io" "io_wire (set_output b io) = io_wire io"
  "io_rx (set_output b io) = io_rx io" "cn_outputBuffer (io_conn (set_output b io)) = b"
  "cn_state (io_conn (set_output b io)) = cn_state (io_conn io)"
  "io_shutdown (set_output b io) = io_shutdown io" "io_closes (set_output b io) = io_closes io"
  by (simp_all add: set_output_def conn_chan_def)

lemma setState_simps [simp]:
  "conn_chan (setState st io) = conn_chan io" "io_wire (setState st io) = io_wire io" "io_rx (setState st io) = io_rx io"
  "cn_state (io_conn (setState st io)) = st" "cn_outputBuffer (io_conn (setState st io)) = cn_outputBuffer (io_conn io)"
  "cn_channel (io_conn (setState st io)) = cn_channel (io_conn io)" "io_closes (setState st io) = io_closes io"
  by (simp_all add: setState_def conn_chan_def)

definition out_bytes :: "tcp_io \<Rightarrow> string" where
  "out_bytes io = contents (cn_outputBuffer (io_conn io))"

definition out_room :: "nat \<Rightarrow> tcp_io \<Rightarrow> bool" where
  "out_room n io = buf_room n (cn_outputBuffer (io_conn io))"

text \<open>What every send keeps of a connection.\<close>

definition same_conn :: "tcp_io \<Rightarrow> tcp_io \<Rightarrow> bool" where
  "same_conn io io' \<longleftrightarrow> cn_state (io_conn io') = cn_state (io_conn io) \<and> cn_channel (io_conn io') = cn_channel (io_conn io) \<and>
     cn_inputBuffer (io_conn io') = cn_inputBuffer (io_conn io) \<and> io_shutdown io' = io_shutdown io \<and>
     io_closes io' = io_closes io \<and> ch_fd (conn_chan io') = ch_fd (conn_chan io)"

lemma queue_output_ok:
  assumes "io_inv io" and "out_room (length bs + n) io"
  shows "\<exists>io'. queue_output bs io = Inr io' \<and> io_inv io' \<and> out_bytes io' = out_bytes io @ bs \<and> io_wire io' = io_wire io \<and>
    out_room n io' \<and> same_conn io io' \<and>
    (ch_events (conn_chan io) AND kWriteEvent = 0 \<longrightarrow> ep_kernel (io_rx io') (ch_fd (conn_chan io)) = Some kWriteEvent \<and>
       ch_events (conn_chan io') = kWriteEvent)"
proof -
  let ?out = "cn_outputBuffer (io_conn io)"
  have wf: "buf_wf ?out" using assms(1) by (simp add: io_inv_def)
  have "buf_room (length bs) ?out" using assms(2) by (simp add: out_room_def buf_room_def)
  with append_aux [OF wf] obtain b where b: "append bs ?out = Inr b" "buf_wf b" "contents b = contents ?out @ bs"
    by blast
  have room: "buf_room n b" by (rule append_room [OF wf _ b(1)]) (use assms(2) in \<open>simp add: out_room_def\<close>)
  let ?io = "set_output b io" and ?w = "ch_events (conn_chan io) AND kWriteEvent"
  obtain io1 where io1: "channel_isWriting ?io = Inr (?w \<noteq> 0, io1)" "io_inv io1" "io_conn io1 = io_conn ?io"
      "io_wire io1 = io_wire io" "io_shutdown io1 = io_shutdown io" "io_closes io1 = io_closes io"
      "conn_chan io1 = (conn_chan io)\<lparr>ch_events := ?w\<rparr>"
    using channel_isWriting_ok [OF io_inv_output [OF assms(1) b(2)]] by auto
  have conn: "cn_outputBuffer (io_conn io1) = b" "same_conn io io1"
    using io1 by (simp_all add: same_conn_def set_output_def)
  show ?thesis
  proof (cases "?w = 0")
    case False
    then have "queue_output bs io = Inr io1" using b(1) io1(1) by (simp add: queue_output_def)
    with False io1 b conn room show ?thesis by (simp add: out_bytes_def out_room_def)
  next
    case True
    obtain io2 where io2: "on_channel enableWriting io1 = Inr io2" "io_inv io2" "io_conn io2 = io_conn io1"
        "io_wire io2 = io_wire io1" "io_shutdown io2 = io_shutdown io1" "io_closes io2 = io_closes io1"
        "ep_kernel (io_rx io2) = (ep_kernel (io_rx io1))(ch_fd (conn_chan io1) \<mapsto> ch_events (conn_chan io1) OR kWriteEvent)"
        "conn_chan io2 = (conn_chan io1)\<lparr>ch_events := ch_events (conn_chan io1) OR kWriteEvent, ch_addedToLoop := True\<rparr>"
      using on_channel_interest [OF io1(2), of "\<lambda>ev. ev OR kWriteEvent"] by (auto simp: enableWriting_def)
    have "queue_output bs io = Inr io2" using b(1) io1(1) True io2(1) by (simp add: queue_output_def)
    with True io1 io2 b conn room show ?thesis by (simp add: out_bytes_def out_room_def same_conn_def)
  qed
qed

lemma sendInLoop_ok:
  assumes "io_inv io" and "cn_state (io_conn io) \<noteq> kDisConnected" and "write_ok w" and "\<not> fatal_write w"
    and "length data < 2 ^ 64" and "out_room (length data + n) io"
  shows "\<exists>io'. sendInLoop w data io = Inr io' \<and> io_inv io' \<and>
    io_wire io' @ out_bytes io' = io_wire io @ out_bytes io @ data \<and> out_room n io' \<and> same_conn io io'"
proof -
  let ?w = "ch_events (conn_chan io) AND kWriteEvent"
  obtain io1 where io1: "channel_isWriting io = Inr (?w \<noteq> 0, io1)" "io_inv io1" "io_conn io1 = io_conn io"
      "io_wire io1 = io_wire io" "io_shutdown io1 = io_shutdown io" "io_closes io1 = io_closes io"
      "conn_chan io1 = (conn_chan io)\<lparr>ch_events := ?w\<rparr>"
    using channel_isWriting_ok [OF assms(1)] by blast
  have same1: "same_conn io io1" using io1 by (simp add: same_conn_def)
  have out1: "out_bytes io1 = out_bytes io" "out_room m io1 = out_room m io" for m
    using io1(3) by (simp_all add: out_bytes_def out_room_def)
  have room: "out_room m io1" if "m \<le> length data + n" for m
    using assms(6) that by (simp add: io1(3) out_room_def buf_room_def)
  have wf1: "buf_wf (cn_outputBuffer (io_conn io1))" using io1(2) by (simp add: io_inv_def)
  show ?thesis
  proof (cases "?w = 0 \<and> readableBytes (cn_outputBuffer (io_conn io1)) = 0")
    case False
    obtain io2 where io2: "queue_output data io1 = Inr io2" "io_inv io2" "out_bytes io2 = out_bytes io1 @ data"
        "io_wire io2 = io_wire io1" "out_room n io2" "same_conn io1 io2"
      using queue_output_ok [OF io1(2) room] by fastforce
    have run: "sendInLoop w data io = (if 0 < length data then queue_output data io1 else Inr io1)"
      using assms(2) io1(1) False by (auto simp: sendInLoop_def Let_def)
    show ?thesis
    proof (cases "data = []")
      case True
      then show ?thesis using run io1 same1 out1 room [of n] by simp
    next
      case False
      then show ?thesis using run io2 io1(4) same1 out1 by (auto simp: same_conn_def)
    qed
  next
    case True
    then have empty_out: "out_bytes io1 = []"
      using wf1 by (simp add: out_bytes_def contents_alt)
    show ?thesis
    proof (cases "w data")
      case (Inl err)
      with assms(4) have "err \<noteq> EPIPE" "err \<noteq> ECONNRESET" by (auto simp: fatal_write_def)
      then have run: "sendInLoop w data io = (if 0 < length data then queue_output data io1 else Inr io1)"
        using assms(2) io1(1) True Inl by (simp add: sendInLoop_def Let_def try_write_def)
      from queue_output_ok [OF io1(2) room, of data n] run io1 same1 out1 room [of n] show ?thesis
        by (cases "data = []") (auto simp: same_conn_def)
    next
      case (Inr k)
      then have k: "k \<le> length data" using assms(3) by (auto simp: write_ok_def dest!: spec [of _ data])
      let ?io2 = "io1\<lparr>io_wire := io_wire io @ take k data\<rparr>"
      have inv2: "io_inv ?io2" using io1(2) by (simp add: io_inv_def)
      have out2: "out_bytes ?io2 = []" "same_conn io1 ?io2" "out_room m ?io2 = out_room m io1" for m
        using empty_out by (simp_all add: out_bytes_def same_conn_def conn_chan_def out_room_def)
      have run: "sendInLoop w data io =
          (if 0 < length data - k then queue_output (drop k data) ?io2 else Inr ?io2)"
        using assms(2) io1(1,4) True Inr k by (simp add: sendInLoop_def Let_def try_write_def)
      show ?thesis
      proof (cases "k = length data")
        case True
        then show ?thesis using run inv2 out2 same1 empty_out out1 room [of n] by (auto simp: same_conn_def)
      next
        case False
        have "out_room (length (drop k data) + n) ?io2" using room out2(3) k by simp
        from queue_output_ok [OF inv2 this] run False k out2 same1 empty_out out1 show ?thesis
          by (auto simp: same_conn_def)
      qed
    qed
  qed
qed

lemma sends_ok:
  assumes "io_inv io" and "cn_state (io_conn io) \<noteq> kDisConnected"
    and "\<forall>(w, d) \<in> set msgs. write_ok w \<and> \<not> fatal_write w \<and> length d < 2 ^ 64"
    and "out_room (length (concat (map snd msgs))) io"
  shows "\<exists>io'. fold_res (\<lambda>(w, d). sendInLoop w d) msgs io = Inr io' \<and> io_inv io' \<and>
    io_wire io' @ out_bytes io' = io_wire io @ out_bytes io @ concat (map snd msgs) \<and> same_conn io io'"
  using assms
proof (induction msgs arbitrary: io)
  case Nil
  then show ?case by (simp add: same_conn_def)
next
  case (Cons m msgs)
  obtain w d where m: "m = (w, d)" by fastforce
  have "out_room (length d + length (concat (map snd msgs))) io" using Cons.prems(4) m by simp
  with sendInLoop_ok [OF Cons.prems(1,2), of w d] Cons.prems(3) m obtain io1
    where io1: "sendInLoop w d io = Inr io1" "io_inv io1" "io_wire io1 @ out_bytes io1 = io_wire io @ out_bytes io @ d"
      "out_room (length (concat (map snd msgs))) io1" "same_conn io io1"
    by auto
  have "cn_state (io_conn io1) \<noteq> kDisConnected" using io1(5) Cons.prems(2) by (simp add: same_conn_def)
  with Cons.IH [OF io1(2) _ _ io1(4)] Cons.prems(3) obtain io2 where
      "fold_res (\<lambda>(w, d). sendInLoop w d) msgs io1 = Inr io2" "io_inv io2"
      "io_wire io2 @ out_bytes io2 = io_wire io1 @ out_bytes io1 @ concat (map snd msgs)" "same_conn io1 io2"
    by auto
  with io1 m show ?case by (auto simp: same_conn_def append_assoc [symmetric] simp del: append_assoc)
qed

lemma handleClose_ok:
  assumes "io_inv io" and "cn_state (io_conn io) = kConnected \<or> cn_state (io_conn io) = kDisConnecting"
  shows "\<exists>io1. handleClose on_close io = on_close io1 \<and> io_inv io1 \<and> cn_state (io_conn io1) = kDisConnected \<and>
    io_closes io1 = Suc (io_closes io) \<and> ch_events (conn_chan io1) = kNoneEvent \<and>
    ch_fd (conn_chan io1) = ch_fd (conn_chan io) \<and> ep_kernel (io_rx io1) (ch_fd (conn_chan io)) = Some kNoneEvent \<and>
    cn_channel (io_conn io1) = cn_channel (io_conn io)"
proof -
  have "io_inv (setState kDisConnected io)" using assms(1) by simp
  from on_channel_interest [OF this, of "\<lambda>ev. kNoneEvent"] obtain io1 where io1:
      "on_channel disableAll (setState kDisConnected io) = Inr io1" "io_inv io1"
      "io_conn io1 = io_conn (setState kDisConnected io)" "io_closes io1 = io_closes io"
      "ep_kernel (io_rx io1) = (ep_kernel (io_rx io))(ch_fd (conn_chan io) \<mapsto> kNoneEvent)"
      "conn_chan io1 = (conn_chan io)\<lparr>ch_events := kNoneEvent, ch_addedToLoop := True\<rparr>"
    by (auto simp: disableAll_def)
  let ?io = "io1\<lparr>io_closes := Suc (io_closes io1)\<rparr>"
  have "handleClose on_close io = on_close ?io" using assms(2) io1(1) by (auto simp: handleClose_def)
  moreover have "io_inv ?io" "conn_chan ?io = conn_chan io1" using io1(2) by (simp_all add: io_inv_def conn_chan_def)
  ultimately show ?thesis using io1 by (intro exI [of _ ?io]) simp
qed

lemma connectDestroyed_ok:
  assumes "io_inv io" and "cn_state (io_conn io) = kDisConnected" and "ch_events (conn_chan io) = kNoneEvent"
  shows "\<exists>io'. connectDestroyed io = Inr io' \<and> cn_state (io_conn io') = kDisConnected \<and> rx_inv (io_rx io') \<and>
    ep_kernel (io_rx io') (ch_fd (conn_chan io)) = None \<and> owner (io_rx io') (ch_fd (conn_chan io)) = None"
proof -
  obtain c where c: "rx_chans (io_rx io) (cn_channel (io_conn io)) = Some c" "conn_chan io = c"
    "owner (io_rx io) (ch_fd c) = Some (cn_channel (io_conn io))" "ch_writeCallBack c = None"
    using assms(1) by (rule io_invE)
  have "isNoneEvent c" using assms(3) c(2) by (simp add: isNoneEvent_def)
  with channel_remove_ok [OF _ c(1,3)] assms(1) obtain s' where
      "channel_remove (cn_channel (io_conn io)) (io_rx io) = Inr s'" "rx_inv s'"
      "ep_kernel s' = (ep_kernel (io_rx io))(ch_fd c := None)" "owner s' = (owner (io_rx io))(ch_fd c := None)"
    by (auto simp: io_inv_def)
  then show ?thesis using assms(2) c(2) by (simp add: connectDestroyed_def on_channel_def)
qed

section \<open>Properties\<close>

text \<open>Sample data for the witnesses: a connected connection on descriptor 5, watched for reading.\<close>

abbreviation conn_buffer :: buffer where
  "conn_buffer \<equiv> \<lparr>m_buffer = replicate 24 (CHR 0x00), m_readerIndex = 8, m_writerIndex = 8\<rparr>"

definition sample_io :: tcp_io where
  "sample_io = \<lparr>io_rx = Epoll_ctor\<lparr>rx_chans := [1 \<mapsto> (Channel_ctor 5)\<lparr>ch_events := 3, ch_index := 1,
        ch_readCallBack := Some cb_handleRead, ch_closeCallBack := Some cb_handleClose\<rparr>],
      ep_channels := [(5, 1)], ep_maxEventsSize := 1, ep_kernel := [5 \<mapsto> 3]\<rparr>,
    io_conn = \<lparr>cn_name = ''c'', cn_state = kConnected, cn_channel = 1, cn_inputBuffer = conn_buffer,
      cn_outputBuffer = conn_buffer\<rparr>, io_wire = [], io_shutdown = False, io_closes = 0\<rparr>"

lemma sample_io_facts: "io_inv sample_io" "out_bytes sample_io = []" "n \<le> 1000 \<Longrightarrow> out_room n sample_io"
    "ch_fd (conn_chan sample_io) = 5" "ch_events (conn_chan sample_io) = 3" "cn_state (io_conn sample_io) = kConnected"
    "io_wire sample_io = []" "ch_closeCallBack (conn_chan sample_io) = Some cb_handleClose"
  by (auto simp: sample_io_def io_inv_def rx_inv_def rx_room_def buf_wf_def Epoll_ctor_def Channel_ctor_def owner_def out_bytes_def
      contents_alt out_room_def buf_room_def conn_chan_def kInitEpollEventsSize_def kMaxEpollConcurrencySize_def
      kCheapPrepend_def vector_max_size_def)

text \<open>C8: bytes are sent in order and none is lost or duplicated. Over any sequence of sends, whatever part of each
  message the kernel accepts or refuses for now, what the kernel accepted followed by what the output
  buffer holds is everything that was sent, in order (a refusal that means the connection is broken
  apart), and no assertion fails.\<close>

theorem sends_in_order:
  assumes "io_inv io" and "cn_state (io_conn io) \<noteq> kDisConnected"
    and "\<forall>(w, d) \<in> set msgs. write_ok w \<and> \<not> fatal_write w \<and> length d < 2 ^ 64"
    and "out_room (length (concat (map snd msgs))) io"
  shows "\<exists>io'. fold_res (\<lambda>(w, d). sendInLoop w d) msgs io = Inr io' \<and> io_inv io' \<and>
    io_wire io' @ out_bytes io' = io_wire io @ out_bytes io @ concat (map snd msgs) \<and>
    cn_state (io_conn io') = cn_state (io_conn io)"
  using sends_ok [OF assms] by (auto simp: same_conn_def)

theorem sends_in_order_witness:
  "\<exists>io'. fold_res (\<lambda>(w, d). sendInLoop w d) [(\<lambda>s. Inr (min 2 (length s)), ''abc''), (\<lambda>s. Inl EWOULDBLOCK, ''de'')] sample_io = Inr io' \<and>
     io_inv io' \<and> io_wire io' @ out_bytes io' = ''abcde'' \<and> cn_state (io_conn io') = kConnected"
  using sends_in_order [OF sample_io_facts(1), of "[(\<lambda>s. Inr (min 2 (length s)), ''abc''), (\<lambda>s. Inl EWOULDBLOCK, ''de'')]"]
  by (simp add: sample_io_facts write_ok_def fatal_write_def EWOULDBLOCK_def EPIPE_def ECONNRESET_def)



text \<open>C31: closing. On a connected connection, or one that is shutting down, \<open>handleClose\<close> masks all events, enters
  kDisConnected and calls the close callback once; after \<open>connectDestroyed\<close> the descriptor is neither
  known to the poller nor watched by the kernel, and the destructor's assertion holds.\<close>

theorem close_then_destroyed:
  assumes "io_inv io" and "cn_state (io_conn io) = kConnected \<or> cn_state (io_conn io) = kDisConnecting"
  shows "\<exists>io1 io2. handleClose Inr io = Inr io1 \<and> io_closes io1 = Suc (io_closes io) \<and>
    ep_kernel (io_rx io1) (ch_fd (conn_chan io)) = Some kNoneEvent \<and>
    connectDestroyed io1 = Inr io2 \<and> rx_inv (io_rx io2) \<and> TcpConnection_dtor io2 = Inr () \<and>
    ep_kernel (io_rx io2) (ch_fd (conn_chan io)) = None \<and> owner (io_rx io2) (ch_fd (conn_chan io)) = None"
proof -
  from handleClose_ok [OF assms, of Inr] obtain io1 where io1: "handleClose Inr io = Inr io1" "io_inv io1"
      "cn_state (io_conn io1) = kDisConnected" "io_closes io1 = Suc (io_closes io)"
      "ch_events (conn_chan io1) = kNoneEvent" "ch_fd (conn_chan io1) = ch_fd (conn_chan io)"
      "ep_kernel (io_rx io1) (ch_fd (conn_chan io)) = Some kNoneEvent"
    by blast
  with connectDestroyed_ok [OF io1(2,3,5)] show ?thesis by (auto simp: TcpConnection_dtor_def)
qed

theorem close_then_destroyed_witness:
  "\<exists>io1 io2. handleClose Inr sample_io = Inr io1 \<and> connectDestroyed io1 = Inr io2 \<and> TcpConnection_dtor io2 = Inr () \<and>
     ep_kernel (io_rx io2) 5 = None"
  using close_then_destroyed [OF sample_io_facts(1)] by (auto simp: sample_io_facts)

text \<open>A second close aborts. Once \<open>handleClose\<close> has run, the kernel still reports a hang-up for the
  descriptor until \<open>connectDestroyed\<close> has removed it; handling it calls the close callback of the
  channel, and \<open>handleClose\<close> stops in its assertion.\<close>

theorem second_close_aborts:
  assumes "io_inv io" and "cn_state (io_conn io) = kConnected \<or> cn_state (io_conn io) = kDisConnecting"
    and "ch_closeCallBack (conn_chan io) = Some cb_handleClose" and "handleClose Inr io = Inr io1"
  shows "ch_fd (conn_chan io) \<in> dom (ep_kernel (io_rx io1)) \<and>
    handleClose on_close io1 = Inl (AssertFailed ''m_state == kConnected || m_state == kDisConnecting'')"
  using handleClose_ok [OF assms(1,2), of Inr] assms(4) by (auto simp: handleClose_def)

theorem second_close_aborts_witness:
  "\<exists>io1. handleClose Inr sample_io = Inr io1 \<and>
     handleClose Inr io1 = Inl (AssertFailed ''m_state == kConnected || m_state == kDisConnecting'')"
proof -
  obtain io1 where io1: "handleClose Inr sample_io = Inr io1"
    using handleClose_ok [OF sample_io_facts(1), of Inr] sample_io_facts(6) by auto
  then show ?thesis using second_close_aborts [OF sample_io_facts(1) _ _ io1, of Inr] sample_io_facts by auto
qed

end
