(* ===== verification/TA_EventLoop.thy ===== *)
theory TA_EventLoop
  imports TA_Prelude
begin

text \<open>
  The event loop (\<open>src/Reactor/EventLoop.h\<close>, \<open>EventLoop.cpp\<close>) and the pool of loop threads
  (\<open>EventLoopThreadPool.h\<close>, \<open>EventLoopThreadPool.cpp\<close>).

  The loop's thread and other threads interleave. The state of one loop is a record; the position of the
  loop's thread in \<open>loop()\<close> is a program counter; the operations are functions on the state, and the
  relation \<open>loop_step\<close> says which of them can happen next. A functor is a number, and the calls it makes on
  the loop when it runs (in the loop's thread) are given by the parameter \<open>body\<close>; a call of \<open>runInLoop\<close>
  there is the call of its functor, so it is part of the calls of the caller. The system calls on the
  wake-up descriptor are modelled as documented in \<open>eventfd(2)\<close>: a write adds to a counter, a read
  resets it, and the descriptor is readable while the counter is positive.
\<close>

section \<open>State\<close>

text \<open>An active channel is the wake-up channel or the channel of some other callback.\<close>

datatype active = WakeupChannel | OtherChannel nat

datatype loop_pc = NotLooping | CheckQuit | InPoll | Handling "active list" | Functors "nat list"

record event_loop =
  el_threadId :: nat
  el_looping :: bool
  el_quit :: bool
  el_callingPendingFunctors :: bool
  el_pendingFunctors :: "nat list"
  el_eventfd :: nat
  el_pc :: loop_pc
  el_wakers :: nat
  el_queued :: "nat list"
  el_executed :: "nat list"

text \<open>\<open>el_wakers\<close> counts the other threads that have still to call \<open>wakeup()\<close>; \<open>el_queued\<close> and
  \<open>el_executed\<close> record the functors queued and executed so far.\<close>

definition EventLoop_ctor :: "nat \<Rightarrow> event_loop" where
  "EventLoop_ctor tid = \<lparr>el_threadId = tid, el_looping = False, el_quit = False,
     el_callingPendingFunctors = False, el_pendingFunctors = [], el_eventfd = 0, el_pc = NotLooping,
     el_wakers = 0, el_queued = [], el_executed = []\<rparr>"

section \<open>Operations\<close>

definition isInloopThread :: "nat \<Rightarrow> event_loop \<Rightarrow> bool" where
  "isInloopThread tid s \<longleftrightarrow> tid = el_threadId s"

text \<open>\<open>assertInLoopThread\<close> logs a message at level FATAL when it is called in another thread (the boolean), which
  does not stop the program.\<close>

definition assertInLoopThread :: "nat \<Rightarrow> event_loop \<Rightarrow> bool \<times> event_loop" where
  "assertInLoopThread tid s = (\<not> isInloopThread tid s, s)"

definition wakeup :: "event_loop \<Rightarrow> event_loop" where
  "wakeup s = s\<lparr>el_eventfd := Suc (el_eventfd s)\<rparr>"

definition handle_wakeup :: "event_loop \<Rightarrow> event_loop" where
  "handle_wakeup s = s\<lparr>el_eventfd := 0\<rparr>"

text \<open>The locked part of \<open>queueInLoop\<close>.\<close>

definition push_functor :: "nat \<Rightarrow> event_loop \<Rightarrow> event_loop" where
  "push_functor f s = s\<lparr>el_pendingFunctors := el_pendingFunctors s @ [f], el_queued := el_queued s @ [f]\<rparr>"

text \<open>\<open>queueInLoop\<close> called in the loop's thread, and by another thread (which wakes up the loop in a second
  step). \<open>quit\<close> likewise.\<close>

definition queueInLoop_own :: "nat \<Rightarrow> event_loop \<Rightarrow> event_loop" where
  "queueInLoop_own f s =
     (let s1 = push_functor f s in if el_callingPendingFunctors s1 then wakeup s1 else s1)"

definition queueInLoop_other :: "nat \<Rightarrow> event_loop \<Rightarrow> event_loop" where
  "queueInLoop_other f s = (let s1 = push_functor f s in s1\<lparr>el_wakers := Suc (el_wakers s1)\<rparr>)"

definition quit_own :: "event_loop \<Rightarrow> event_loop res" where
  "quit_own s = cassert (el_looping s) ''m_looping == true'' (Inr (s\<lparr>el_quit := True\<rparr>))"

definition quit_other :: "event_loop \<Rightarrow> event_loop res" where
  "quit_other s = cassert (el_looping s) ''m_looping == true''
     (Inr (s\<lparr>el_quit := True, el_wakers := Suc (el_wakers s)\<rparr>))"

datatype loop_call = QueueCall nat | QuitCall

fun exec_loop_call :: "loop_call \<Rightarrow> event_loop \<Rightarrow> event_loop res" where
  "exec_loop_call (QueueCall f) s = Inr (queueInLoop_own f s)"
| "exec_loop_call QuitCall s = quit_own s"

text \<open>\<open>runInLoop\<close> calls the functor at once in the thread of the loop, before what is pending, and queues it in any
  other thread.\<close>

definition runInLoop :: "(nat \<Rightarrow> loop_call list) \<Rightarrow> nat \<Rightarrow> nat \<Rightarrow> event_loop \<Rightarrow> event_loop res" where
  "runInLoop body tid f s =
     (if isInloopThread tid s then fold_res exec_loop_call (body f) s else Inr (queueInLoop_other f s))"

text \<open>The parts of \<open>loop()\<close>: entering, the test of \<open>m_quit\<close>, one call of \<open>handleEvent\<close>, the swap of
  \<open>doPendingFunctors\<close>, one functor, and its end.\<close>

definition loop_enter :: "event_loop \<Rightarrow> event_loop res" where
  "loop_enter s = cassert (\<not> el_looping s) ''!m_looping''
     (Inr (s\<lparr>el_quit := False, el_looping := True, el_pc := CheckQuit\<rparr>))"

definition loop_check :: "event_loop \<Rightarrow> event_loop" where
  "loop_check s = (if el_quit s then s\<lparr>el_looping := False, el_pc := NotLooping\<rparr> else s\<lparr>el_pc := InPoll\<rparr>)"

fun handle_active :: "(nat \<Rightarrow> loop_call list) \<Rightarrow> active \<Rightarrow> event_loop \<Rightarrow> event_loop res" where
  "handle_active body WakeupChannel s = Inr (handle_wakeup s)"
| "handle_active body (OtherChannel c) s = fold_res exec_loop_call (body c) s"

definition doPending_swap :: "event_loop \<Rightarrow> event_loop" where
  "doPending_swap s = s\<lparr>el_callingPendingFunctors := True, el_pendingFunctors := [],
     el_pc := Functors (el_pendingFunctors s)\<rparr>"

definition run_functor :: "(nat \<Rightarrow> loop_call list) \<Rightarrow> nat \<Rightarrow> event_loop \<Rightarrow> event_loop res" where
  "run_functor body f s = fold_res exec_loop_call (body f) (s\<lparr>el_executed := el_executed s @ [f]\<rparr>)"

definition doPending_end :: "event_loop \<Rightarrow> event_loop" where
  "doPending_end s = s\<lparr>el_callingPendingFunctors := False, el_pc := CheckQuit\<rparr>"

section \<open>The interleaving\<close>

text \<open>\<open>poll\<close> blocks without a time limit; it returns with active channels, the wake-up channel among them only
  if its descriptor is readable, or with none when a signal interrupts it.\<close>

inductive loop_step :: "(nat \<Rightarrow> loop_call list) \<Rightarrow> event_loop \<Rightarrow> event_loop \<Rightarrow> bool" for body where
  enter: "el_pc s = NotLooping \<Longrightarrow> loop_enter s = Inr s' \<Longrightarrow> loop_step body s s'"
| check: "el_pc s = CheckQuit \<Longrightarrow> loop_step body s (loop_check s)"
| poll: "el_pc s = InPoll \<Longrightarrow> WakeupChannel \<in> set act \<longrightarrow> 0 < el_eventfd s \<Longrightarrow>
    loop_step body s (s\<lparr>el_pc := Handling act\<rparr>)"
| handle: "el_pc s = Handling (a # act) \<Longrightarrow> handle_active body a (s\<lparr>el_pc := Handling act\<rparr>) = Inr s' \<Longrightarrow>
    loop_step body s s'"
| swap: "el_pc s = Handling [] \<Longrightarrow> loop_step body s (doPending_swap s)"
| run: "el_pc s = Functors (f # fs) \<Longrightarrow> run_functor body f (s\<lparr>el_pc := Functors fs\<rparr>) = Inr s' \<Longrightarrow>
    loop_step body s s'"
| finish: "el_pc s = Functors [] \<Longrightarrow> loop_step body s (doPending_end s)"
| other_queue: "loop_step body s (queueInLoop_other f s)"
| other_quit: "quit_other s = Inr s' \<Longrightarrow> loop_step body s s'"
| other_wakeup: "el_wakers s = Suc n \<Longrightarrow> loop_step body s (wakeup (s\<lparr>el_wakers := n\<rparr>))"

inductive_cases loop_stepE: "loop_step body s s'"

inductive loop_reach :: "(nat \<Rightarrow> loop_call list) \<Rightarrow> event_loop \<Rightarrow> event_loop \<Rightarrow> bool" for body s where
  start: "loop_reach body s s"
| extend: "loop_reach body s s1 \<Longrightarrow> loop_step body s1 s2 \<Longrightarrow> loop_reach body s s2"

section \<open>The pool of loop threads\<close>

text \<open>Loops are numbers; \<open>start_loop i\<close> is the loop the \<open>i\<close>-th \<open>EventLoopThread::startLoop\<close> returns.\<close>

record thread_pool =
  tp_baseLoop :: nat
  tp_name :: string
  tp_started :: bool
  tp_numThreads :: int
  tp_next :: nat
  tp_loops :: "nat list"

definition EventLoopThreadPool_ctor :: "nat \<Rightarrow> string \<Rightarrow> int \<Rightarrow> thread_pool" where
  "EventLoopThreadPool_ctor base nm n = \<lparr>tp_baseLoop = base, tp_name = nm, tp_started = False, tp_numThreads = n,
     tp_next = 0, tp_loops = []\<rparr>"

definition pool_setThreadNum :: "int \<Rightarrow> thread_pool \<Rightarrow> thread_pool" where
  "pool_setThreadNum n p = p\<lparr>tp_numThreads := n\<rparr>"

definition pool_start :: "(nat \<Rightarrow> nat) \<Rightarrow> thread_pool \<Rightarrow> thread_pool res" where
  "pool_start start_loop p =
     cassert (\<not> tp_started p) ''!m_started''
       (Inr (p\<lparr>tp_started := True, tp_loops := tp_loops p @ map start_loop [0..<nat (tp_numThreads p)]\<rparr>))"

definition getNextLoop :: "thread_pool \<Rightarrow> (nat \<times> thread_pool) res" where
  "getNextLoop p =
     cassert (tp_started p) ''m_started''
       (if tp_loops p = [] then Inr (tp_baseLoop p, p)
        else if length (tp_loops p) \<le> tp_next p then Inl OutOfRange
        else (let i = tp_next p + 1
              in Inr (tp_loops p ! tp_next p, p\<lparr>tp_next := if length (tp_loops p) \<le> i then 0 else i\<rparr>)))"

definition getLoopForHash :: "nat \<Rightarrow> thread_pool \<Rightarrow> nat" where
  "getLoopForHash hashCode p =
     (if tp_loops p = [] then tp_baseLoop p else tp_loops p ! (hashCode mod length (tp_loops p)))"

definition getAllLoops :: "thread_pool \<Rightarrow> nat list res" where
  "getAllLoops p =
     cassert (tp_started p) ''m_started''
       (if tp_loops p = [] then Inr [tp_baseLoop p] else Inr (tp_loops p))"

text \<open>The loops \<open>k\<close> successive calls hand out.\<close>

fun next_loops :: "nat \<Rightarrow> thread_pool \<Rightarrow> (nat list \<times> thread_pool) res" where
  "next_loops 0 p = Inr ([], p)"
| "next_loops (Suc k) p =
     bind_res (getNextLoop p) (\<lambda>(l, p1). bind_res (next_loops k p1) (\<lambda>(ls, p2). Inr (l # ls, p2)))"

section \<open>Invariant of the loop\<close>

definition running_functors :: "event_loop \<Rightarrow> nat list" where
  "running_functors s = (case el_pc s of Functors fs \<Rightarrow> fs | _ \<Rightarrow> [])"

definition woken :: "event_loop \<Rightarrow> bool" where
  "woken s \<longleftrightarrow> 0 < el_eventfd s \<or> 0 < el_wakers s"

definition el_inv :: "event_loop \<Rightarrow> bool" where
  "el_inv s \<longleftrightarrow>
     el_queued s = el_executed s @ running_functors s @ el_pendingFunctors s \<and>
     (el_pendingFunctors s \<noteq> [] \<and> (\<forall>act. el_pc s \<noteq> Handling act) \<longrightarrow> woken s) \<and>
     (el_quit s \<and> el_pc s = InPoll \<longrightarrow> woken s) \<and>
     (el_callingPendingFunctors s \<longleftrightarrow> (\<exists>fs. el_pc s = Functors fs)) \<and>
     (el_looping s \<longleftrightarrow> el_pc s \<noteq> NotLooping)"

section \<open>Lemmas\<close>

text \<open>What the calls of a callback or functor change.\<close>

definition call_frame :: "event_loop \<Rightarrow> nat list \<Rightarrow> event_loop \<Rightarrow> bool" where
  "call_frame s fs s' \<longleftrightarrow>
     el_pc s' = el_pc s \<and> el_looping s' = el_looping s \<and> el_wakers s' = el_wakers s \<and>
     el_callingPendingFunctors s' = el_callingPendingFunctors s \<and> el_executed s' = el_executed s \<and>
     el_pendingFunctors s' = el_pendingFunctors s @ fs \<and> el_queued s' = el_queued s @ fs \<and>
     el_eventfd s \<le> el_eventfd s' \<and>
     (el_callingPendingFunctors s \<longrightarrow> fs \<noteq> [] \<longrightarrow> 0 < el_eventfd s')"

lemma call_frame_trans: "call_frame s fs s1 \<Longrightarrow> call_frame s1 gs s2 \<Longrightarrow> call_frame s (fs @ gs) s2"
  by (cases "fs = []") (auto simp: call_frame_def)

lemma exec_loop_call_frame: "exec_loop_call c s = Inr s' \<Longrightarrow> \<exists>fs. call_frame s fs s'"
  by (cases c) (auto simp: call_frame_def queueInLoop_own_def push_functor_def wakeup_def quit_own_def Let_def res_simps
      split: if_splits)

lemma exec_loop_calls_frame: "fold_res exec_loop_call cs s = Inr s' \<Longrightarrow> \<exists>fs. call_frame s fs s'"
proof (induction cs arbitrary: s)
  case Nil
  then show ?case by (auto simp: call_frame_def)
next
  case (Cons c cs)
  then obtain s1 where "exec_loop_call c s = Inr s1" "fold_res exec_loop_call cs s1 = Inr s'"
    by (auto simp: res_simps)
  with exec_loop_call_frame Cons.IH show ?case by (meson call_frame_trans)
qed

lemma exec_loop_calls_ok: "el_looping s \<Longrightarrow> \<exists>s'. fold_res exec_loop_call cs s = Inr s'"
proof (induction cs arbitrary: s)
  case Nil
  then show ?case by simp
next
  case (Cons c cs)
  from Cons.prems obtain s1 where s1: "exec_loop_call c s = Inr s1"
    by (cases c) (auto simp: quit_own_def)
  then have "el_looping s1" using exec_loop_call_frame [OF s1] Cons.prems by (auto simp: call_frame_def)
  with Cons.IH s1 show ?case by simp
qed

lemma el_inv_calls:
  assumes "el_inv s" and "el_pc s = Handling act \<or> el_pc s = Functors fs"
    and "fold_res exec_loop_call cs s = Inr s'"
  shows "el_inv s'"
proof -
  obtain gs where "call_frame s gs s'" using exec_loop_calls_frame [OF assms(3)] by blast
  with assms(1,2) show ?thesis
    by (cases "gs = []") (auto simp: call_frame_def el_inv_def running_functors_def woken_def)
qed

lemma el_inv_queue_other: "el_inv s \<Longrightarrow> el_inv (queueInLoop_other f s)"
  by (auto simp: queueInLoop_other_def push_functor_def Let_def el_inv_def running_functors_def woken_def)

text \<open>Called by a handler or a functor of the loop, or by another thread, \<open>runInLoop\<close> keeps the invariant of the
  loop.\<close>

lemma runInLoop_keeps:
  assumes "el_inv s" and "isInloopThread tid s \<Longrightarrow> (\<exists>act. el_pc s = Handling act) \<or> (\<exists>fs. el_pc s = Functors fs)"
    and "runInLoop body tid f s = Inr s'"
  shows "el_inv s'"
  using assms el_inv_queue_other by (auto simp: runInLoop_def split: if_splits intro: el_inv_calls)

lemma runInLoop_runs_or_queues:
  assumes "runInLoop body tid f s = Inr s'"
  shows "if isInloopThread tid s then \<exists>fs. el_pendingFunctors s' = el_pendingFunctors s @ fs
         else loop_step body s s' \<and> el_pendingFunctors s' = el_pendingFunctors s @ [f] \<and> 0 < el_wakers s'"
proof (cases "isInloopThread tid s")
  case True
  then have "fold_res exec_loop_call (body f) s = Inr s'" using assms by (simp add: runInLoop_def)
  from exec_loop_calls_frame [OF this] True show ?thesis by (auto simp: call_frame_def)
next
  case False
  then have "s' = queueInLoop_other f s" using assms by (simp add: runInLoop_def)
  with False loop_step.other_queue [of body s f] show ?thesis
    by (simp add: queueInLoop_other_def push_functor_def Let_def)
qed

lemma handle_wakeup_inv: "el_inv s \<Longrightarrow> el_pc s = Handling act \<Longrightarrow> el_inv (handle_wakeup s)"
  by (simp add: el_inv_def running_functors_def handle_wakeup_def)

lemma loop_step_inv:
  assumes "loop_step body s s'" and "el_inv s"
  shows "el_inv s'"
  using assms(1)
proof (cases rule: loop_step.cases)
  case enter
  then show ?thesis using assms(2) by (auto simp: loop_enter_def el_inv_def running_functors_def woken_def res_simps)
next
  case check
  then show ?thesis using assms(2) by (auto simp: loop_check_def el_inv_def running_functors_def woken_def)
next
  case (poll act)
  then show ?thesis using assms(2) by (auto simp: el_inv_def running_functors_def)
next
  case (handle a act)
  have inv: "el_inv (s\<lparr>el_pc := Handling act\<rparr>)"
    using assms(2) handle(1) by (auto simp: el_inv_def running_functors_def)
  show ?thesis
    using handle(2) handle_wakeup_inv [OF inv] el_inv_calls [OF inv, of act "[]"] by (cases a) auto
next
  case swap
  then show ?thesis using assms(2) by (auto simp: doPending_swap_def el_inv_def running_functors_def)
next
  case (run f fs)
  let ?s = "s\<lparr>el_pc := Functors fs, el_executed := el_executed s @ [f]\<rparr>"
  have "el_inv ?s" using assms(2) run(1) by (auto simp: el_inv_def running_functors_def woken_def)
  moreover have "fold_res exec_loop_call (body f) ?s = Inr s'" using run(2) by (simp add: run_functor_def)
  ultimately show ?thesis using el_inv_calls [of ?s "[]" fs] by simp
next
  case finish
  then show ?thesis using assms(2) by (auto simp: doPending_end_def el_inv_def running_functors_def woken_def)
next
  case (other_queue f)
  with assms(2) show ?thesis by (simp add: el_inv_queue_other)
next
  case other_quit
  then show ?thesis using assms(2) by (auto simp: quit_other_def el_inv_def running_functors_def woken_def res_simps)
next
  case (other_wakeup n)
  then show ?thesis using assms(2) by (auto simp: wakeup_def el_inv_def running_functors_def woken_def)
qed

lemma el_inv_ctor: "el_inv (EventLoop_ctor tid)"
  by (simp add: EventLoop_ctor_def el_inv_def running_functors_def)

lemma loop_reach_inv: "loop_reach body s s' \<Longrightarrow> el_inv s \<Longrightarrow> el_inv s'"
  by (induction rule: loop_reach.induct) (auto intro: loop_step_inv)

lemma loop_reach_trans: "loop_reach body s1 s2 \<Longrightarrow> loop_reach body s s1 \<Longrightarrow> loop_reach body s s2"
  by (induction rule: loop_reach.induct) (auto intro: loop_reach.extend)

lemma loop_reach_one: "loop_step body s s' \<Longrightarrow> loop_reach body s s'"
  by (rule loop_reach.extend [OF loop_reach.start])

text \<open>The functors of one round run to the end.\<close>

lemma functors_run:
  assumes "el_pc s = Functors fs" and "el_looping s"
  shows "\<exists>s'. loop_reach body s s' \<and> el_pc s' = Functors [] \<and> el_executed s' = el_executed s @ fs"
  using assms
proof (induction fs arbitrary: s)
  case Nil
  then show ?case by (auto intro: loop_reach.start)
next
  case (Cons f fs)
  let ?s = "s\<lparr>el_pc := Functors fs, el_executed := el_executed s @ [f]\<rparr>"
  obtain s1 where s1: "fold_res exec_loop_call (body f) ?s = Inr s1"
    using exec_loop_calls_ok [of ?s] Cons.prems(2) by auto
  then have step: "loop_step body s s1"
    using loop_step.run [OF Cons.prems(1), of body s1] by (simp add: run_functor_def)
  have "el_pc s1 = Functors fs" "el_looping s1" "el_executed s1 = el_executed s @ [f]"
    using exec_loop_calls_frame [OF s1] Cons.prems(2) by (auto simp: call_frame_def)
  with Cons.IH [of s1] obtain s' where "loop_reach body s1 s'" "el_pc s' = Functors []" "el_executed s' = el_executed s @ f # fs"
    by auto
  with loop_reach_trans [OF _ loop_reach_one [OF step]] show ?case by blast
qed

text \<open>From a blocked loop with something to do, the wake-up ends the poll and the next round runs what is
  pending.\<close>

lemma blocked_runs_pending:
  assumes "el_inv s" and "el_pc s = InPoll" and "el_pendingFunctors s \<noteq> []"
  shows "\<exists>s'. loop_reach body s s' \<and> el_pc s' = Functors [] \<and> el_executed s' = el_executed s @ el_pendingFunctors s"
proof -
  have woken: "woken s" and loop: "el_looping s" using assms by (auto simp: el_inv_def)
  obtain s1 where s1: "loop_reach body s s1" "el_pc s1 = InPoll" "0 < el_eventfd s1" "el_looping s1"
      "el_pendingFunctors s1 = el_pendingFunctors s" "el_executed s1 = el_executed s"
  proof (cases "0 < el_eventfd s")
    case True
    then show ?thesis using that [OF loop_reach.start] assms(2) loop by blast
  next
    case False
    with woken obtain n where n: "el_wakers s = Suc n" by (auto simp: woken_def gr0_conv_Suc)
    show ?thesis
      using that [OF loop_reach_one [OF loop_step.other_wakeup [OF n]]] assms(2) loop by (simp add: wakeup_def)
  qed
  let ?s2 = "s1\<lparr>el_pc := Handling [WakeupChannel]\<rparr>"
  let ?s3 = "handle_wakeup (s1\<lparr>el_pc := Handling []\<rparr>)"
  let ?s4 = "doPending_swap ?s3"
  have r2: "loop_reach body s ?s2"
    by (rule loop_reach.extend [OF s1(1) loop_step.poll [OF s1(2)]]) (use s1(3) in simp)
  have r3: "loop_reach body s ?s3"
    by (rule loop_reach.extend [OF r2 loop_step.handle [where a = WakeupChannel and act = "[]"]])
      (simp_all add: handle_wakeup_def)
  have r4: "loop_reach body s ?s4"
    by (rule loop_reach.extend [OF r3 loop_step.swap]) (simp add: handle_wakeup_def)
  have "el_pc ?s4 = Functors (el_pendingFunctors s)" "el_looping ?s4" "el_executed ?s4 = el_executed s"
    using s1 by (simp_all add: doPending_swap_def handle_wakeup_def)
  with functors_run [of ?s4 "el_pendingFunctors s" body] loop_reach_trans [OF _ r4] show ?thesis by auto
qed

lemma next_loops_round_robin:
  assumes "tp_started p" and "tp_loops p \<noteq> []" and "tp_next p < length (tp_loops p)"
  shows "\<exists>p'. next_loops k p =
      Inr (map (\<lambda>i. tp_loops p ! ((tp_next p + i) mod length (tp_loops p))) [0..<k], p') \<and>
    tp_loops p' = tp_loops p \<and> tp_started p' \<and> tp_next p' = (tp_next p + k) mod length (tp_loops p)"
  using assms
proof (induction k arbitrary: p)
  case 0
  then show ?case by simp
next
  case (Suc k)
  let ?n = "length (tp_loops p)"
  let ?i = "if ?n \<le> tp_next p + 1 then 0 else tp_next p + 1"
  let ?p1 = "p\<lparr>tp_next := ?i\<rparr>"
  have step: "getNextLoop p = Inr (tp_loops p ! tp_next p, ?p1)"
    using Suc.prems by (simp add: getNextLoop_def Let_def)
  have i: "?i < ?n" "?i = (tp_next p + 1) mod ?n" using Suc.prems(2,3) by (cases "tp_next p + 1 = ?n"; auto)+
  from Suc.IH [of ?p1] Suc.prems(1,2) i(1) obtain p' where p':
      "next_loops k ?p1 = Inr (map (\<lambda>j. tp_loops p ! ((?i + j) mod ?n)) [0..<k], p')"
      "tp_loops p' = tp_loops p" "tp_started p'" "tp_next p' = (?i + k) mod ?n"
    by auto
  have shift: "(?i + j) mod ?n = (tp_next p + Suc j) mod ?n" for j
    unfolding i(2) by (simp add: mod_simps)
  have "map (\<lambda>j. tp_loops p ! ((tp_next p + j) mod ?n)) [0..<Suc k] =
      tp_loops p ! tp_next p # map (\<lambda>j. tp_loops p ! ((tp_next p + Suc j) mod ?n)) [0..<k]"
    using Suc.prems(3) by (simp add: upt_conv_Cons map_Suc_upt [symmetric] del: upt_Suc)
  with step p' shift show ?case by simp
qed

section \<open>Properties\<close>

text \<open>The state after the loop has entered \<open>poll\<close> and another thread has queued functor 7.\<close>

abbreviation blocked_loop :: event_loop where
  "blocked_loop \<equiv> queueInLoop_other 7 (loop_check
     ((EventLoop_ctor 1)\<lparr>el_quit := False, el_looping := True, el_pc := CheckQuit\<rparr>))"

lemma blocked_loop_reach: "loop_reach body (EventLoop_ctor 1) blocked_loop"
proof -
  let ?s0 = "EventLoop_ctor 1"
  let ?s1 = "?s0\<lparr>el_quit := False, el_looping := True, el_pc := CheckQuit\<rparr>"
  have "loop_step body ?s0 ?s1"
    by (rule loop_step.enter) (simp_all add: EventLoop_ctor_def loop_enter_def)
  then have "loop_reach body ?s0 ?s1" by (rule loop_reach_one)
  then have "loop_reach body ?s0 (loop_check ?s1)" by (rule loop_reach.extend [OF _ loop_step.check]) simp
  then show ?thesis by (rule loop_reach.extend [OF _ loop_step.other_queue])
qed

lemma blocked_loop_facts: "el_pc blocked_loop = InPoll" "el_pendingFunctors blocked_loop = [7]" "el_executed blocked_loop = []"
  by (simp_all add: EventLoop_ctor_def loop_check_def queueInLoop_other_def push_functor_def)

text \<open>C7: in every reachable interleaving of the loop with other threads, no functor is lost, duplicated or
  reordered (the queued ones are those executed, those of the current round and the pending ones, in
  order), and no wake-up is lost: a loop blocked in \<open>poll\<close> with pending functors or asked to quit has a
  readable wake-up descriptor, or another thread is about to make it readable.\<close>

theorem no_functor_lost:
  assumes "loop_reach body (EventLoop_ctor tid) s"
  shows "el_queued s = el_executed s @ (case el_pc s of Functors fs \<Rightarrow> fs | _ \<Rightarrow> []) @ el_pendingFunctors s \<and>
    (el_pc s = InPoll \<and> (el_pendingFunctors s \<noteq> [] \<or> el_quit s) \<longrightarrow> 0 < el_eventfd s \<or> 0 < el_wakers s)"
  using loop_reach_inv [OF assms el_inv_ctor] by (auto simp: el_inv_def woken_def running_functors_def)

theorem no_functor_lost_witness:
  "el_queued blocked_loop = [7] \<and> (0 < el_eventfd blocked_loop \<or> 0 < el_wakers blocked_loop)"
  using no_functor_lost [OF blocked_loop_reach] unfolding blocked_loop_facts by simp



text \<open>The pool hands out its loops in turn. From a started pool with at least one loop thread, the \<open>i\<close>-th of
  any number of successive calls of \<open>getNextLoop\<close> returns the loop \<open>m_next + i\<close> modulo their number, and
  never indexes out of range.\<close>

theorem getNextLoop_round_robin:
  assumes "pool_start start_loop (EventLoopThreadPool_ctor base nm n) = Inr p" and "0 < n"
  shows "\<exists>p'. next_loops k p = Inr (map (\<lambda>i. start_loop (i mod nat n)) [0..<k], p')"
proof -
  have p: "tp_loops p = map start_loop [0..<nat n]" "tp_started p" "tp_next p = 0"
    using assms(1) by (auto simp: pool_start_def EventLoopThreadPool_ctor_def)
  then show ?thesis
    using next_loops_round_robin [of p k] assms(2) by auto
qed

theorem getNextLoop_round_robin_witness:
  "\<exists>p p'. pool_start (\<lambda>i. 10 + i) (EventLoopThreadPool_ctor 1 ''io'' 3) = Inr p \<and>
     next_loops 5 p = Inr ([10, 11, 12, 10, 11], p')"
proof -
  obtain p where p: "pool_start (\<lambda>i. 10 + i) (EventLoopThreadPool_ctor 1 ''io'' 3) = Inr p"
    by (simp add: pool_start_def EventLoopThreadPool_ctor_def)
  from getNextLoop_round_robin [OF this, of 5] p show ?thesis by (auto simp: upt_rec)
qed

end
