(* ===== verification/TA_HttpServer.thy ===== *)
theory TA_HttpServer
  imports TA_HttpResponse TA_TcpConnection TA_EventLoop
begin

text \<open>
  The HTTP server on top of a TCP connection (\<open>src/Http/HttpServer.h\<close>, \<open>HttpServer.cpp\<close>), the TCP server
  that creates and removes connections (\<open>src/Tcp/TcpServer.h\<close>, \<open>TcpServer.cpp\<close>) and the acceptor
  (\<open>src/Reactor/Acceptor.h\<close>, \<open>Acceptor.cpp\<close>). The HTTP callbacks run in the thread of the connection's
  loop. The user's \<open>HttpCallback\<close> is the parameter \<open>http_cb\<close>: from the request and the response the
  server prepared to the response it left.
\<close>

section \<open>HTTP server\<close>

record http_conn =
  hc_io :: tcp_io
  hc_context :: "http_context option"

definition defaultHttpCallback :: "http_request \<Rightarrow> http_response \<Rightarrow> http_response" where
  "defaultHttpCallback req resp =
     setCloseConnection True (setStatusMessage ''Not Found'' (setStatusCode k404NotFound resp))"

text \<open>\<open>onConnection\<close>: a connected connection gets a fresh context.\<close>

definition onConnection :: "http_conn \<Rightarrow> http_conn" where
  "onConnection hc =
     (if cn_state (io_conn (hc_io hc)) = kConnected then hc\<lparr>hc_context := Some HttpContext_ctor\<rparr> else hc)"

definition wants_close :: "http_request \<Rightarrow> bool" where
  "wants_close req \<longleftrightarrow>
     (let connection = getHeader ''Connection'' req
      in connection = ''close'' \<or> (req_version req = kHttp10 \<and> connection \<noteq> ''Keep-Alive''))"

definition onRequest :: "(string \<Rightarrow> nat + nat) \<Rightarrow> (http_request \<Rightarrow> http_response \<Rightarrow> http_response) \<Rightarrow>
    http_request \<Rightarrow> tcp_io \<Rightarrow> tcp_io res" where
  "onRequest sys_write http_cb req io =
     (let response = http_cb req (HttpResponse_ctor (wants_close req))
      in bind_res (Buffer_ctor kInitialSize) (\<lambda>buf.
         bind_res (appendToBuffer response buf) (\<lambda>buf1.
         bind_res (send_buffer sys_write buf1 io) (\<lambda>(buf2, io1).
           if resp_closeConnection response then shutdown io1 else Inr io1))))"

definition bad_request :: string where
  "bad_request = ''HTTP/1.1 400 Bad Request'' @ kCRLF @ kCRLF"

text \<open>\<open>onMessage\<close>; \<open>None\<close> when the parser does not return. The buffer is the input buffer of the connection.\<close>

definition onMessage :: "(string \<Rightarrow> nat + nat) \<Rightarrow> (http_request \<Rightarrow> http_response \<Rightarrow> http_response) \<Rightarrow>
    int \<Rightarrow> http_conn \<Rightarrow> http_conn res option" where
  "onMessage sys_write http_cb receiveTime hc =
     (case hc_context hc of
        None \<Rightarrow> Some (Inl NullDeref)
      | Some ctx \<Rightarrow>
          (case parseRequest receiveTime ctx (cn_inputBuffer (io_conn (hc_io hc))) of
             None \<Rightarrow> None
           | Some (Inl e) \<Rightarrow> Some (Inl e)
           | Some (Inr (good, ctx1, buf)) \<Rightarrow>
               Some (bind_res
                 (if good then Inr (set_input buf (hc_io hc))
                  else bind_res (send sys_write bad_request (set_input buf (hc_io hc))) shutdown) (\<lambda>io1.
                 if gotAll ctx1
                 then bind_res (onRequest sys_write http_cb (ctx_request ctx1) io1) (\<lambda>io2.
                        Inr (hc\<lparr>hc_io := io2, hc_context := Some (reset ctx1)\<rparr>))
                 else Inr (hc\<lparr>hc_io := io1, hc_context := Some ctx1\<rparr>)))))"

section \<open>TCP server\<close>

text \<open>Connections are named by addresses. The server runs in its base loop; functors for a loop are recorded in
  \<open>sv_tasks\<close> with the loop they are queued in.\<close>

datatype server_task = ConnectEstablished nat | RemoveConnectionInLoop nat | ConnectDestroyed nat

record tcp_server =
  sv_name :: string
  sv_pool :: thread_pool
  sv_nextConnId :: int
  sv_connectionsSet :: "nat list"
  sv_connName :: "nat \<rightharpoonup> string"
  sv_connLoop :: "nat \<rightharpoonup> nat"
  sv_listening :: bool
  sv_tasks :: "(nat \<times> server_task) list"

definition TcpServer_ctor :: "nat \<Rightarrow> string \<Rightarrow> tcp_server" where
  "TcpServer_ctor loop nm = \<lparr>sv_name = nm, sv_pool = EventLoopThreadPool_ctor loop nm 3, sv_nextConnId = 1,
     sv_connectionsSet = [], sv_connName = Map.empty, sv_connLoop = Map.empty, sv_listening = False, sv_tasks = []\<rparr>"

definition server_setThreadNum :: "int \<Rightarrow> tcp_server \<Rightarrow> tcp_server res" where
  "server_setThreadNum n sv =
     cassert (0 \<le> n) ''0 <= numThreads'' (Inr (sv\<lparr>sv_pool := pool_setThreadNum n (sv_pool sv)\<rparr>))"

definition startListen :: "(nat \<Rightarrow> nat) \<Rightarrow> tcp_server \<Rightarrow> tcp_server res" where
  "startListen start_loop sv =
     cassert (\<not> sv_listening sv) ''!p_acceptor->listenning()''
       (bind_res (pool_start start_loop (sv_pool sv)) (\<lambda>pool.
          Inr (sv\<lparr>sv_pool := pool, sv_listening := True\<rparr>)))"

text \<open>\<open>newConnetion\<close> for a connection object at the new address \<open>p\<close>.\<close>

definition newConnetion :: "nat \<Rightarrow> tcp_server \<Rightarrow> tcp_server res" where
  "newConnetion p sv =
     (let connName = sv_name sv @ snprintf_buf 64 (''#'' @ dec_int (sv_nextConnId sv));
          sv1 = sv\<lparr>sv_nextConnId := wrap32 (sv_nextConnId sv + 1)\<rparr>
      in bind_res (getNextLoop (sv_pool sv1)) (\<lambda>(loop, pool).
           Inr (sv1\<lparr>sv_pool := pool, sv_connectionsSet := oset_insert p (sv_connectionsSet sv1),
                    sv_connName := (sv_connName sv1)(p \<mapsto> connName), sv_connLoop := (sv_connLoop sv1)(p \<mapsto> loop),
                    sv_tasks := sv_tasks sv1 @ [(loop, ConnectEstablished p)]\<rparr>)))"

definition removeConnection :: "nat \<Rightarrow> tcp_server \<Rightarrow> tcp_server" where
  "removeConnection p sv =
     sv\<lparr>sv_tasks := sv_tasks sv @ [(tp_baseLoop (sv_pool sv), RemoveConnectionInLoop p)]\<rparr>"

definition removeConnectionInLoop :: "nat \<Rightarrow> tcp_server \<Rightarrow> tcp_server res" where
  "removeConnectionInLoop p sv =
     cassert (oset_count p (sv_connectionsSet sv) = 1) ''n == 1''
       (case sv_connLoop sv p of
          None \<Rightarrow> Inl Dangling
        | Some ioLoop \<Rightarrow>
            Inr (sv\<lparr>sv_connectionsSet := oset_erase p (sv_connectionsSet sv),
                    sv_tasks := sv_tasks sv @ [(ioLoop, ConnectDestroyed p)]\<rparr>))"

section \<open>Acceptor\<close>

text \<open>The kernel's side of accepting: the number of descriptors the process has open, its limit, and the
  connections waiting in the backlog. \<open>accept\<close> fails with EMFILE at the limit and with EAGAIN on an empty
  backlog; accepted descriptors are recorded.\<close>

record acceptor =
  ac_listenning :: bool
  ac_hasCallBack :: bool
  ac_open :: nat
  ac_limit :: nat
  ac_backlog :: nat
  ac_handedOut :: nat
  ac_idle :: bool

definition EMFILE :: nat where "EMFILE = 24"
definition EAGAIN :: nat where "EAGAIN = 11"

definition sys_accept :: "acceptor \<Rightarrow> (nat + unit) \<times> acceptor" where
  "sys_accept a =
     (if ac_limit a \<le> ac_open a then (Inl EMFILE, a)
      else if ac_backlog a = 0 then (Inl EAGAIN, a)
      else (Inr (), a\<lparr>ac_open := ac_open a + 1, ac_backlog := ac_backlog a - 1\<rparr>))"

definition close_fd :: "acceptor \<Rightarrow> acceptor" where
  "close_fd a = a\<lparr>ac_open := ac_open a - 1\<rparr>"

definition acceptor_listen :: "acceptor \<Rightarrow> acceptor" where
  "acceptor_listen a = a\<lparr>ac_listenning := True\<rparr>"

text \<open>The idle descriptor is opened again if the process may open one more.\<close>

definition open_idle :: "acceptor \<Rightarrow> acceptor" where
  "open_idle a = (if ac_open a < ac_limit a then a\<lparr>ac_open := ac_open a + 1, ac_idle := True\<rparr> else a)"

definition acceptor_handleRead :: "acceptor \<Rightarrow> acceptor" where
  "acceptor_handleRead a =
     (case sys_accept a of
        (Inr u, a1) \<Rightarrow>
          if ac_hasCallBack a1 then a1\<lparr>ac_handedOut := ac_handedOut a1 + 1\<rparr> else close_fd a1
      | (Inl err, a1) \<Rightarrow>
          if err = EMFILE
          then (let a2 = (if ac_idle a1 then (close_fd a1)\<lparr>ac_idle := False\<rparr> else a1);
                    (r, a3) = sys_accept a2;
                    a4 = (case r of Inr u \<Rightarrow> close_fd a3 | Inl e \<Rightarrow> a3)
                in open_idle a4)
          else a1)"

section \<open>Lemmas\<close>

text \<open>A connection with nothing to write, on a kernel that accepts every byte.\<close>

definition idle_conn :: "tcp_io \<Rightarrow> bool" where
  "idle_conn io \<longleftrightarrow> io_inv io \<and> cn_state (io_conn io) = kConnected \<and> out_bytes io = [] \<and>
     ch_events (conn_chan io) AND kWriteEvent = 0"

lemma readable_empty: "io_inv io \<Longrightarrow> out_bytes io = [] \<Longrightarrow> readableBytes (cn_outputBuffer (io_conn io)) = 0"
  using length_contents [of "cn_outputBuffer (io_conn io)"]
  by (simp add: io_inv_def out_bytes_def del: length_contents)

lemma sendInLoop_all:
  assumes "idle_conn io"
  shows "\<exists>io'. sendInLoop (\<lambda>s. Inr (length s)) data io = Inr io' \<and> idle_conn io' \<and>
    io_wire io' = io_wire io @ data \<and> cn_inputBuffer (io_conn io') = cn_inputBuffer (io_conn io) \<and>
    io_shutdown io' = io_shutdown io"
proof -
  have inv: "io_inv io" and st: "cn_state (io_conn io) = kConnected" and out: "out_bytes io = []"
    and ev: "ch_events (conn_chan io) AND kWriteEvent = 0"
    using assms by (simp_all add: idle_conn_def)
  obtain io1 where io1: "channel_isWriting io = Inr (False, io1)" "io_inv io1" "io_conn io1 = io_conn io"
      "io_wire io1 = io_wire io" "io_shutdown io1 = io_shutdown io" "conn_chan io1 = (conn_chan io)\<lparr>ch_events := 0\<rparr>"
    using channel_isWriting_ok [OF inv] ev by auto
  let ?io' = "io1\<lparr>io_wire := io_wire io @ data\<rparr>"
  have "sendInLoop (\<lambda>s. Inr (length s)) data io = Inr ?io'"
    using st io1 readable_empty [OF inv out] by (simp add: sendInLoop_def Let_def try_write_def)
  moreover have "idle_conn ?io'"
    using io1 st out by (simp add: idle_conn_def io_inv_def out_bytes_def conn_chan_def)
  ultimately show ?thesis using io1 by (intro exI [of _ ?io']) simp
qed

lemma shutdown_idle:
  assumes "idle_conn io"
  shows "\<exists>io'. shutdown io = Inr io' \<and> io_inv io' \<and> cn_state (io_conn io') = kDisConnecting \<and> io_shutdown io' \<and>
    io_wire io' = io_wire io \<and> cn_inputBuffer (io_conn io') = cn_inputBuffer (io_conn io)"
proof -
  have "io_inv (setState kDisConnecting io)" using assms by (simp add: idle_conn_def)
  with channel_isWriting_ok [OF this] obtain io1 where io1:
      "channel_isWriting (setState kDisConnecting io) = Inr (False, io1)" "io_inv io1"
      "io_conn io1 = io_conn (setState kDisConnecting io)" "io_wire io1 = io_wire io"
    using assms by (auto simp: idle_conn_def)
  let ?io' = "io1\<lparr>io_shutdown := True\<rparr>"
  have "shutdown io = Inr ?io'" using assms io1(1) by (simp add: shutdown_def shutdownInLoop_def idle_conn_def)
  moreover have "io_inv ?io'" using io1(2) by (simp add: io_inv_def)
  ultimately show ?thesis using io1 by (intro exI [of _ ?io']) (simp add: setState_def)
qed

lemma onRequest_ok:
  fixes req :: http_request and http_cb :: "http_request \<Rightarrow> http_response \<Rightarrow> http_response"
  defines "resp \<equiv> http_cb req (HttpResponse_ctor (wants_close req))"
  assumes "idle_conn io" and "length (concat (response_pieces resp)) < 2 ^ 31"
  shows "\<exists>io'. onRequest (\<lambda>s. Inr (length s)) http_cb req io = Inr io' \<and> io_inv io' \<and>
    io_wire io' = io_wire io @ concat (response_pieces resp) \<and>
    cn_inputBuffer (io_conn io') = cn_inputBuffer (io_conn io) \<and>
    cn_state (io_conn io') = (if resp_closeConnection resp then kDisConnecting else kConnected) \<and>
    io_shutdown io' = (resp_closeConnection resp \<or> io_shutdown io)"
proof -
  let ?bs = "concat (response_pieces resp)"
  obtain b where b: "Buffer_ctor kInitialSize = Inr b" "buf_wf b" "contents b = []" "m_writerIndex b = kCheapPrepend"
    using Buffer_ctor_ok [of kInitialSize] by (auto simp: buffer_consts)
  have "buf_room (length ?bs) b" using assms(3) b(4) by (simp add: buf_room_def buffer_consts)
  with appendToBuffer_bytes [OF b(2)] b(3) obtain b1 where b1: "appendToBuffer resp b = Inr b1" "contents b1 = ?bs"
    by auto
  obtain io1 where io1: "sendInLoop (\<lambda>s. Inr (length s)) ?bs io = Inr io1" "idle_conn io1"
      "io_wire io1 = io_wire io @ ?bs" "cn_inputBuffer (io_conn io1) = cn_inputBuffer (io_conn io)"
      "io_shutdown io1 = io_shutdown io"
    using sendInLoop_all [OF assms(2)] by blast
  have "send_buffer (\<lambda>s. Inr (length s)) b1 io = Inr (retrieveAll b1, io1)"
    using assms(2) io1(1) b1(2) by (simp add: send_buffer_def idle_conn_def)
  then have run: "onRequest (\<lambda>s. Inr (length s)) http_cb req io =
      (if resp_closeConnection resp then shutdown io1 else Inr io1)"
    using b(1) b1(1) by (simp add: onRequest_def Let_def resp_def)
  show ?thesis
    using run io1 shutdown_idle [OF io1(2)] by (auto simp: idle_conn_def)
qed

lemma connection_names:
  assumes "0 \<le> sv_nextConnId sv" and "sv_nextConnId sv < 2 ^ 31"
  shows "snprintf_buf 64 (''#'' @ dec_int (sv_nextConnId sv)) = ''#'' @ dec_nat (nat (sv_nextConnId sv))"
proof -
  have "nat (sv_nextConnId sv) < 10 ^ 10" using assms by simp
  then have "length (dec_nat (nat (sv_nextConnId sv))) \<le> 10" by (rule length_dec_nat_le) simp
  with assms(1) show ?thesis by (simp add: snprintf_buf_def dec_int_def)
qed

text \<open>The names given so far are pairwise different: each carries its own number below the next one.\<close>

definition names_inv :: "tcp_server \<Rightarrow> bool" where
  "names_inv sv \<longleftrightarrow> 1 \<le> sv_nextConnId sv \<and> sv_nextConnId sv < 2 ^ 31 \<and>
     (\<exists>num. inj_on num (dom (sv_connName sv)) \<and>
       (\<forall>p \<in> dom (sv_connName sv). sv_connName sv p = Some (sv_name sv @ ''#'' @ dec_nat (num p)) \<and>
          int (num p) < sv_nextConnId sv))"

lemma newConnetion_names:
  assumes "names_inv sv" and "sv_nextConnId sv + 1 < 2 ^ 31" and "sv_connName sv p = None"
    and "newConnetion p sv = Inr sv'"
  shows "names_inv sv' \<and> sv_connName sv' p \<notin> sv_connName sv ` dom (sv_connName sv)"
proof -
  let ?k = "nat (sv_nextConnId sv)"
  have pos: "1 \<le> sv_nextConnId sv" "sv_nextConnId sv < 2 ^ 31" using assms(1) by (auto simp: names_inv_def)
  obtain num where num: "inj_on num (dom (sv_connName sv))"
      "\<And>q. q \<in> dom (sv_connName sv) \<Longrightarrow> sv_connName sv q = Some (sv_name sv @ ''#'' @ dec_nat (num q)) \<and>
         int (num q) < sv_nextConnId sv"
    using assms(1) by (auto simp: names_inv_def)
  have sv': "sv_connName sv' = (sv_connName sv)(p \<mapsto> sv_name sv @ ''#'' @ dec_nat ?k)" "sv_name sv' = sv_name sv"
      "sv_nextConnId sv' = sv_nextConnId sv + 1"
    using assms(2,4) pos connection_names [of sv] by (auto simp: newConnetion_def Let_def res_simps)
  have new: "?k \<notin> num ` dom (sv_connName sv)" using num(2) by force
  have dom': "dom (sv_connName sv') = insert p (dom (sv_connName sv))" using sv'(1) by simp
  have "p \<notin> dom (sv_connName sv)" using assms(3) by (simp add: domIff)
  with num(1) new have inj': "inj_on (num(p := ?k)) (dom (sv_connName sv'))"
    unfolding dom' by (simp add: inj_on_fun_updI) blast
  have each: "sv_connName sv' q = Some (sv_name sv' @ ''#'' @ dec_nat ((num(p := ?k)) q)) \<and>
      int ((num(p := ?k)) q) < sv_nextConnId sv'" if "q \<in> dom (sv_connName sv')" for q
    using num(2) [of q] that sv' pos by (cases "q = p") auto
  have "names_inv sv'"
    unfolding names_inv_def
  proof (intro conjI exI ballI)
    show "1 \<le> sv_nextConnId sv'" "sv_nextConnId sv' < 2 ^ 31" using sv'(3) pos assms(2) by simp_all
    show "inj_on (num(p := ?k)) (dom (sv_connName sv'))" by (rule inj')
  qed (use each in blast)+
  moreover have "sv_connName sv' p \<notin> sv_connName sv ` dom (sv_connName sv)"
  proof
    assume "sv_connName sv' p \<in> sv_connName sv ` dom (sv_connName sv)"
    then obtain q where q: "q \<in> dom (sv_connName sv)" "sv_connName sv q = sv_connName sv' p" by force
    with num(2) sv'(1) have "dec_nat (num q) = dec_nat ?k" by auto
    then have "num q = ?k" by (rule dec_nat_inj)
    with q(1) new show False by (metis imageI)
  qed
  ultimately show ?thesis by blast
qed

text \<open>A request becomes complete on an idle connection: what the callback gets, and what is sent.\<close>

lemma onMessage_complete:
  assumes "resp = http_cb req (HttpResponse_ctor (wants_close req))"
    and "hc_context hc = Some c" and "expecting c" and "idle_conn (hc_io hc)"
    and "parse_str t c (contents (cn_inputBuffer (io_conn (hc_io hc)))) = Inr (True, \<lparr>ctx_state = kGotAll, ctx_request = req\<rparr>, rest)"
    and "length (concat (response_pieces resp)) < 2 ^ 31"
  shows "\<exists>hc'. onMessage (\<lambda>s. Inr (length s)) http_cb t hc = Some (Inr hc') \<and>
    io_wire (hc_io hc') = io_wire (hc_io hc) @ concat (response_pieces resp) \<and>
    contents (cn_inputBuffer (io_conn (hc_io hc'))) = rest \<and> hc_context hc' = Some HttpContext_ctor \<and>
    cn_state (io_conn (hc_io hc')) = (if resp_closeConnection resp then kDisConnecting else kConnected) \<and>
    io_shutdown (hc_io hc') = (resp_closeConnection resp \<or> io_shutdown (hc_io hc))"
proof -
  let ?io = "hc_io hc"
  have wf: "buf_wf (cn_inputBuffer (io_conn ?io))" using assms(4) by (simp add: idle_conn_def io_inv_def)
  from parseRequest_refines [OF wf assms(3), of t] assms(5) obtain b where
      b: "parseRequest t c (cn_inputBuffer (io_conn ?io)) =
        Some (Inr (True, \<lparr>ctx_state = kGotAll, ctx_request = req\<rparr>, b))" "buf_wf b" "contents b = rest"
    by auto
  let ?io1 = "set_input b ?io"
  have "idle_conn ?io1"
    using assms(4) b(2) by (simp add: idle_conn_def io_inv_def set_input_def out_bytes_def conn_chan_def)
  from onRequest_ok [OF this, of http_cb req] assms(6) obtain io2 where
      io2: "onRequest (\<lambda>s. Inr (length s)) http_cb req ?io1 = Inr io2"
        "io_wire io2 = io_wire ?io1 @ concat (response_pieces resp)"
        "cn_inputBuffer (io_conn io2) = cn_inputBuffer (io_conn ?io1)"
        "cn_state (io_conn io2) = (if resp_closeConnection resp then kDisConnecting else kConnected)"
        "io_shutdown io2 = (resp_closeConnection resp \<or> io_shutdown ?io1)"
    by (auto simp: assms(1))
  let ?hc = "hc\<lparr>hc_io := io2, hc_context := Some (reset \<lparr>ctx_state = kGotAll, ctx_request = req\<rparr>)\<rparr>"
  have "onMessage (\<lambda>s. Inr (length s)) http_cb t hc = Some (Inr ?hc)"
    using assms(2) b(1) io2(1) by (simp add: onMessage_def gotAll_def)
  with io2 b(3) show ?thesis
    by (intro exI [of _ ?hc]) (simp add: set_input_def reset_def HttpContext_ctor_def swap_requests_def HttpRequest_ctor_def)
qed

lemma onMessage_request:
  assumes "req = r\<lparr>req_receiveTime := t, req_headers := add_headers hs []\<rparr>"
    and "resp = http_cb req (HttpResponse_ctor (wants_close req))"
    and "hc_context hc = Some HttpContext_ctor" and "idle_conn (hc_io hc)"
    and "request_ok r" and "list_all header_ok hs"
    and "contents (cn_inputBuffer (io_conn (hc_io hc))) = render_request r hs @ rest"
    and "length (concat (response_pieces resp)) < 2 ^ 31"
  shows "\<exists>hc'. onMessage (\<lambda>s. Inr (length s)) http_cb t hc = Some (Inr hc') \<and>
    io_wire (hc_io hc') = io_wire (hc_io hc) @ concat (response_pieces resp) \<and>
    contents (cn_inputBuffer (io_conn (hc_io hc'))) = rest \<and> hc_context hc' = Some HttpContext_ctor \<and>
    cn_state (io_conn (hc_io hc')) = (if resp_closeConnection resp then kDisConnecting else kConnected) \<and>
    io_shutdown (hc_io hc') = (resp_closeConnection resp \<or> io_shutdown (hc_io hc))"
proof (rule onMessage_complete [where http_cb = http_cb, OF assms(2,3) _ assms(4) _ assms(8)])
  show "expecting HttpContext_ctor" by (simp add: HttpContext_ctor_def)
  show "parse_str t HttpContext_ctor (contents (cn_inputBuffer (io_conn (hc_io hc)))) =
      Inr (True, \<lparr>ctx_state = kGotAll, ctx_request = req\<rparr>, rest)"
    unfolding assms(7,1) by (rule parse_str_written [OF assms(5,6)]) (simp_all add: HttpContext_ctor_def)
qed

section \<open>Properties\<close>


text \<open>A connection that has received a whole request and the beginning of another.\<close>

definition request_bytes :: string where
  "request_bytes = render_request sample_request [(''Host'', ''a'')] @ ''GET''"

definition waiting_conn :: http_conn where
  "waiting_conn = \<lparr>hc_io = set_input \<lparr>m_buffer = replicate 8 (CHR 0x00) @ request_bytes, m_readerIndex = 8,
     m_writerIndex = 8 + length request_bytes\<rparr> sample_io, hc_context = Some HttpContext_ctor\<rparr>"

definition hello_cb :: "http_request \<Rightarrow> http_response \<Rightarrow> http_response" where
  "hello_cb req resp = setBody (req_path req) (setStatusMessage ''OK'' (setStatusCode k200Ok resp))"


text \<open>A malformed request line is answered with 400. When the first line in the input buffer is rejected,
  \<open>onMessage\<close> sends the 400 response and shuts the write side down, and leaves the input buffer as it is.\<close>

theorem bad_request_answered:
  assumes "hc_context hc = Some HttpContext_ctor" and "idle_conn (hc_io hc)"
    and "parse_str t HttpContext_ctor (contents (cn_inputBuffer (io_conn (hc_io hc)))) = Inr (False, ctx, rest)"
  shows "\<exists>hc'. onMessage (\<lambda>s. Inr (length s)) http_cb t hc = Some (Inr hc') \<and>
    io_wire (hc_io hc') = io_wire (hc_io hc) @ ''HTTP/1.1 400 Bad Request'' @ kCRLF @ kCRLF \<and>
    cn_state (io_conn (hc_io hc')) = kDisConnecting \<and> io_shutdown (hc_io hc') \<and>
    contents (cn_inputBuffer (io_conn (hc_io hc'))) = contents (cn_inputBuffer (io_conn (hc_io hc)))"
proof -
  let ?io = "hc_io hc" and ?in = "contents (cn_inputBuffer (io_conn (hc_io hc)))"
  have wf: "buf_wf (cn_inputBuffer (io_conn ?io))" using assms(2) by (simp add: idle_conn_def io_inv_def)
  have rest: "rest = ?in" "\<not> gotAll ctx"
    using assms(3) by (auto simp: parse_str_def HttpContext_ctor_def bind_res_eq_Inr gotAll_def split: if_splits option.splits)
  from parseRequest_refines [OF wf, of HttpContext_ctor t] assms(3) obtain b where
      b: "parseRequest t HttpContext_ctor (cn_inputBuffer (io_conn ?io)) = Some (Inr (False, ctx, b))" "buf_wf b"
        "contents b = ?in"
    by (auto simp: HttpContext_ctor_def rest)
  let ?io1 = "set_input b ?io"
  have idle1: "idle_conn ?io1"
    using assms(2) b(2) by (simp add: idle_conn_def io_inv_def set_input_def out_bytes_def conn_chan_def)
  obtain io2 where io2: "send (\<lambda>s. Inr (length s)) bad_request ?io1 = Inr io2" "idle_conn io2"
      "io_wire io2 = io_wire ?io @ bad_request" "cn_inputBuffer (io_conn io2) = b"
    using sendInLoop_all [OF idle1, of bad_request] idle1 by (auto simp: send_def idle_conn_def set_input_def)
  from shutdown_idle [OF io2(2)] obtain io3 where io3: "shutdown io2 = Inr io3" "cn_state (io_conn io3) = kDisConnecting"
      "io_shutdown io3" "io_wire io3 = io_wire io2" "cn_inputBuffer (io_conn io3) = cn_inputBuffer (io_conn io2)"
    by blast
  let ?hc = "hc\<lparr>hc_io := io3, hc_context := Some ctx\<rparr>"
  have "onMessage (\<lambda>s. Inr (length s)) http_cb t hc = Some (Inr ?hc)"
    using assms(1) b(1) io2(1) io3(1) rest(2) by (simp add: onMessage_def)
  with io2 io3 b(3) show ?thesis by (intro exI [of _ ?hc]) (simp add: bad_request_def)
qed

definition bad_conn :: http_conn where
  "bad_conn = \<lparr>hc_io = set_input \<lparr>m_buffer = replicate 8 (CHR 0x00) @ ''X'' @ kCRLF, m_readerIndex = 8,
     m_writerIndex = 11\<rparr> sample_io, hc_context = Some HttpContext_ctor\<rparr>"

theorem bad_request_answered_witness:
  "\<exists>hc'. onMessage (\<lambda>s. Inr (length s)) hello_cb 0 bad_conn = Some (Inr hc') \<and>
    io_wire (hc_io hc') = ''HTTP/1.1 400 Bad Request'' @ kCRLF @ kCRLF \<and> io_shutdown (hc_io hc')"
proof -
  let ?b = "\<lparr>m_buffer = replicate 8 (CHR 0x00) @ ''X'' @ kCRLF, m_readerIndex = 8, m_writerIndex = 11\<rparr>"
  have b: "buf_wf ?b" "contents ?b = ''X'' @ kCRLF"
    by (simp_all add: buf_wf_def contents_alt kCheapPrepend_def vector_max_size_def kCRLF_def)
  have idle: "idle_conn (hc_io bad_conn)"
    using sample_io_facts(1,2,5,6) b(1)
    by (simp add: idle_conn_def bad_conn_def io_inv_def set_input_def out_bytes_def conn_chan_def kWriteEvent_def EVENTOUT_def)
  have wire: "io_wire (hc_io bad_conn) = []" by (simp add: bad_conn_def set_input_def sample_io_facts)
  have ctx: "hc_context bad_conn = Some HttpContext_ctor" by (simp add: bad_conn_def)
  have inp: "contents (cn_inputBuffer (io_conn (hc_io bad_conn))) = ''X'' @ kCRLF"
    using b(2) by (simp add: bad_conn_def set_input_def)
  have "parse_str 0 HttpContext_ctor (''X'' @ kCRLF) = Inr (False, HttpContext_ctor, ''X'' @ kCRLF)" by code_simp
  with inp have "parse_str 0 HttpContext_ctor (contents (cn_inputBuffer (io_conn (hc_io bad_conn)))) =
      Inr (False, HttpContext_ctor, ''X'' @ kCRLF)" by simp
  from bad_request_answered [OF ctx idle this, of hello_cb] wire show ?thesis by auto
qed

text \<open>Connection names are unique. In a server whose counter has not reached the end of the range of \<open>int\<close>,
  a new connection gets a name that no connection of the server, present or past, has.\<close>

theorem connection_name_fresh:
  assumes "names_inv sv" and "sv_nextConnId sv + 1 < 2 ^ 31" and "sv_connName sv p = None"
    and "newConnetion p sv = Inr sv'"
  shows "names_inv sv' \<and> (\<forall>q. q \<noteq> p \<longrightarrow> sv_connName sv' q \<noteq> sv_connName sv' p) \<and>
    p \<in> set (sv_connectionsSet sv')"
proof -
  have "sv_connName sv' = (sv_connName sv)(p := sv_connName sv' p)" "sv_connName sv' p \<noteq> None"
      "p \<in> set (sv_connectionsSet sv')"
    using assms(4) by (auto simp: newConnetion_def Let_def res_simps)
  then show ?thesis
    using newConnetion_names [OF assms] by (metis (no_types, lifting) domIff fun_upd_apply image_eqI)
qed

definition started_server :: tcp_server where
  "started_server = (TcpServer_ctor 1 ''S'')\<lparr>sv_pool := (EventLoopThreadPool_ctor 1 ''S'' 3)\<lparr>tp_started := True,
     tp_loops := [10, 11, 12]\<rparr>\<rparr>"

theorem connection_name_fresh_witness:
  "\<exists>sv'. newConnetion 77 started_server = Inr sv' \<and> names_inv sv' \<and> 77 \<in> set (sv_connectionsSet sv')"
proof -
  have inv: "names_inv started_server" by (simp add: names_inv_def started_server_def TcpServer_ctor_def)
  have small: "sv_nextConnId started_server + 1 < 2 ^ 31" "sv_connName started_server 77 = None"
    by (simp_all add: started_server_def TcpServer_ctor_def)
  obtain sv' where sv': "newConnetion 77 started_server = Inr sv'"
    by (auto simp: newConnetion_def started_server_def TcpServer_ctor_def EventLoopThreadPool_ctor_def getNextLoop_def Let_def)
  with connection_name_fresh [OF inv small sv'] show ?thesis by blast
qed



end
