(* ===== verification/TA_TimerQueue.thy ===== *)
theory TA_TimerQueue
  imports Complex_Main TA_Format
begin

text \<open>
  Timers (\<open>src/common/TimeStamp.h\<close>, \<open>TimeStamp.cpp\<close>, \<open>src/Reactor/Timer.h\<close>, \<open>Timer.cpp\<close>,
  \<open>TimerQueue.h\<close>, \<open>TimerQueue.cpp\<close>). Timer objects live in an explicit heap, because the queue stores
  raw pointers, deletes objects and orders its sets by address; an access through a pointer that is
  not live is a fault. The model runs in the loop's thread, where \<open>runInLoop\<close> calls its argument at
  once.

  Parameters: \<open>alloc\<close> is \<open>operator new\<close> (\<open>None\<close> when it throws), \<open>clock n\<close> is the \<open>n\<close>-th reading of
  \<open>gettimeofday\<close> in microseconds, and \<open>body c\<close> the list of calls the user callback \<open>c\<close> makes on the
  queue. An interval is a \<open>double\<close> in seconds in the source, here a rational; the rounding of the
  product with \<open>10 ^ 6\<close> is not modelled, its truncation to an integer is.
\<close>

section \<open>Time stamps\<close>

text \<open>A \<open>TimeStamp\<close> is its number of microseconds since the epoch.\<close>

definition kMicroSecondsPerSecond :: int where
  "kMicroSecondsPerSecond = 1000 * 1000"

definition valid_stamp :: "int \<Rightarrow> bool" where
  "valid_stamp t \<longleftrightarrow> 0 < t"

text \<open>\<open>static_cast<int64_t>\<close> of a floating point number truncates towards zero.\<close>

definition trunc_rat :: "rat \<Rightarrow> int" where
  "trunc_rat q = (if q < 0 then - \<lfloor>- q\<rfloor> else \<lfloor>q\<rfloor>)"

definition addTime :: "int \<Rightarrow> rat \<Rightarrow> int" where
  "addTime t seconds = t + trunc_rat (seconds * of_int kMicroSecondsPerSecond)"

text \<open>\<open>toString\<close>, on a time stamp not before the epoch (31 bytes hold every such string).\<close>

definition stamp_toString :: "nat \<Rightarrow> string" where
  "stamp_toString t =
     snprintf_buf 31 (dec_nat (t div 1000000) @ ''.'' @ pad_with (CHR ''0'') 6 (dec_nat (t mod 1000000)))"

text \<open>The value of a \<open>struct timespec\<close> armed in the timer descriptor: at least 100 microseconds.\<close>

definition howMuchTimeFromNow :: "int \<Rightarrow> int \<Rightarrow> int \<times> int" where
  "howMuchTimeFromNow now when =
     (let d = when - now; microseconds = (if d < 100 then 100 else d)
      in (microseconds div kMicroSecondsPerSecond, (microseconds mod kMicroSecondsPerSecond) * 1000))"

section \<open>Timers and the queue\<close>

record timer =
  tm_callBack :: nat
  tm_expiration :: int
  tm_interval :: rat
  tm_repeat :: bool
  tm_sequence :: int

type_synonym timer_entry = "int \<times> nat"
type_synonym active_timer = "nat \<times> int"

record timer_queue =
  tq_heap :: "nat \<rightharpoonup> timer"
  m_timers :: "timer_entry list"
  m_activeTimers :: "active_timer list"
  m_callingExpiredTimers :: bool
  m_cancelingTimers :: "active_timer list"
  tq_numCreated :: int
  tq_clockReads :: nat
  tq_timerfd :: "(int \<times> int \<times> int) option"
  tq_fired :: "nat list"

definition UINTPTR_MAX :: nat where
  "UINTPTR_MAX = 2 ^ 64 - 1"

definition TimerQueue_ctor :: timer_queue where
  "TimerQueue_ctor = \<lparr>tq_heap = Map.empty, m_timers = [], m_activeTimers = [], m_callingExpiredTimers = False,
     m_cancelingTimers = [], tq_numCreated = 0, tq_clockReads = 0, tq_timerfd = None, tq_fired = []\<rparr>"

definition Timer_ctor :: "nat \<Rightarrow> int \<Rightarrow> rat \<Rightarrow> int \<Rightarrow> timer" where
  "Timer_ctor cb when interval seq = \<lparr>tm_callBack = cb, tm_expiration = when, tm_interval = interval,
     tm_repeat = (0 < interval), tm_sequence = seq\<rparr>"

definition restart :: "int \<Rightarrow> timer \<Rightarrow> timer" where
  "restart now t = t\<lparr>tm_expiration := (if tm_repeat t then addTime now (tm_interval t) else 0)\<rparr>"

text \<open>Access through a \<open>Timer*\<close>.\<close>

definition timer_at :: "nat \<Rightarrow> timer_queue \<Rightarrow> timer res" where
  "timer_at p q = (case tq_heap q p of Some t \<Rightarrow> Inr t | None \<Rightarrow> Inl (if p = 0 then NullDeref else Dangling))"

definition now_reading :: "(nat \<Rightarrow> int) \<Rightarrow> timer_queue \<Rightarrow> int \<times> timer_queue" where
  "now_reading clock q = (clock (tq_clockReads q), q\<lparr>tq_clockReads := Suc (tq_clockReads q)\<rparr>)"

definition resetTimerfd :: "(nat \<Rightarrow> int) \<Rightarrow> int \<Rightarrow> timer_queue \<Rightarrow> timer_queue" where
  "resetTimerfd clock expiration q =
     (let (now, q1) = now_reading clock q
      in q1\<lparr>tq_timerfd := Some (now, howMuchTimeFromNow now expiration)\<rparr>)"

abbreviation size_assert :: string where
  "size_assert \<equiv> ''m_timers.size() == m_activeTimers.size()''"

abbreviation sizes_equal :: "timer_queue \<Rightarrow> bool" where
  "sizes_equal q \<equiv> length (m_timers q) = length (m_activeTimers q)"

definition insert_timer :: "nat \<Rightarrow> timer_queue \<Rightarrow> (bool \<times> timer_queue) res" where
  "insert_timer p q =
     cassert (sizes_equal q) size_assert
       (bind_res (timer_at p q) (\<lambda>t.
          let when = tm_expiration t;
              earliestChanged = (case m_timers q of [] \<Rightarrow> True | e # es \<Rightarrow> when < fst e)
          in cassert (oset_count (when, p) (m_timers q) = 0) ''result.second''
            (cassert (oset_count (p, tm_sequence t) (m_activeTimers q) = 0) ''result.second''
              (let q1 = q\<lparr>m_timers := oset_insert (when, p) (m_timers q),
                          m_activeTimers := oset_insert (p, tm_sequence t) (m_activeTimers q)\<rparr>
               in cassert (sizes_equal q1) size_assert (Inr (earliestChanged, q1))))))"

definition addTimerInLoop :: "(nat \<Rightarrow> int) \<Rightarrow> nat \<Rightarrow> timer_queue \<Rightarrow> timer_queue res" where
  "addTimerInLoop clock p q =
     bind_res (insert_timer p q) (\<lambda>(earliestChanged, q1).
       if earliestChanged
       then bind_res (timer_at p q1) (\<lambda>t. Inr (resetTimerfd clock (tm_expiration t) q1))
       else Inr q1)"

definition addTimer :: "((nat \<rightharpoonup> timer) \<Rightarrow> nat option) \<Rightarrow> (nat \<Rightarrow> int) \<Rightarrow> nat \<Rightarrow> int \<Rightarrow> rat \<Rightarrow>
    timer_queue \<Rightarrow> (active_timer \<times> timer_queue) res" where
  "addTimer alloc clock cb when interval q =
     (case alloc (tq_heap q) of
        None \<Rightarrow> Inl (Aborted ''std::bad_alloc'')
      | Some p \<Rightarrow>
          (let seq = tq_numCreated q + 1;
               q1 = q\<lparr>tq_numCreated := seq, tq_heap := (tq_heap q)(p \<mapsto> Timer_ctor cb when interval seq)\<rparr>
           in bind_res (addTimerInLoop clock p q1) (\<lambda>q2. Inr ((p, seq), q2))))"

definition cancelInLoop :: "active_timer \<Rightarrow> timer_queue \<Rightarrow> timer_queue res" where
  "cancelInLoop tid q =
     cassert (sizes_equal q) size_assert
       (bind_res
          (if tid \<in> set (m_activeTimers q)
           then bind_res (timer_at (fst tid) q) (\<lambda>t.
                  let n = oset_count (tm_expiration t, fst tid) (m_timers q)
                  in cassert (n = 1) ''n == 1''
                    (Inr (q\<lparr>m_timers := oset_erase (tm_expiration t, fst tid) (m_timers q),
                            tq_heap := (tq_heap q)(fst tid := None)\<rparr>)))
           else if m_callingExpiredTimers q
           then Inr (q\<lparr>m_cancelingTimers := oset_insert tid (m_cancelingTimers q)\<rparr>)
           else Inr q)
          (\<lambda>q1. cassert (sizes_equal q1) size_assert (Inr q1)))"

definition erase_active :: "timer_entry \<Rightarrow> timer_queue \<Rightarrow> timer_queue res" where
  "erase_active e q =
     bind_res (timer_at (snd e) q) (\<lambda>t.
       let a = (snd e, tm_sequence t)
       in cassert (oset_count a (m_activeTimers q) = 1) ''n == 1''
         (Inr (q\<lparr>m_activeTimers := oset_erase a (m_activeTimers q)\<rparr>)))"

text \<open>\<open>lower_bound(sentry)\<close> splits the ordered set at the first entry that is not below the sentry.\<close>

definition getExpired :: "int \<Rightarrow> timer_queue \<Rightarrow> (timer_entry list \<times> timer_queue) res" where
  "getExpired now q =
     (let sentry = (now, UINTPTR_MAX);
          expired = takeWhile (\<lambda>e. e < sentry) (m_timers q);
          rest = dropWhile (\<lambda>e. e < sentry) (m_timers q)
      in cassert (rest = [] \<or> now < fst (hd rest)) ''it == m_timers.end() || now < it->first''
        (bind_res (fold_res erase_active expired (q\<lparr>m_timers := rest\<rparr>)) (\<lambda>q1.
           cassert (sizes_equal q1) size_assert (Inr (expired, q1)))))"

text \<open>The calls a user callback makes on the queue, in the loop's thread.\<close>

datatype queue_call = AddTimerCall nat int rat | CancelCall nat int

fun exec_call :: "((nat \<rightharpoonup> timer) \<Rightarrow> nat option) \<Rightarrow> (nat \<Rightarrow> int) \<Rightarrow> queue_call \<Rightarrow> timer_queue \<Rightarrow> timer_queue res" where
  "exec_call alloc clock (AddTimerCall cb when interval) q =
     bind_res (addTimer alloc clock cb when interval q) (\<lambda>(tid, q'). Inr q')"
| "exec_call alloc clock (CancelCall p seq) q = cancelInLoop (p, seq) q"

definition run_timer :: "((nat \<rightharpoonup> timer) \<Rightarrow> nat option) \<Rightarrow> (nat \<Rightarrow> int) \<Rightarrow> (nat \<Rightarrow> queue_call list) \<Rightarrow>
    timer_entry \<Rightarrow> timer_queue \<Rightarrow> timer_queue res" where
  "run_timer alloc clock body e q =
     bind_res (timer_at (snd e) q) (\<lambda>t.
       fold_res (exec_call alloc clock) (body (tm_callBack t)) (q\<lparr>tq_fired := tq_fired q @ [tm_callBack t]\<rparr>))"

definition reset_entry :: "int \<Rightarrow> timer_entry \<Rightarrow> timer_queue \<Rightarrow> timer_queue res" where
  "reset_entry now e q =
     bind_res (timer_at (snd e) q) (\<lambda>t.
       if tm_repeat t \<and> (snd e, tm_sequence t) \<notin> set (m_cancelingTimers q)
       then bind_res (insert_timer (snd e) (q\<lparr>tq_heap := (tq_heap q)(snd e \<mapsto> restart now t)\<rparr>))
              (\<lambda>(c, q1). Inr q1)
       else Inr (q\<lparr>tq_heap := (tq_heap q)(snd e := None)\<rparr>))"

definition reset_expired :: "(nat \<Rightarrow> int) \<Rightarrow> timer_entry list \<Rightarrow> int \<Rightarrow> timer_queue \<Rightarrow> timer_queue res" where
  "reset_expired clock expired now q =
     bind_res (fold_res (reset_entry now) expired q) (\<lambda>q1.
     bind_res (case m_timers q1 of [] \<Rightarrow> Inr 0
               | e # es \<Rightarrow> bind_res (timer_at (snd e) q1) (\<lambda>t. Inr (tm_expiration t))) (\<lambda>nextExpire.
     if valid_stamp nextExpire then Inr (resetTimerfd clock nextExpire q1) else Inr q1))"

definition handleRead :: "((nat \<rightharpoonup> timer) \<Rightarrow> nat option) \<Rightarrow> (nat \<Rightarrow> int) \<Rightarrow> (nat \<Rightarrow> queue_call list) \<Rightarrow>
    timer_queue \<Rightarrow> timer_queue res" where
  "handleRead alloc clock body q =
     (let (now, q0) = now_reading clock q
      in bind_res (getExpired now q0) (\<lambda>(expired, q1).
         bind_res (fold_res (run_timer alloc clock body) expired
                     (q1\<lparr>m_callingExpiredTimers := True, m_cancelingTimers := []\<rparr>)) (\<lambda>q2.
         reset_expired clock expired now (q2\<lparr>m_callingExpiredTimers := False\<rparr>))))"

definition alloc_ok :: "((nat \<rightharpoonup> timer) \<Rightarrow> nat option) \<Rightarrow> bool" where
  "alloc_ok alloc \<longleftrightarrow> (\<forall>h p. alloc h = Some p \<longrightarrow> h p = None \<and> 0 < p \<and> p < UINTPTR_MAX)"

section \<open>Invariant\<close>

text \<open>The identity under which an entry of \<open>m_timers\<close> is in \<open>m_activeTimers\<close>.\<close>

definition active_of :: "(nat \<rightharpoonup> timer) \<Rightarrow> timer_entry \<Rightarrow> active_timer" where
  "active_of h e = (snd e, tm_sequence (the (h (snd e))))"

text \<open>\<open>held\<close> are the timers taken out of the sets by \<open>getExpired\<close> and not yet put back or deleted. Both sets are
  ordered and hold the same timers, each entry carries the expiration of its live timer, and every live
  timer is in the sets or held: nothing dangles and nothing leaks.\<close>

definition tq_inv :: "nat set \<Rightarrow> timer_queue \<Rightarrow> bool" where
  "tq_inv held q \<longleftrightarrow>
     oset_wf (m_timers q) \<and> oset_wf (m_activeTimers q) \<and>
     (\<forall>e \<in> set (m_timers q). map_option tm_expiration (tq_heap q (snd e)) = Some (fst e)) \<and>
     set (m_activeTimers q) = active_of (tq_heap q) ` set (m_timers q) \<and>
     dom (tq_heap q) = snd ` set (m_timers q) \<union> held \<and> snd ` set (m_timers q) \<inter> held = {} \<and>
     (\<forall>p t. tq_heap q p = Some t \<longrightarrow> 0 < p \<and> p < UINTPTR_MAX \<and> tm_repeat t = (0 < tm_interval t))"

definition tq_wf :: "timer_queue \<Rightarrow> bool" where
  "tq_wf q \<longleftrightarrow> tq_inv {} q \<and> \<not> m_callingExpiredTimers q"

text \<open>The timer descriptor is armed for the earliest expiration.\<close>

definition armed_for :: "int \<Rightarrow> timer_queue \<Rightarrow> bool" where
  "armed_for e q \<longleftrightarrow>
     (case tq_timerfd q of None \<Rightarrow> False | Some (now, spec) \<Rightarrow> spec = howMuchTimeFromNow now e)"

definition armed_first :: "timer_queue \<Rightarrow> bool" where
  "armed_first q \<longleftrightarrow> m_timers q = [] \<or> armed_for (fst (hd (m_timers q))) q"

definition armed_if_past :: "timer_queue \<Rightarrow> bool" where
  "armed_if_past q \<longleftrightarrow> m_timers q = [] \<or> 0 < fst (hd (m_timers q)) \<or> armed_for (fst (hd (m_timers q))) q"

text \<open>The faults an operation may end in: the size assertion after a cancellation, and exhausted memory.\<close>

definition queue_fault :: "fault \<Rightarrow> bool" where
  "queue_fault e \<longleftrightarrow> e = AssertFailed size_assert \<or> e = Aborted ''std::bad_alloc''"

section \<open>Lemmas\<close>

lemma tq_invD:
  assumes "tq_inv X q"
  shows "oset_wf (m_timers q)" "oset_wf (m_activeTimers q)"
    "set (m_activeTimers q) = active_of (tq_heap q) ` set (m_timers q)"
    "dom (tq_heap q) = snd ` set (m_timers q) \<union> X" "snd ` set (m_timers q) \<inter> X = {}"
  using assms by (simp_all add: tq_inv_def)

lemma tq_inv_entry:
  "tq_inv X q \<Longrightarrow> (e, p) \<in> set (m_timers q) \<Longrightarrow> \<exists>t. tq_heap q p = Some t \<and> tm_expiration t = e"
  by (force simp: tq_inv_def)

lemma tq_inv_held: "tq_inv X q \<Longrightarrow> p \<in> X \<Longrightarrow> \<exists>t. tq_heap q p = Some t"
  using tq_invD(4) [of X q] by blast

lemma tq_inv_live:
  "tq_inv X q \<Longrightarrow> tq_heap q p = Some t \<Longrightarrow> 0 < p \<and> p < UINTPTR_MAX \<and> tm_repeat t = (0 < tm_interval t)"
  by (auto simp: tq_inv_def)

lemma inj_snd_timers: "tq_inv X q \<Longrightarrow> inj_on snd (set (m_timers q))"
  by (rule inj_onI) (metis option.inject prod.collapse tq_inv_entry)

lemma inj_active_of: "tq_inv X q \<Longrightarrow> inj_on (active_of (tq_heap q)) (set (m_timers q))"
  using inj_snd_timers [of X q] by (auto simp: inj_on_def active_of_def)

lemma tq_inv_sizes: "tq_inv X q \<Longrightarrow> sizes_equal q"
  using tq_invD(1,2,3) [of X q] inj_active_of [of X q]
  by (metis card_image distinct_card oset_wf_distinct)

lemma timer_at_live: "tq_heap q p = Some t \<Longrightarrow> timer_at p q = Inr t"
  by (simp add: timer_at_def)

lemma entry_below_sentry: "p < UINTPTR_MAX \<Longrightarrow> (e :: int, p) < (now, UINTPTR_MAX) \<longleftrightarrow> e \<le> now"
  by (auto simp: less_prod_def)

lemma tq_inv_frame:
  assumes "tq_heap q' = tq_heap q" and "m_timers q' = m_timers q" and "m_activeTimers q' = m_activeTimers q"
  shows "tq_inv X q' \<longleftrightarrow> tq_inv X q"
  using assms by (simp add: tq_inv_def)

text \<open>A change of a held timer, and its deletion.\<close>

lemma active_of_upd: "p \<notin> snd ` A \<Longrightarrow> active_of (h(p := x)) ` A = active_of h ` A"
  by (rule image_cong) (auto simp: active_of_def)

lemma tq_inv_update_held:
  assumes "tq_inv X q" and "p \<notin> snd ` set (m_timers q)" and "0 < p" and "p < UINTPTR_MAX"
    and "tm_repeat t = (0 < tm_interval t)"
  shows "tq_inv (insert p X) (q\<lparr>tq_heap := (tq_heap q)(p \<mapsto> t)\<rparr>)"
proof -
  have ne: "snd e \<noteq> p" if "e \<in> set (m_timers q)" for e using assms(2) that by auto
  show ?thesis
    using assms ne active_of_upd [OF assms(2), of "tq_heap q" "Some t"]
    by (auto simp: tq_inv_def)
qed

lemma tq_inv_delete_held:
  assumes "tq_inv X q" and "p \<in> X"
  shows "tq_inv (X - {p}) (q\<lparr>tq_heap := (tq_heap q)(p := None)\<rparr>)"
proof -
  have p: "p \<notin> snd ` set (m_timers q)" using assms tq_invD(5) by blast
  then have ne: "snd e \<noteq> p" if "e \<in> set (m_timers q)" for e using that by auto
  show ?thesis
    using assms ne active_of_upd [OF p, of "tq_heap q" None]
    by (auto simp: tq_inv_def)
qed

lemma insert_timer_ok:
  assumes "tq_inv X q" and "p \<in> X" and "tq_heap q p = Some t"
  defines "q1 \<equiv> q\<lparr>m_timers := oset_insert (tm_expiration t, p) (m_timers q),
                   m_activeTimers := oset_insert (p, tm_sequence t) (m_activeTimers q)\<rparr>"
  shows "insert_timer p q =
      Inr (case m_timers q of [] \<Rightarrow> True | e # es \<Rightarrow> tm_expiration t < fst e, q1)"
    and "tq_inv (X - {p}) q1"
proof -
  have p: "p \<notin> snd ` set (m_timers q)" using assms(1,2) tq_invD(5) by blast
  then have new: "(tm_expiration t, p) \<notin> set (m_timers q)" "(p, tm_sequence t) \<notin> set (m_activeTimers q)"
    using tq_invD(3) [OF assms(1)] by (force simp: active_of_def)+
  show inv: "tq_inv (X - {p}) q1"
    using assms(1-3) p by (auto simp: tq_inv_def q1_def active_of_def)
  show "insert_timer p q = Inr (case m_timers q of [] \<Rightarrow> True | e # es \<Rightarrow> tm_expiration t < fst e, q1)"
    using tq_inv_sizes [OF assms(1)] tq_inv_sizes [OF inv] new assms(3)
    by (simp add: insert_timer_def timer_at_live oset_count_def Let_def q1_def)
qed

lemma oset_insert_ne [simp]: "oset_insert x xs \<noteq> []"
  by (cases xs) auto

lemma hd_oset_insert: "hd (oset_insert x xs) = (if xs = [] then x else min x (hd xs))"
  by (cases xs) (auto simp: min_def)

lemma fst_hd_insert:
  "fst (hd (oset_insert (e, p) xs)) = (if xs = [] then e else min e (fst (hd xs)))"
  by (cases xs) (auto simp: hd_oset_insert min_def less_eq_prod_def)

text \<open>Adding a timer: the invariant, and arming for a new earliest expiration.\<close>

lemma armed_for_set [simp]: "armed_for e (resetTimerfd clock e q)"
  by (simp add: armed_for_def resetTimerfd_def now_reading_def)

lemma armed_for_frame: "tq_timerfd q' = tq_timerfd q \<Longrightarrow> armed_for e q' = armed_for e q"
  by (simp add: armed_for_def)

lemma m_timers_resetTimerfd [simp]:
  "m_timers (resetTimerfd clock e q) = m_timers q" "tq_heap (resetTimerfd clock e q) = tq_heap q"
  "m_activeTimers (resetTimerfd clock e q) = m_activeTimers q"
  "m_callingExpiredTimers (resetTimerfd clock e q) = m_callingExpiredTimers q"
  "m_cancelingTimers (resetTimerfd clock e q) = m_cancelingTimers q"
  "tq_fired (resetTimerfd clock e q) = tq_fired q"
  by (simp_all add: resetTimerfd_def now_reading_def)

lemma addTimer_ok:
  assumes "tq_inv X q" and "alloc_ok alloc" and "alloc (tq_heap q) = Some p"
  shows "\<exists>q'. addTimer alloc clock cb wh interval q = Inr ((p, tq_numCreated q + 1), q') \<and> tq_inv X q' \<and>
    m_timers q' = oset_insert (wh, p) (m_timers q) \<and>
    tq_heap q' = (tq_heap q)(p \<mapsto> Timer_ctor cb wh interval (tq_numCreated q + 1)) \<and>
    (m_timers q = [] \<or> wh < fst (hd (m_timers q)) \<longrightarrow> armed_first q') \<and>
    (m_timers q \<noteq> [] \<and> fst (hd (m_timers q)) \<le> wh \<longrightarrow> tq_timerfd q' = tq_timerfd q) \<and>
    m_callingExpiredTimers q' = m_callingExpiredTimers q \<and> m_cancelingTimers q' = m_cancelingTimers q \<and>
    tq_fired q' = tq_fired q"
proof -
  let ?t = "Timer_ctor cb wh interval (tq_numCreated q + 1)"
  define q1 where "q1 = q\<lparr>tq_numCreated := tq_numCreated q + 1, tq_heap := (tq_heap q)(p \<mapsto> ?t)\<rparr>"
  have fresh: "tq_heap q p = None" "0 < p" "p < UINTPTR_MAX" using assms(2,3) by (auto simp: alloc_ok_def)
  then have p: "p \<notin> snd ` set (m_timers q) \<union> X" using tq_invD(4) [OF assms(1)] by (auto dest!: equalityD2)
  have "tq_inv (insert p X) (q\<lparr>tq_heap := (tq_heap q)(p \<mapsto> ?t)\<rparr>)"
    by (rule tq_inv_update_held) (use assms(1) p fresh in \<open>auto simp: Timer_ctor_def\<close>)
  then have inv1: "tq_inv (insert p X) q1"
    by (simp add: q1_def tq_inv_def)
  have t: "tq_heap q1 p = Some ?t" "tm_expiration ?t = wh" by (simp_all add: q1_def Timer_ctor_def)
  define q2 where "q2 = q1\<lparr>m_timers := oset_insert (wh, p) (m_timers q1),
                   m_activeTimers := oset_insert (p, tm_sequence ?t) (m_activeTimers q1)\<rparr>"
  have ins: "insert_timer p q1 = Inr (case m_timers q1 of [] \<Rightarrow> True | e # es \<Rightarrow> wh < fst e, q2)"
    and inv2: "tq_inv X q2"
    using insert_timer_ok [OF inv1 insertI1 t(1), unfolded t(2)] p by (simp_all add: q2_def)
  have same: "m_timers q1 = m_timers q" by (simp add: q1_def)
  show ?thesis
  proof (cases "m_timers q = [] \<or> wh < fst (hd (m_timers q))")
    case True
    let ?q' = "resetTimerfd clock wh q2"
    have "insert_timer p q1 = Inr (True, q2)" using ins True same by (auto split: list.splits)
    then have run: "addTimerInLoop clock p q1 = Inr ?q'"
      using t by (simp add: addTimerInLoop_def timer_at_def q2_def)
    have "armed_first ?q'" using True by (auto simp: armed_first_def q2_def same fst_hd_insert)
    moreover have "tq_inv X ?q'" using inv2 by (simp add: tq_inv_def)
    ultimately show ?thesis
      using True run assms(3) by (simp add: addTimer_def Let_def q1_def [symmetric]) (auto simp: q2_def q1_def)
  next
    case False
    then have "insert_timer p q1 = Inr (False, q2)" using ins same by (auto split: list.splits)
    then have "addTimerInLoop clock p q1 = Inr q2" by (simp add: addTimerInLoop_def)
    then show ?thesis
      using False inv2 assms(3) by (simp add: addTimer_def Let_def q1_def [symmetric]) (auto simp: q2_def q1_def)
  qed
qed

text \<open>Cancelling an active timer never gets past the last assertion: the timer leaves \<open>m_timers\<close> but stays in
  \<open>m_activeTimers\<close>.\<close>

lemma cancelInLoop_active:
  assumes "tq_inv X q" and "(p, seq) \<in> set (m_activeTimers q)"
  shows "cancelInLoop (p, seq) q = Inl (AssertFailed size_assert)"
proof -
  obtain e where e: "(e, p) \<in> set (m_timers q)" "seq = tm_sequence (the (tq_heap q p))"
    using assms tq_invD(3) [OF assms(1)] by (auto simp: active_of_def)
  then obtain t where t: "tq_heap q p = Some t" "tm_expiration t = e" using tq_inv_entry [OF assms(1)] by blast
  have "length (oset_erase (e, p) (m_timers q)) \<noteq> length (m_activeTimers q)"
    using length_oset_erase [OF oset_wf_distinct [OF tq_invD(1) [OF assms(1)]], of "(e, p)"] e(1)
      tq_inv_sizes [OF assms(1)] length_pos_if_in_set [OF e(1)]
    by (cases "m_activeTimers q") simp_all
  then show ?thesis
    using assms(2) t e(1) tq_inv_sizes [OF assms(1)]
    by (simp add: cancelInLoop_def timer_at_live oset_count_def Let_def)
qed

lemma cancelInLoop_idle:
  assumes "tq_inv X q" and "tid \<notin> set (m_activeTimers q)"
  shows "cancelInLoop tid q = Inr (if m_callingExpiredTimers q
      then q\<lparr>m_cancelingTimers := oset_insert tid (m_cancelingTimers q)\<rparr> else q)"
  using assms(2) tq_inv_sizes [OF assms(1)] by (simp add: cancelInLoop_def)

text \<open>\<open>getExpired\<close> takes out exactly the due timers, in the order of expiration.\<close>

lemma due_prefix:
  fixes es :: "timer_entry list"
  assumes "oset_wf es" and "\<And>e. e \<in> set es \<Longrightarrow> snd e < UINTPTR_MAX"
  shows "takeWhile (\<lambda>e. e < (now, UINTPTR_MAX)) es = filter (\<lambda>e. fst e \<le> now) es \<and>
    dropWhile (\<lambda>e. e < (now, UINTPTR_MAX)) es = filter (\<lambda>e. now < fst e) es"
  using assms
proof (induction es)
  case Nil
  then show ?case by simp
next
  case (Cons x xs)
  have x: "x < (now, UINTPTR_MAX) \<longleftrightarrow> fst x \<le> now"
    using entry_below_sentry [of "snd x" "fst x" now] Cons.prems(2) [of x] by simp
  have le: "fst x \<le> fst y" if "y \<in> set xs" for y
    using Cons.prems(1) that by (auto simp: less_prod_def)
  show ?case
  proof (cases "fst x \<le> now")
    case True
    with x Cons show ?thesis by simp
  next
    case False
    with le have "\<forall>y \<in> set xs. now < fst y" by fastforce
    then have "filter (\<lambda>e. fst e \<le> now) xs = []" "filter (\<lambda>e. now < fst e) xs = xs"
      by (auto simp: filter_empty_conv filter_id_conv)
    with False x show ?thesis by simp
  qed
qed

lemma fold_erase_active:
  assumes "oset_wf (m_activeTimers q)" and "distinct (map snd es)"
    and "set (m_activeTimers q) = active_of (tq_heap q) ` (set es \<union> R)" and "snd ` set es \<inter> snd ` R = {}"
    and "\<And>e. e \<in> set es \<Longrightarrow> tq_heap q (snd e) \<noteq> None"
  shows "\<exists>A. fold_res erase_active es q = Inr (q\<lparr>m_activeTimers := A\<rparr>) \<and> oset_wf A \<and>
    set A = active_of (tq_heap q) ` R"
  using assms
proof (induction es arbitrary: q)
  case Nil
  then show ?case by (intro exI [of _ "m_activeTimers q"]) simp
next
  case (Cons e es)
  obtain t where t: "tq_heap q (snd e) = Some t" using Cons.prems(5) [of e] by auto
  let ?a = "(snd e, tm_sequence t)"
  let ?q = "q\<lparr>m_activeTimers := oset_erase ?a (m_activeTimers q)\<rparr>"
  have a: "active_of (tq_heap q) e = ?a" using t by (simp add: active_of_def)
  have step: "erase_active e q = Inr ?q"
    using t a Cons.prems(3) by (simp add: erase_active_def timer_at_live oset_count_def Let_def)
  have "snd e \<notin> snd ` (set es \<union> R)" using Cons.prems(2,4) by auto
  then have "?a \<notin> active_of (tq_heap q) ` (set es \<union> R)"
    by (metis (no_types, lifting) active_of_def fst_conv image_iff)
  then have "active_of (tq_heap q) ` (set (e # es) \<union> R) - {?a} = active_of (tq_heap q) ` (set es \<union> R)"
    using a by simp
  then have act: "set (m_activeTimers ?q) = active_of (tq_heap ?q) ` (set es \<union> R)"
    using Cons.prems(3) by simp
  have "\<exists>A. fold_res erase_active es ?q = Inr (?q\<lparr>m_activeTimers := A\<rparr>) \<and> oset_wf A \<and>
      set A = active_of (tq_heap ?q) ` R"
  proof (rule Cons.IH)
    show "set (m_activeTimers ?q) = active_of (tq_heap ?q) ` (set es \<union> R)" by (rule act)
    show "snd ` set es \<inter> snd ` R = {}" using Cons.prems(4) by auto
    show "distinct (map snd es)" using Cons.prems(2) by simp
    show "oset_wf (m_activeTimers ?q)" using Cons.prems(1) by simp
    show "tq_heap ?q (snd x) \<noteq> None" if "x \<in> set es" for x using Cons.prems(5) [of x] that by simp
  qed
  with step show ?case by simp
qed

lemma entry_live: "tq_inv X q \<Longrightarrow> e \<in> set (m_timers q) \<Longrightarrow> tq_heap q (snd e) \<noteq> None \<and> snd e < UINTPTR_MAX"
  using tq_inv_entry [of X q "fst e" "snd e"] tq_inv_live [of X q "snd e"] by auto

lemma due_facts:
  fixes now :: int
  assumes "tq_inv {} q"
  defines "due \<equiv> filter (\<lambda>e. fst e \<le> now) (m_timers q)"
    and "rest \<equiv> filter (\<lambda>e. now < fst e) (m_timers q)"
  shows "takeWhile (\<lambda>e. e < (now, UINTPTR_MAX)) (m_timers q) = due"
    and "dropWhile (\<lambda>e. e < (now, UINTPTR_MAX)) (m_timers q) = rest"
    and "distinct (map snd due)" and "snd ` set due \<inter> snd ` set rest = {}"
    and "set (m_timers q) = set due \<union> set rest"
    and "rest = [] \<or> now < fst (hd rest)"
proof -
  have "snd e < UINTPTR_MAX" if "e \<in> set (m_timers q)" for e using entry_live [OF assms(1) that] by blast
  from due_prefix [OF tq_invD(1) [OF assms(1)] this, of now]
  show "takeWhile (\<lambda>e. e < (now, UINTPTR_MAX)) (m_timers q) = due"
    "dropWhile (\<lambda>e. e < (now, UINTPTR_MAX)) (m_timers q) = rest"
    by (simp_all add: due_def rest_def)
  have inj: "inj_on snd (set (m_timers q))" by (rule inj_snd_timers [OF assms(1)])
  show "distinct (map snd due)"
    using oset_wf_distinct [OF tq_invD(1) [OF assms(1)]] inj_on_subset [OF inj, of "set due"]
    by (simp add: due_def distinct_map)
  show "snd ` set due \<inter> snd ` set rest = {}"
    using inj by (fastforce simp: due_def rest_def inj_on_def)
  show "set (m_timers q) = set due \<union> set rest" by (auto simp: due_def rest_def)
  show "rest = [] \<or> now < fst (hd rest)"
    using hd_in_set [of rest] by (auto simp: rest_def)
qed

lemma getExpired_ok:
  fixes now :: int
  assumes "tq_inv {} q"
  defines "due \<equiv> filter (\<lambda>e. fst e \<le> now) (m_timers q)"
    and "rest \<equiv> filter (\<lambda>e. now < fst e) (m_timers q)"
  shows "\<exists>A. getExpired now q = Inr (due, q\<lparr>m_timers := rest, m_activeTimers := A\<rparr>) \<and>
    tq_inv (snd ` set due) (q\<lparr>m_timers := rest, m_activeTimers := A\<rparr>)"
proof -
  note facts = due_facts [OF assms(1), where now = now, folded due_def rest_def]
  have act: "set (m_activeTimers q) = active_of (tq_heap q) ` (set due \<union> set rest)"
    using tq_invD(3) [OF assms(1)] facts(5) by simp
  have "\<exists>A. fold_res erase_active due (q\<lparr>m_timers := rest\<rparr>) = Inr (q\<lparr>m_timers := rest, m_activeTimers := A\<rparr>) \<and>
      oset_wf A \<and> set A = active_of (tq_heap q) ` set rest"
    using fold_erase_active [of "q\<lparr>m_timers := rest\<rparr>" due "set rest"] facts(3,4) entry_live [OF assms(1)] act
      tq_invD(2) [OF assms(1)] facts(5)
    by simp
  then obtain A where A: "fold_res erase_active due (q\<lparr>m_timers := rest\<rparr>) =
        Inr (q\<lparr>m_timers := rest, m_activeTimers := A\<rparr>)"
      "oset_wf A" "set A = active_of (tq_heap q) ` set rest"
    by blast
  let ?q' = "q\<lparr>m_timers := rest, m_activeTimers := A\<rparr>"
  have dom: "dom (tq_heap q) = snd ` set rest \<union> snd ` set due"
    using tq_invD(4) [OF assms(1)] unfolding facts(5) by auto
  have "oset_wf rest" using tq_invD(1) [OF assms(1)] by (simp add: rest_def sorted_wrt_filter)
  then have inv: "tq_inv (snd ` set due) ?q'"
    using assms(1) A(2,3) facts(4,5) dom by (auto simp: tq_inv_def)
  show ?thesis
    using A(1) inv tq_inv_sizes [OF inv] facts(6)
    unfolding getExpired_def Let_def facts(1,2) by auto
qed

text \<open>The phase in which the callbacks run: the due timers are held and not touched, whatever the callbacks call.\<close>

definition calling_inv :: "nat set \<Rightarrow> (nat \<rightharpoonup> timer) \<Rightarrow> timer_queue \<Rightarrow> bool" where
  "calling_inv X h q \<longleftrightarrow> tq_inv X q \<and> armed_if_past q \<and> (\<forall>p \<in> X. tq_heap q p = h p)"

lemma armed_if_past_insert:
  assumes "m_timers q' = oset_insert (e, p) (m_timers q)" and "armed_if_past q"
    and "m_timers q = [] \<or> e < fst (hd (m_timers q)) \<Longrightarrow> 0 < e \<or> armed_first q'"
    and "m_timers q \<noteq> [] \<and> fst (hd (m_timers q)) \<le> e \<Longrightarrow> tq_timerfd q' = tq_timerfd q"
  shows "armed_if_past q'"
proof (cases "m_timers q = [] \<or> e < fst (hd (m_timers q))")
  case True
  with assms(3) have "0 < e \<or> armed_first q'" by blast
  with True assms(1) show ?thesis by (auto simp: armed_if_past_def armed_first_def fst_hd_insert)
next
  case False
  then have "tq_timerfd q' = tq_timerfd q" using assms(4) by simp
  then have "armed_for (fst (hd (m_timers q))) q' = armed_for (fst (hd (m_timers q))) q"
    by (rule armed_for_frame)
  with False assms(1,2) show ?thesis by (auto simp: armed_if_past_def fst_hd_insert)
qed

lemma armed_if_past_frame:
  "m_timers q' = m_timers q \<Longrightarrow> tq_timerfd q' = tq_timerfd q \<Longrightarrow> armed_if_past q' = armed_if_past q"
  by (simp add: armed_if_past_def armed_for_def)

lemma calling_inv_frame:
  assumes "tq_heap q' = tq_heap q" and "m_timers q' = m_timers q" and "m_activeTimers q' = m_activeTimers q"
    and "tq_timerfd q' = tq_timerfd q"
  shows "calling_inv X h q' \<longleftrightarrow> calling_inv X h q"
  using assms tq_inv_frame [OF assms(1-3)] armed_if_past_frame [OF assms(2,4)] by (simp add: calling_inv_def)

lemma exec_call_inv:
  assumes "calling_inv X h q" and "alloc_ok alloc"
  shows "yields queue_fault (\<lambda>q'. calling_inv X h q' \<and> tq_fired q' = tq_fired q) (exec_call alloc clock c q)"
proof (cases c)
  case (AddTimerCall cb wh interval)
  have inv: "tq_inv X q" using assms(1) by (simp add: calling_inv_def)
  show ?thesis
  proof (cases "alloc (tq_heap q)")
    case None
    with AddTimerCall show ?thesis by (simp add: addTimer_def queue_fault_def)
  next
    case (Some p)
    then obtain q' where q': "addTimer alloc clock cb wh interval q = Inr ((p, tq_numCreated q + 1), q')"
        "tq_inv X q'" "m_timers q' = oset_insert (wh, p) (m_timers q)"
        "tq_heap q' = (tq_heap q)(p \<mapsto> Timer_ctor cb wh interval (tq_numCreated q + 1))"
        "m_timers q = [] \<or> wh < fst (hd (m_timers q)) \<longrightarrow> armed_first q'"
        "m_timers q \<noteq> [] \<and> fst (hd (m_timers q)) \<le> wh \<longrightarrow> tq_timerfd q' = tq_timerfd q" "tq_fired q' = tq_fired q"
      using addTimer_ok [OF inv assms(2), of p clock cb wh interval] by blast
    have "tq_heap q p = None" using Some assms(2) by (simp add: alloc_ok_def)
    then have "p \<notin> X" using tq_inv_held [OF inv, of p] by auto
    moreover have "armed_if_past q'"
      by (rule armed_if_past_insert [OF q'(3)]) (use assms(1) q'(5,6) in \<open>auto simp: calling_inv_def\<close>)
    ultimately show ?thesis using assms(1) q' AddTimerCall by (auto simp: calling_inv_def)
  qed
next
  case (CancelCall p seq)
  then show ?thesis
    using assms(1) cancelInLoop_active [of X q p seq] cancelInLoop_idle [of X q "(p, seq)"]
      calling_inv_frame [of "q\<lparr>m_cancelingTimers := oset_insert (p, seq) (m_cancelingTimers q)\<rparr>" q X h]
    by (cases "(p, seq) \<in> set (m_activeTimers q)") (auto simp: queue_fault_def calling_inv_def)
qed

lemma run_timer_inv:
  assumes "calling_inv X h q" and "alloc_ok alloc" and "snd e \<in> X" and "h (snd e) = Some t"
  shows "yields queue_fault (\<lambda>q'. calling_inv X h q' \<and> tq_fired q' = tq_fired q @ [tm_callBack t])
    (run_timer alloc clock body e q)"
proof -
  let ?q = "q\<lparr>tq_fired := tq_fired q @ [tm_callBack t]\<rparr>"
  have "timer_at (snd e) q = Inr t" using assms(1,3,4) by (simp add: calling_inv_def timer_at_def)
  moreover have "calling_inv X h ?q"
    using assms(1) calling_inv_frame [of ?q q X h] by simp
  then have "yields queue_fault (\<lambda>q'. calling_inv X h q' \<and> tq_fired q' = tq_fired q @ [tm_callBack t])
      (fold_res (exec_call alloc clock) (body (tm_callBack t)) ?q)"
    by (intro yields_fold) (auto intro: exec_call_inv [OF _ assms(2), THEN yields_mono])
  ultimately show ?thesis by (simp add: run_timer_def)
qed

lemma run_timers_inv:
  assumes "alloc_ok alloc" and "calling_inv X h q" and "snd ` set es \<subseteq> X"
  shows "yields queue_fault (\<lambda>q'. calling_inv X h q' \<and>
      tq_fired q' = tq_fired q @ map (\<lambda>e. tm_callBack (the (h (snd e)))) es)
    (fold_res (run_timer alloc clock body) es q)"
  using assms(2,3)
proof (induction es arbitrary: q)
  case Nil
  then show ?case by simp
next
  case (Cons e es)
  then obtain t where t: "h (snd e) = Some t"
    using tq_inv_held [of X q "snd e"] by (auto simp: calling_inv_def)
  show ?case
    unfolding fold_res.simps
  proof (rule yields_bind)
    show "yields queue_fault (\<lambda>q'. calling_inv X h q' \<and> tq_fired q' = tq_fired q @ [tm_callBack t])
        (run_timer alloc clock body e q)"
      by (rule run_timer_inv) (use Cons.prems t assms(1) in auto)
    fix q1 assume "calling_inv X h q1 \<and> tq_fired q1 = tq_fired q @ [tm_callBack t]"
    with Cons.IH [of q1] Cons.prems t
    show "yields queue_fault (\<lambda>q'. calling_inv X h q' \<and>
        tq_fired q' = tq_fired q @ map (\<lambda>e. tm_callBack (the (h (snd e)))) (e # es))
      (fold_res (run_timer alloc clock body) es q1)" by simp
  qed
qed

text \<open>The phase that puts repeating timers back: what becomes of a due timer.\<close>

definition reset_outcome :: "int \<Rightarrow> active_timer list \<Rightarrow> nat \<Rightarrow> timer \<Rightarrow> timer option" where
  "reset_outcome now cancelled p t =
     (if tm_repeat t \<and> (p, tm_sequence t) \<notin> set cancelled then Some (restart now t) else None)"

lemma restart_positive:
  assumes "tm_repeat t" and "0 < tm_interval t" and "0 < now"
  shows "0 < tm_expiration (restart now t)"
  using assms by (simp add: restart_def addTime_def trunc_rat_def kMicroSecondsPerSecond_def add_pos_nonneg)

lemma reset_entry_ok:
  assumes "tq_inv X q" and "armed_if_past q" and "0 < now" and "snd e \<in> X" and "tq_heap q (snd e) = Some t"
  shows "\<exists>q'. reset_entry now e q = Inr q' \<and> tq_inv (X - {snd e}) q' \<and> armed_if_past q' \<and>
    tq_heap q' = (tq_heap q)(snd e := reset_outcome now (m_cancelingTimers q) (snd e) t) \<and>
    m_cancelingTimers q' = m_cancelingTimers q \<and> tq_fired q' = tq_fired q \<and>
    m_callingExpiredTimers q' = m_callingExpiredTimers q"
proof (cases "tm_repeat t \<and> (snd e, tm_sequence t) \<notin> set (m_cancelingTimers q)")
  case True
  let ?q1 = "q\<lparr>tq_heap := (tq_heap q)(snd e \<mapsto> restart now t)\<rparr>"
  let ?t = "restart now t"
  let ?q2 = "?q1\<lparr>m_timers := oset_insert (tm_expiration ?t, snd e) (m_timers q),
                   m_activeTimers := oset_insert (snd e, tm_sequence ?t) (m_activeTimers q)\<rparr>"
  have live: "0 < snd e" "snd e < UINTPTR_MAX" "tm_repeat t = (0 < tm_interval t)"
    using tq_inv_live [OF assms(1,5)] by auto
  have out: "snd e \<notin> snd ` set (m_timers q)" using assms(1,4) tq_invD(5) by blast
  have "tq_inv (insert (snd e) X) ?q1"
    by (rule tq_inv_update_held [OF assms(1) out]) (use live in \<open>simp_all add: restart_def\<close>)
  then have inv1: "tq_inv X ?q1" using assms(4) by (simp add: insert_absorb)
  have heap1: "tq_heap ?q1 (snd e) = Some ?t" by simp
  note ins = insert_timer_ok [OF inv1 assms(4) heap1]
  have step: "reset_entry now e q = Inr ?q2"
    using True ins(1) assms(5) by (simp add: reset_entry_def timer_at_live)
  have inv2: "tq_inv (X - {snd e}) ?q2" using ins(2) by simp
  have "0 < tm_expiration ?t" using restart_positive True live(3) assms(3) by blast
  then have "armed_if_past ?q2"
    by (intro armed_if_past_insert [of ?q2 "tm_expiration ?t" "snd e" q]) (use assms(2) in auto)
  with step inv2 True show ?thesis by (simp add: reset_outcome_def)
next
  case False
  let ?q2 = "q\<lparr>tq_heap := (tq_heap q)(snd e := None)\<rparr>"
  have "reset_entry now e q = Inr ?q2" using False assms(5) by (auto simp: reset_entry_def timer_at_live)
  moreover have "armed_if_past ?q2" using assms(2) armed_if_past_frame [of ?q2 q] by simp
  moreover have "tq_inv (X - {snd e}) ?q2" by (rule tq_inv_delete_held [OF assms(1,4)])
  ultimately show ?thesis using False by (auto simp: reset_outcome_def)
qed

lemma reset_entries_ok:
  assumes "0 < now" and "tq_inv (snd ` set es) q" and "armed_if_past q" and "distinct (map snd es)"
  shows "\<exists>q'. fold_res (reset_entry now) es q = Inr q' \<and> tq_inv {} q' \<and> armed_if_past q' \<and>
    (\<forall>p. tq_heap q' p = (if p \<in> snd ` set es
        then reset_outcome now (m_cancelingTimers q) p (the (tq_heap q p)) else tq_heap q p)) \<and>
    m_cancelingTimers q' = m_cancelingTimers q \<and> tq_fired q' = tq_fired q \<and>
    m_callingExpiredTimers q' = m_callingExpiredTimers q"
  using assms(2-4)
proof (induction es arbitrary: q)
  case Nil
  then show ?case by simp
next
  case (Cons e es)
  obtain t where t: "tq_heap q (snd e) = Some t" using tq_inv_held [OF Cons.prems(1), of "snd e"] by auto
  obtain q1 where q1: "reset_entry now e q = Inr q1" "tq_inv (snd ` set (e # es) - {snd e}) q1" "armed_if_past q1"
      "tq_heap q1 = (tq_heap q)(snd e := reset_outcome now (m_cancelingTimers q) (snd e) t)"
      "m_cancelingTimers q1 = m_cancelingTimers q" "tq_fired q1 = tq_fired q"
      "m_callingExpiredTimers q1 = m_callingExpiredTimers q"
    using reset_entry_ok [OF Cons.prems(1,2) assms(1) _ t] by auto
  have new: "snd e \<notin> snd ` set es" using Cons.prems(3) by simp
  have X: "snd ` set (e # es) - {snd e} = snd ` set es" using new by simp
  have "distinct (map snd es)" using Cons.prems(3) by simp
  from Cons.IH [OF q1(2) [unfolded X] q1(3) this] obtain q2
    where q2: "fold_res (reset_entry now) es q1 = Inr q2" "tq_inv {} q2" "armed_if_past q2"
      "\<forall>p. tq_heap q2 p = (if p \<in> snd ` set es
        then reset_outcome now (m_cancelingTimers q1) p (the (tq_heap q1 p)) else tq_heap q1 p)"
      "m_cancelingTimers q2 = m_cancelingTimers q1" "tq_fired q2 = tq_fired q1"
      "m_callingExpiredTimers q2 = m_callingExpiredTimers q1"
    by blast
  have "tq_heap q2 p = (if p \<in> snd ` set (e # es)
      then reset_outcome now (m_cancelingTimers q) p (the (tq_heap q p)) else tq_heap q p)" for p
    using q2(4) q1(4,5) new t by auto
  with q1 q2 show ?case by simp
qed

lemma reset_expired_ok:
  assumes "0 < now" and "tq_inv (snd ` set es) q" and "armed_if_past q" and "distinct (map snd es)"
  shows "\<exists>q'. reset_expired clock es now q = Inr q' \<and> tq_inv {} q' \<and> armed_first q' \<and>
    (\<forall>p. tq_heap q' p = (if p \<in> snd ` set es
        then reset_outcome now (m_cancelingTimers q) p (the (tq_heap q p)) else tq_heap q p)) \<and>
    m_cancelingTimers q' = m_cancelingTimers q \<and> tq_fired q' = tq_fired q \<and>
    m_callingExpiredTimers q' = m_callingExpiredTimers q"
proof -
  obtain q1 where q1: "fold_res (reset_entry now) es q = Inr q1" "tq_inv {} q1" "armed_if_past q1"
      "\<forall>p. tq_heap q1 p = (if p \<in> snd ` set es
        then reset_outcome now (m_cancelingTimers q) p (the (tq_heap q p)) else tq_heap q p)"
      "m_cancelingTimers q1 = m_cancelingTimers q" "tq_fired q1 = tq_fired q"
      "m_callingExpiredTimers q1 = m_callingExpiredTimers q"
    using reset_entries_ok [OF assms] by blast
  show ?thesis
  proof (cases "m_timers q1")
    case Nil
    then have "reset_expired clock es now q = Inr q1" using q1(1) by (simp add: reset_expired_def valid_stamp_def)
    moreover have "armed_first q1" using Nil by (simp add: armed_first_def)
    ultimately show ?thesis using q1 by blast
  next
    case (Cons e xs)
    then obtain t where t: "tq_heap q1 (snd e) = Some t" "tm_expiration t = fst e"
      using tq_inv_entry [OF q1(2), of "fst e" "snd e"] by auto
    let ?q' = "if 0 < fst e then resetTimerfd clock (fst e) q1 else q1"
    have "reset_expired clock es now q = Inr ?q'"
      using q1(1) Cons t by (simp add: reset_expired_def timer_at_live valid_stamp_def)
    moreover have "armed_first ?q'"
      using q1(3) Cons by (auto simp: armed_first_def armed_if_past_def)
    moreover have "tq_inv {} ?q'" using q1(2) tq_inv_frame [of ?q' q1] by simp
    ultimately show ?thesis using q1(4-7) by auto
  qed
qed

lemma handleRead_ok:
  assumes "tq_wf q" and "alloc_ok alloc" and "\<And>n. 0 < clock n"
  defines "now \<equiv> clock (tq_clockReads q)"
  defines "due \<equiv> filter (\<lambda>e. fst e \<le> now) (m_timers q)"
  shows "yields queue_fault (\<lambda>q'. tq_wf q' \<and> armed_first q' \<and>
      tq_fired q' = tq_fired q @ map (\<lambda>e. tm_callBack (the (tq_heap q (snd e)))) due \<and>
      (\<forall>e \<in> set due. tq_heap q' (snd e) =
         reset_outcome now (m_cancelingTimers q') (snd e) (the (tq_heap q (snd e)))))
    (handleRead alloc clock body q)"
proof -
  let ?q0 = "q\<lparr>tq_clockReads := Suc (tq_clockReads q)\<rparr>" and ?X = "snd ` set due"
  have inv0: "tq_inv {} ?q0" using assms(1) by (simp add: tq_wf_def tq_inv_def)
  obtain A where A: "getExpired now ?q0 = Inr (due, ?q0\<lparr>m_timers := filter (\<lambda>e. now < fst e) (m_timers q), m_activeTimers := A\<rparr>)"
      "tq_inv ?X (?q0\<lparr>m_timers := filter (\<lambda>e. now < fst e) (m_timers q), m_activeTimers := A\<rparr>)"
    using getExpired_ok [OF inv0, of now] by (auto simp: due_def)
  let ?q1 = "?q0\<lparr>m_timers := filter (\<lambda>e. now < fst e) (m_timers q), m_activeTimers := A,
    m_callingExpiredTimers := True, m_cancelingTimers := []\<rparr>"
  have inv1: "tq_inv ?X ?q1" using A(2) by (simp add: tq_inv_def)
  have pos: "0 < now" using assms(3) by (simp add: now_def)
  have past: "armed_if_past ?q1"
    using hd_in_set [of "m_timers ?q1"] pos by (auto simp: armed_if_past_def)
  have dist: "distinct (map snd due)"
    using due_facts(3) [OF inv0, of now] by (simp add: due_def)
  have start: "calling_inv ?X (tq_heap q) ?q1" using inv1 past by (simp add: calling_inv_def)
  have run: "handleRead alloc clock body q =
      bind_res (fold_res (run_timer alloc clock body) due ?q1)
        (\<lambda>q2. reset_expired clock due now (q2\<lparr>m_callingExpiredTimers := False\<rparr>))"
    using A(1) by (simp add: handleRead_def now_reading_def now_def [symmetric])
  show ?thesis
    unfolding run
  proof (rule yields_bind [OF run_timers_inv [OF assms(2) start subset_refl]], elim conjE)
    fix q2 assume c: "calling_inv ?X (tq_heap q) q2"
      and f: "tq_fired q2 = tq_fired ?q1 @ map (\<lambda>e. tm_callBack (the (tq_heap q (snd e)))) due"
    let ?q2 = "q2\<lparr>m_callingExpiredTimers := False\<rparr>"
    have "tq_inv ?X ?q2" "armed_if_past ?q2"
      using c tq_inv_frame [of ?q2 q2] armed_if_past_frame [of ?q2 q2] by (simp_all add: calling_inv_def)
    from reset_expired_ok [OF pos this dist, of clock] c f
    show "yields queue_fault (\<lambda>q'. tq_wf q' \<and> armed_first q' \<and>
        tq_fired q' = tq_fired q @ map (\<lambda>e. tm_callBack (the (tq_heap q (snd e)))) due \<and>
        (\<forall>e \<in> set due. tq_heap q' (snd e) =
           reset_outcome now (m_cancelingTimers q') (snd e) (the (tq_heap q (snd e)))))
      (reset_expired clock due now ?q2)"
      by (auto simp: tq_wf_def calling_inv_def)
  qed
qed

lemma howMuchTimeFromNow_spec:
  fixes now wh :: int
  shows "case howMuchTimeFromNow now wh of (sec, nsec) \<Rightarrow>
    0 \<le> sec \<and> 0 \<le> nsec \<and> nsec < 10 ^ 9 \<and> sec * 10 ^ 9 + nsec = 1000 * max 100 (wh - now)"
proof -
  define m :: int where "m = (if wh - now < 100 then 100 else wh - now)"
  have m: "0 \<le> m" "max 100 (wh - now) = m" by (auto simp: m_def)
  have "m div 1000000 * 1000000000 + m mod 1000000 * 1000 = 1000 * m"
    using div_mult_mod_eq [of m 1000000] by linarith
  with m(1) show ?thesis
    unfolding m(2)
    by (simp add: howMuchTimeFromNow_def Let_def m_def [symmetric] kMicroSecondsPerSecond_def
        pos_imp_zdiv_nonneg_iff)
qed

section \<open>Properties\<close>

text \<open>Sample data for the witnesses: timer 1 is due and repeats, timer 2 is not due; the callback 10 adds a
  one-shot timer.\<close>

abbreviation sample_timer1 :: timer where
  "sample_timer1 \<equiv> Timer_ctor 10 5 1 1"

abbreviation sample_timer2 :: timer where
  "sample_timer2 \<equiv> Timer_ctor 20 9 0 2"

abbreviation sample_queue :: timer_queue where
  "sample_queue \<equiv> TimerQueue_ctor\<lparr>tq_heap := [1 \<mapsto> sample_timer1, 2 \<mapsto> sample_timer2], m_timers := [(5, 1), (9, 2)],
     m_activeTimers := [(1, 1), (2, 2)], tq_numCreated := 2, tq_timerfd := Some (1, howMuchTimeFromNow 1 5)\<rparr>"

definition sample_alloc :: "(nat \<rightharpoonup> timer) \<Rightarrow> nat option" where
  "sample_alloc h = (if h 3 = None then Some 3 else None)"

lemma sample_queue_wf: "tq_wf sample_queue" "armed_first sample_queue" "alloc_ok sample_alloc"
proof -
  show "tq_wf sample_queue"
    unfolding tq_wf_def tq_inv_def
    by (auto simp: Timer_ctor_def TimerQueue_ctor_def active_of_def UINTPTR_MAX_def less_prod_def split: if_splits)
  show "armed_first sample_queue" "alloc_ok sample_alloc"
    by (auto simp: TimerQueue_ctor_def UINTPTR_MAX_def alloc_ok_def sample_alloc_def armed_first_def armed_for_def
        split: if_splits)
qed

text \<open>C6: the timer queue is memory safe and stays consistent. Handling an expiration in a consistent queue,
  whatever the callbacks add or cancel meanwhile, never dereferences a dangling or null timer and never
  deletes one twice: it ends in a consistent queue (both sets hold the same live timers, none leaked),
  with the timer descriptor armed for the earliest of them; or it stops in the size assertion of a
  cancellation, or for lack of memory.\<close>

theorem handleRead_safe:
  assumes "tq_wf q" and "alloc_ok alloc" and "\<And>n. 0 < clock n"
  shows "case handleRead alloc clock body q of
      Inl e \<Rightarrow> e = AssertFailed size_assert \<or> e = Aborted ''std::bad_alloc''
    | Inr q' \<Rightarrow> tq_wf q' \<and> armed_first q'"
  using handleRead_ok [where clock = clock and body = body, OF assms] by (auto simp: yields_def queue_fault_def split: sum.splits)

theorem handleRead_safe_witness:
  "case handleRead sample_alloc (\<lambda>n. 6) (\<lambda>c. [AddTimerCall 30 7 0]) sample_queue of
      Inl e \<Rightarrow> e = AssertFailed size_assert \<or> e = Aborted ''std::bad_alloc''
    | Inr q' \<Rightarrow> tq_wf q' \<and> armed_first q'"
  by (rule handleRead_safe [OF sample_queue_wf(1,3)]) simp

text \<open>C21: exactly the due timers fire, once each and in the order of their expirations; each of them that
  repeats and was not cancelled by a callback is live again and expires one interval after the reading of
  the clock, and every other one is deleted.\<close>

theorem handleRead_fires_due:
  assumes "tq_wf q" and "alloc_ok alloc" and "\<And>n. 0 < clock n"
    and "handleRead alloc clock body q = Inr q'"
  shows "tq_fired q' = tq_fired q @
      map (\<lambda>e. tm_callBack (the (tq_heap q (snd e)))) (filter (\<lambda>e. fst e \<le> clock (tq_clockReads q)) (m_timers q)) \<and>
    (\<forall>(e, p) \<in> set (m_timers q). e \<le> clock (tq_clockReads q) \<longrightarrow>
       (let t = the (tq_heap q p)
        in tq_heap q' p = (if tm_repeat t \<and> (p, tm_sequence t) \<notin> set (m_cancelingTimers q')
             then Some (t\<lparr>tm_expiration := addTime (clock (tq_clockReads q)) (tm_interval t)\<rparr>) else None)))"
  using yields_InrD [OF handleRead_ok [where clock = clock and body = body, OF assms(1-3)] assms(4)]
  by (auto simp: reset_outcome_def restart_def Let_def)

theorem handleRead_fires_due_witness:
  "\<exists>q'. handleRead sample_alloc (\<lambda>n. 6) (\<lambda>c. [AddTimerCall 30 7 0]) sample_queue = Inr q' \<and> tq_fired q' = [10] \<and>
     tq_heap q' 1 = Some (sample_timer1\<lparr>tm_expiration := 1000006\<rparr>)"
proof -
  have "\<exists>q'. handleRead sample_alloc (\<lambda>n. 6) (\<lambda>c. [AddTimerCall 30 7 0]) sample_queue = Inr q' \<and>
      m_cancelingTimers q' = []"
    by (simp add: handleRead_def now_reading_def TimerQueue_ctor_def getExpired_def Let_def UINTPTR_MAX_def
        less_prod_def Timer_ctor_def erase_active_def timer_at_def oset_count_def oset_erase_def
        run_timer_def addTimer_def sample_alloc_def addTimerInLoop_def insert_timer_def resetTimerfd_def
        reset_expired_def reset_entry_def restart_def addTime_def trunc_rat_def kMicroSecondsPerSecond_def
        valid_stamp_def)
  then obtain q' where q': "handleRead sample_alloc (\<lambda>n. 6) (\<lambda>c. [AddTimerCall 30 7 0]) sample_queue = Inr q'"
      "m_cancelingTimers q' = []"
    by blast
  have "addTime 6 1 = 1000006" by (simp add: addTime_def trunc_rat_def kMicroSecondsPerSecond_def)
  with handleRead_fires_due [OF sample_queue_wf(1,3) _ q'(1)] q' show ?thesis
    by (simp add: TimerQueue_ctor_def Timer_ctor_def)
qed

text \<open>Adding a timer from the loop's thread keeps the queue consistent and the timer descriptor armed for
  the earliest expiration; the new timer is live, in the queue, and known under the returned id.\<close>

theorem addTimer_keeps:
  assumes "tq_wf q" and "armed_first q" and "alloc_ok alloc" and "alloc (tq_heap q) = Some p"
  shows "\<exists>q'. addTimer alloc clock cb expiry interval q = Inr ((p, tq_numCreated q + 1), q') \<and>
    tq_wf q' \<and> armed_first q' \<and> m_timers q' = oset_insert (expiry, p) (m_timers q) \<and>
    (p, tq_numCreated q + 1) \<in> set (m_activeTimers q')"
proof -
  have inv: "tq_inv {} q" using assms(1) by (simp add: tq_wf_def)
  from addTimer_ok [OF inv assms(3,4), of clock cb expiry interval] obtain q' where q':
      "addTimer alloc clock cb expiry interval q = Inr ((p, tq_numCreated q + 1), q')" "tq_inv {} q'"
      "m_timers q' = oset_insert (expiry, p) (m_timers q)"
      "tq_heap q' = (tq_heap q)(p \<mapsto> Timer_ctor cb expiry interval (tq_numCreated q + 1))"
      "m_timers q = [] \<or> expiry < fst (hd (m_timers q)) \<longrightarrow> armed_first q'"
      "m_timers q \<noteq> [] \<and> fst (hd (m_timers q)) \<le> expiry \<longrightarrow> tq_timerfd q' = tq_timerfd q"
      "m_callingExpiredTimers q' = m_callingExpiredTimers q"
    by blast
  have "armed_first q'"
  proof (cases "m_timers q = [] \<or> expiry < fst (hd (m_timers q))")
    case True
    then show ?thesis using q'(5) by blast
  next
    case False
    then have "tq_timerfd q' = tq_timerfd q" using q'(6) by simp
    then have "armed_for (fst (hd (m_timers q))) q'" using False assms(2) by (simp add: armed_first_def armed_for_def)
    with False show ?thesis using q'(3) by (auto simp: armed_first_def fst_hd_insert)
  qed
  moreover have "(p, tq_numCreated q + 1) \<in> set (m_activeTimers q')"
    using tq_invD(3) [OF q'(2)] q'(3,4) by (simp add: active_of_def Timer_ctor_def)
  ultimately show ?thesis using q' assms(1) by (simp add: tq_wf_def)
qed

theorem addTimer_keeps_witness:
  "\<exists>q'. addTimer sample_alloc (\<lambda>n. 6) 30 7 0 sample_queue = Inr ((3, 3), q') \<and> tq_wf q' \<and> armed_first q' \<and>
    m_timers q' = [(5, 1), (7, 3), (9, 2)] \<and> (3, 3) \<in> set (m_activeTimers q')"
  using addTimer_keeps [OF sample_queue_wf(1,2,3), of 3 "\<lambda>n. 6" 30 7 0]
  by (simp add: sample_alloc_def TimerQueue_ctor_def less_prod_def)

text \<open>Cancelling a pending timer cannot succeed. In a consistent queue, \<open>cancelInLoop\<close> of a timer that is
  active removes it from \<open>m_timers\<close> but not from \<open>m_activeTimers\<close>, and always stops in the assertion that
  the two sets have the same size.\<close>

theorem cancel_pending_aborts:
  assumes "tq_wf q" and "(e, p) \<in> set (m_timers q)"
  shows "cancelInLoop (p, tm_sequence (the (tq_heap q p))) q = Inl (AssertFailed size_assert)"
proof -
  have inv: "tq_inv {} q" using assms(1) by (simp add: tq_wf_def)
  then show ?thesis
    using cancelInLoop_active [OF inv] tq_invD(3) [OF inv] assms(2) by (force simp: active_of_def)
qed

theorem cancel_pending_aborts_witness:
  "cancelInLoop (1, 1) sample_queue = Inl (AssertFailed size_assert)"
  using cancel_pending_aborts [OF sample_queue_wf(1), of 5 1] by (simp add: TimerQueue_ctor_def Timer_ctor_def)

text \<open>The relative time armed in the timer descriptor is a legal and non-zero \<open>timespec\<close> (a zero one would
  disarm it), and is the distance to the expiration, rounded up to 100 microseconds when that is nearer.\<close>

theorem howMuchTimeFromNow_valid:
  "case howMuchTimeFromNow now expiry of (sec, nsec) \<Rightarrow>
    0 \<le> sec \<and> 0 \<le> nsec \<and> nsec < 10 ^ 9 \<and> sec * 10 ^ 9 + nsec = 1000 * max 100 (expiry - now)"
  by (rule howMuchTimeFromNow_spec)

end
