(* ===== verification/TA_LogStream.thy ===== *)
theory TA_LogStream
  imports TA_Format
begin

text \<open>
  The log stream and the logger front end (\<open>src/Logger/LogStream.h\<close>, \<open>LogStream.cpp\<close>, \<open>Logger.h\<close>,
  \<open>Logger.cpp\<close>). A \<open>LogBuffer\<close> is its size and the bytes before its write pointer; an operation that
  writes past the array faults. Numbers are converted digit by digit as the code does, with C's
  truncating division on signed values.

  Parameter: \<open>gmtime\<close> is \<open>gmtime_r(3)\<close>, from seconds since the epoch to year, month, day, hour, minute and
  second. The stream operators for \<open>float\<close> and \<open>double\<close> (\<open>%.12g\<close>) are not modelled.
\<close>

section \<open>Log buffers\<close>

definition kSmallBuffer :: nat where "kSmallBuffer = 4096"
definition kLargeBuffer :: nat where "kLargeBuffer = 4096 * 1000"
definition kMaxNumericSize :: nat where "kMaxNumericSize = 32"

record log_buffer =
  lb_size :: nat
  lb_data :: string

definition LogBuffer_ctor :: "nat \<Rightarrow> log_buffer" where
  "LogBuffer_ctor n = \<lparr>lb_size = n, lb_data = []\<rparr>"

definition lb_avail :: "log_buffer \<Rightarrow> nat" where
  "lb_avail b = sub64 (lb_size b) (length (lb_data b))"

definition lb_append :: "string \<Rightarrow> log_buffer \<Rightarrow> log_buffer" where
  "lb_append s b = (if length s < lb_avail b then b\<lparr>lb_data := lb_data b @ s\<rparr> else b)"

definition lb_reset :: "log_buffer \<Rightarrow> log_buffer" where
  "lb_reset b = b\<lparr>lb_data := []\<rparr>"

text \<open>Writing a string and its terminating NUL at \<open>current()\<close>, then \<open>add(len)\<close>.\<close>

definition lb_write_add :: "string \<Rightarrow> log_buffer \<Rightarrow> log_buffer res" where
  "lb_write_add s b =
     (if lb_size b < length (lb_data b) + length s + 1 then Inl OutOfRange
      else Inr (b\<lparr>lb_data := lb_data b @ s\<rparr>))"

section \<open>Conversions\<close>

text \<open>C's \<open>/\<close> and \<open>%\<close> by a positive divisor.\<close>

definition c_div :: "int \<Rightarrow> int \<Rightarrow> int" where
  "c_div a b = (if a < 0 then - ((- a) div b) else a div b)"

definition c_mod :: "int \<Rightarrow> int \<Rightarrow> int" where
  "c_mod a b = (if a < 0 then - ((- a) mod b) else a mod b)"

text \<open>The digit table is indexed from its middle, so that a negative remainder finds its digit.\<close>

definition digits_table :: string where
  "digits_table = ''9876543210123456789''"

definition zero_at :: "int \<Rightarrow> char" where
  "zero_at lsd = digits_table ! nat (9 + lsd)"

text \<open>The do-while loop of \<open>convert\<close>: the characters written, least significant first.\<close>

function convert_loop :: "int \<Rightarrow> string" where
  "convert_loop i =
     (let lsd = c_mod i 10; j = c_div i 10
      in zero_at lsd # (if j \<noteq> 0 then convert_loop j else []))"
  by pat_completeness auto
termination
  by (relation "measure (\<lambda>i. nat \<bar>i\<bar>)") (auto simp: c_div_def)

declare convert_loop.simps [simp del]

definition convert :: "int \<Rightarrow> string" where
  "convert v = rev (convert_loop v @ (if v < 0 then ''-'' else []))"

definition digitsHex :: string where
  "digitsHex = ''0123456789ABCDEF''"

fun convertHex_loop :: "nat \<Rightarrow> string" where
  "convertHex_loop i = digitsHex ! (i mod 16) # (if i div 16 \<noteq> 0 then convertHex_loop (i div 16) else [])"

declare convertHex_loop.simps [simp del]

definition convertHex :: "nat \<Rightarrow> string" where
  "convertHex v = rev (convertHex_loop v)"

section \<open>The stream operators\<close>

datatype log_item =
    LogBool bool
  | LogInteger int
  | LogPointer nat
  | LogChar char
  | LogCString "string option"
  | LogString string

definition formatInteger :: "int \<Rightarrow> log_buffer \<Rightarrow> log_buffer res" where
  "formatInteger v b = (if kMaxNumericSize \<le> lb_avail b then lb_write_add (convert v) b else Inr b)"

definition log_pointer :: "nat \<Rightarrow> log_buffer \<Rightarrow> log_buffer res" where
  "log_pointer p b =
     (if kMaxNumericSize \<le> lb_avail b then lb_write_add (''0x'' @ convertHex p) b else Inr b)"

fun stream_put :: "log_item \<Rightarrow> log_buffer \<Rightarrow> log_buffer res" where
  "stream_put (LogBool v) b = Inr (lb_append (if v then ''1'' else ''0'') b)"
| "stream_put (LogInteger v) b = formatInteger v b"
| "stream_put (LogPointer p) b = log_pointer p b"
| "stream_put (LogChar c) b = Inr (lb_append [c] b)"
| "stream_put (LogCString s) b = Inr (lb_append (case s of Some t \<Rightarrow> t | None \<Rightarrow> ''(NULL)'') b)"
| "stream_put (LogString s) b = Inr (lb_append (if s \<noteq> [] then s else ''(NULL)'') b)"

text \<open>What an item looks like in the log.\<close>

fun item_text :: "log_item \<Rightarrow> string" where
  "item_text (LogBool v) = (if v then ''1'' else ''0'')"
| "item_text (LogInteger v) = dec_int v"
| "item_text (LogPointer p) = ''0x'' @ convertHex p"
| "item_text (LogChar c) = [c]"
| "item_text (LogCString s) = (case s of Some t \<Rightarrow> t | None \<Rightarrow> ''(NULL)'')"
| "item_text (LogString s) = (if s \<noteq> [] then s else ''(NULL)'')"

text \<open>The numbers the operators take: 64 bits at most.\<close>

fun item_ok :: "log_item \<Rightarrow> bool" where
  "item_ok (LogInteger v) \<longleftrightarrow> - (2 ^ 63) \<le> v \<and> v < 2 ^ 64"
| "item_ok (LogPointer p) \<longleftrightarrow> p < 2 ^ 64"
| "item_ok _ \<longleftrightarrow> True"

section \<open>The logger\<close>

datatype log_level = TRACE | DEBUG | INFO | WARN | ERROR | FATAL

definition level_number :: "log_level \<Rightarrow> nat" where
  "level_number l = (case l of TRACE \<Rightarrow> 0 | DEBUG \<Rightarrow> 1 | INFO \<Rightarrow> 2 | WARN \<Rightarrow> 3 | ERROR \<Rightarrow> 4 | FATAL \<Rightarrow> 5)"

definition esc_color :: "char \<Rightarrow> char \<Rightarrow> string" where
  "esc_color a b = [CHR 0x1B, CHR ''['', a, CHR '';'', CHR ''3'', b, CHR ''m'']"

definition LogLevelColor :: "string list" where
  "LogLevelColor = [esc_color (CHR ''1'') (CHR ''5''), esc_color (CHR ''1'') (CHR ''4''), esc_color (CHR ''1'') (CHR ''2''),
     esc_color (CHR ''1'') (CHR ''3''), esc_color (CHR ''1'') (CHR ''1''), esc_color (CHR ''1'') (CHR ''0''),
     esc_color (CHR ''0'') (CHR ''9'')]"

definition LogLevelName :: "string list" where
  "LogLevelName = [''[TRACE]'', ''[DEBUG]'', ''[INFO ]'', ''[WARN ]'', ''[ERROR]'', ''[FATAL]'']"

text \<open>The macros \<open>LOG_TRACE\<close> to \<open>LOG_FATAL\<close>: a line is produced if its level is not below the global one.\<close>

definition log_enabled :: "log_level \<Rightarrow> log_level \<Rightarrow> bool" where
  "log_enabled g l \<longleftrightarrow> level_number g \<le> level_number l"

text \<open>\<open>_formatTime\<close>: the text of the last second is cached per thread (\<open>t_time\<close>, \<open>t_lastSecond\<close>).\<close>

type_synonym tm = "nat \<times> nat \<times> nat \<times> nat \<times> nat \<times> nat"

record time_cache =
  tc_lastSecond :: nat
  tc_time :: string

definition d2 :: "nat \<Rightarrow> string" where
  "d2 n = pad_with (CHR ''0'') 2 (dec_nat n)"

definition time_text :: "tm \<Rightarrow> string" where
  "time_text t = (case t of (y, mo, d, h, mi, s) \<Rightarrow>
     pad_with (CHR '' '') 4 (dec_nat y) @ ''-'' @ d2 mo @ ''-'' @ d2 d @ '' '' @ d2 (h + 8) @ '':'' @ d2 mi @ '':'' @ d2 s)"

definition formatTime :: "(nat \<Rightarrow> tm) \<Rightarrow> nat \<Rightarrow> time_cache \<Rightarrow> log_buffer \<Rightarrow> (time_cache \<times> log_buffer) res" where
  "formatTime gmtime now tc b =
     (let seconds = now div 1000000; microseconds = now mod 1000000
      in bind_res
           (if seconds \<noteq> tc_lastSecond tc
            then (let text = time_text (gmtime seconds)
                  in cassert (length text = 19) ''len == 19''
                    (Inr \<lparr>tc_lastSecond = seconds, tc_time = snprintf_buf 64 text\<rparr>))
            else Inr tc) (\<lambda>tc1.
         let us = ''.'' @ pad_with (CHR ''0'') 6 (dec_nat microseconds) @ '' ''
         in cassert (length us = 8) ''us.length() == 8''
           (Inr (tc1, lb_append us (lb_append (tc_time tc1) b)))))"

text \<open>\<open>filenamecut\<close>: what follows the last slash.\<close>

definition filenamecut :: "string \<Rightarrow> string" where
  "filenamecut f = rev (takeWhile (\<lambda>c. c \<noteq> CHR ''/'') (rev f))"

definition Logger_ctor :: "(nat \<Rightarrow> tm) \<Rightarrow> nat \<Rightarrow> nat \<Rightarrow> nat \<Rightarrow> string \<Rightarrow> int \<Rightarrow> log_level \<Rightarrow> string \<Rightarrow> time_cache \<Rightarrow>
    (time_cache \<times> log_buffer) res" where
  "Logger_ctor gmtime now pid tid filename line level func tc =
     bind_res (formatTime gmtime now tc (LogBuffer_ctor kSmallBuffer)) (\<lambda>(tc1, b).
     bind_res (fold_res stream_put
       [LogCString (Some (LogLevelColor ! level_number level)), LogCString (Some (LogLevelName ! level_number level)),
        LogCString (Some (LogLevelColor ! 6)), LogChar (CHR '' ''), LogCString (Some '' [pid:''), LogInteger (int pid),
        LogCString (Some ''] [tid:''), LogInteger (int tid), LogCString (Some ''] ''), LogChar (CHR ''[''),
        LogCString (Some (filenamecut filename)), LogChar (CHR '':''), LogInteger line, LogCString (Some ''] [''),
        LogCString (Some func), LogCString (Some ''] ''), LogCString (Some (LogLevelColor ! level_number level)),
        LogCString (Some ''|''), LogCString (Some (LogLevelColor ! 6))] b) (\<lambda>b1.
     Inr (tc1, b1)))"

text \<open>The destructor appends a newline and hands the line to the output function.\<close>

definition Logger_dtor :: "log_buffer \<Rightarrow> string" where
  "Logger_dtor b = lb_data (lb_append [CHR 0x0A] b)"

section \<open>Lemmas\<close>

lemma zero_at_digit: "\<bar>d\<bar> < 10 \<Longrightarrow> zero_at d = digit_char (nat \<bar>d\<bar>)"
proof -
  assume "\<bar>d\<bar> < 10"
  then have "d \<in> {- 9..9}" by auto
  moreover have "\<forall>d \<in> {- 9..9 :: int}. zero_at d = digit_char (nat \<bar>d\<bar>)" by code_simp
  ultimately show ?thesis by blast
qed

lemma convert_loop_digits: "rev (convert_loop i) = dec_nat (nat \<bar>i\<bar>)"
proof (induction i rule: convert_loop.induct)
  case (1 i)
  let ?n = "nat \<bar>i\<bar>"
  have lsd: "\<bar>c_mod i 10\<bar> < 10" "nat \<bar>c_mod i 10\<bar> = ?n mod 10"
    by (auto simp: c_mod_def nat_mod_distrib)
  have div: "nat \<bar>c_div i 10\<bar> = ?n div 10" by (auto simp: c_div_def nat_div_distrib)
  have zero: "c_div i 10 = 0 \<longleftrightarrow> ?n < 10" using div by (auto simp: c_div_def)
  show ?case
  proof (cases "c_div i 10 = 0")
    case True
    then show ?thesis using zero lsd zero_at_digit [OF lsd(1)]
      by (subst convert_loop.simps, subst dec_nat.simps) simp
  next
    case False
    have "convert_loop i = zero_at (c_mod i 10) # convert_loop (c_div i 10)"
      using False by (subst convert_loop.simps) (simp add: Let_def)
    moreover have "rev (convert_loop (c_div i 10)) = dec_nat (?n div 10)" using 1 [OF refl refl False] div by simp
    moreover have "dec_nat ?n = dec_nat (?n div 10) @ [digit_char (?n mod 10)]"
      using False zero by (subst dec_nat.simps) simp
    ultimately show ?thesis using zero_at_digit [OF lsd(1)] lsd(2) by simp
  qed
qed

lemma convert_eq: "convert v = dec_int v"
  using convert_loop_digits [of v] by (simp add: convert_def dec_int_def)

lemma length_dec_int: "- (2 ^ 63) \<le> v \<Longrightarrow> v < 2 ^ 64 \<Longrightarrow> length (dec_int v) \<le> 20"
  using length_dec_nat_le [of "nat v" 20] length_dec_nat_le [of "nat (- v)" 19]
  by (auto simp: dec_int_def)

lemma length_convertHex_loop: "p < 16 ^ k \<Longrightarrow> 0 < k \<Longrightarrow> length (convertHex_loop p) \<le> k"
proof (induction k arbitrary: p)
  case 0
  then show ?case by simp
next
  case (Suc k)
  show ?case
  proof (cases "p div 16 = 0")
    case True
    then show ?thesis by (subst convertHex_loop.simps) simp
  next
    case False
    have "p div 16 < 16 ^ k" using Suc.prems(1) by (simp add: less_mult_imp_div_less mult.commute)
    moreover have "0 < k" using False Suc.prems(1) by (cases k) auto
    ultimately have "length (convertHex_loop (p div 16)) \<le> k" by (rule Suc.IH)
    with False show ?thesis by (subst convertHex_loop.simps) simp
  qed
qed

lemma length_convertHex: "p < 2 ^ 64 \<Longrightarrow> length (convertHex p) \<le> 16"
  using length_convertHex_loop [of p 16] by (simp add: convertHex_def)

text \<open>Reading hexadecimal digits back, most significant first.\<close>

definition hex_digit_val :: "char \<Rightarrow> nat" where
  "hex_digit_val c = (let n = of_char c in if 65 \<le> n then n - 55 else n - 48)"

definition hex_value :: "string \<Rightarrow> nat" where
  "hex_value s = fold (\<lambda>c v. 16 * v + hex_digit_val c) s 0"

lemma hex_digit_val_digitsHex: "d < 16 \<Longrightarrow> hex_digit_val (digitsHex ! d) = d"
proof -
  assume "d < 16"
  moreover have "\<forall>d \<in> {..<16}. hex_digit_val (digitsHex ! d) = d" by code_simp
  ultimately show ?thesis by blast
qed

lemma hex_value_convertHex: "hex_value (convertHex v) = v"
proof (induction v rule: convertHex_loop.induct)
  case (1 v)
  have step: "convertHex v = (if v div 16 \<noteq> 0 then convertHex (v div 16) else []) @ [digitsHex ! (v mod 16)]"
    by (simp add: convertHex_def convertHex_loop.simps [of v])
  show ?case
    using 1 by (cases "v div 16 = 0") (simp_all add: step hex_value_def hex_digit_val_digitsHex)
qed

lemma atoi_dec_int:
  assumes "- (2 ^ 31) \<le> v" and "v < 2 ^ 31"
  shows "atoi (dec_int v) = v"
proof (cases "v < 0")
  case True
  then have "strtol10 (dec_int v) = v"
    using assms(1) by (simp add: strtol10_def dec_int_def isspace_def digits_value_dec_nat)
  with assms show ?thesis by (simp add: atoi_def)
next
  case False
  then show ?thesis using atoi_dec_nat [of "nat v" "[]"] assms(2) by (simp add: dec_int_def)
qed

lemma lb_append_cases:
  "length (lb_data b) \<le> lb_size b \<Longrightarrow> lb_size (lb_append s b) = lb_size b \<and> length (lb_data (lb_append s b)) \<le> lb_size b \<and>
   (length (lb_data b) + length s < lb_size b \<longrightarrow> lb_data (lb_append s b) = lb_data b @ s)"
  by (auto simp: lb_append_def lb_avail_def)

lemma lb_number_cases:
  assumes "length (lb_data b) \<le> lb_size b" and "length s < kMaxNumericSize"
  shows "\<exists>b'. (if kMaxNumericSize \<le> lb_avail b then lb_write_add s b else Inr b) = Inr b' \<and> lb_size b' = lb_size b \<and>
    length (lb_data b') \<le> lb_size b \<and> (length (lb_data b) + length s + kMaxNumericSize \<le> lb_size b \<longrightarrow> lb_data b' = lb_data b @ s)"
  using assms by (auto simp: lb_avail_def lb_write_add_def)

lemma stream_put_ok:
  assumes "item_ok x" and "length (lb_data b) \<le> lb_size b"
  shows "\<exists>b'. stream_put x b = Inr b' \<and> lb_size b' = lb_size b \<and> length (lb_data b') \<le> lb_size b \<and>
    (length (lb_data b) + length (item_text x) + kMaxNumericSize \<le> lb_size b \<longrightarrow> lb_data b' = lb_data b @ item_text x)"
proof (cases x)
  case (LogInteger v)
  with assms(1) length_dec_int [of v] have "length (dec_int v) < kMaxNumericSize" by (simp add: kMaxNumericSize_def)
  from lb_number_cases [OF assms(2) this] show ?thesis
    unfolding LogInteger stream_put.simps formatInteger_def convert_eq item_text.simps .
next
  case (LogPointer p)
  with assms(1) length_convertHex [of p] have "length (''0x'' @ convertHex p) < kMaxNumericSize"
    by (simp add: kMaxNumericSize_def)
  from lb_number_cases [OF assms(2) this] show ?thesis
    unfolding LogPointer stream_put.simps log_pointer_def item_text.simps .
qed (use lb_append_cases [OF assms(2), of "item_text x"] in \<open>auto simp: kMaxNumericSize_def\<close>)

lemma stream_puts_ok:
  assumes "list_all item_ok xs" and "length (lb_data b) \<le> lb_size b"
  shows "\<exists>b'. fold_res stream_put xs b = Inr b' \<and> lb_size b' = lb_size b \<and> length (lb_data b') \<le> lb_size b \<and>
    (length (lb_data b) + length (concat (map item_text xs)) + kMaxNumericSize \<le> lb_size b \<longrightarrow>
       lb_data b' = lb_data b @ concat (map item_text xs))"
  using assms
proof (induction xs arbitrary: b)
  case Nil
  then show ?case by simp
next
  case (Cons x xs)
  then obtain b1 where b1: "stream_put x b = Inr b1" "lb_size b1 = lb_size b" "length (lb_data b1) \<le> lb_size b"
      "length (lb_data b) + length (item_text x) + kMaxNumericSize \<le> lb_size b \<longrightarrow> lb_data b1 = lb_data b @ item_text x"
    using stream_put_ok [of x b] by auto
  have "list_all item_ok xs" "length (lb_data b1) \<le> lb_size b1" using Cons.prems(1) b1(2,3) by simp_all
  from Cons.IH [OF this] obtain b2 where b2: "fold_res stream_put xs b1 = Inr b2" "lb_size b2 = lb_size b"
      "length (lb_data b2) \<le> lb_size b"
      "length (lb_data b1) + length (concat (map item_text xs)) + kMaxNumericSize \<le> lb_size b \<longrightarrow>
         lb_data b2 = lb_data b1 @ concat (map item_text xs)"
    unfolding b1(2) by blast
  have "lb_data b2 = lb_data b @ concat (map item_text (x # xs))"
    if len: "length (lb_data b) + length (concat (map item_text (x # xs))) + kMaxNumericSize \<le> lb_size b"
  proof -
    have "lb_data b1 = lb_data b @ item_text x" using b1(4) len by simp
    with b2(4) len show ?thesis by simp
  qed
  with b1(1) b2(1-3) show ?case by simp
qed

lemma length_d2: "n < 100 \<Longrightarrow> length (d2 n) = 2"
  using length_dec_nat_le [of n 2] by (simp add: d2_def length_pad_with)

lemma digits_value_zeros: "digits_value 0 (replicate k (CHR ''0'') @ s) = digits_value 0 s"
proof (induction k)
  case (Suc k)
  have "is_digit (CHR ''0'')" "digit_val (CHR ''0'') = 0" by (simp_all add: is_digit_def digit_val_def)
  with Suc show ?case by simp
qed simp

lemma digits_value_d2: "digits_value 0 (d2 n) = n"
  by (simp add: d2_def pad_with_def digits_value_zeros digits_value_dec_nat)

section \<open>Properties\<close>



text \<open>The hand-written conversions are right. For every 32-bit signed value, the most negative one included,
  \<open>atoi\<close> reads back what \<open>convert\<close> wrote; and for every value \<open>convertHex\<close> writes hexadecimal digits that
  denote it.\<close>

theorem convert_roundtrip:
  assumes "- (2 ^ 31) \<le> v" and "v < 2 ^ 31"
  shows "atoi (convert v) = v \<and> hex_value (convertHex p) = p"
  using atoi_dec_int [OF assms] by (simp add: convert_eq hex_value_convertHex)

theorem convert_roundtrip_witness: "atoi (convert (- 2147483648)) = - 2147483648 \<and> hex_value (convertHex 48879) = 48879"
  using convert_roundtrip [of "- 2147483648" 48879] by simp

text \<open>The time of a log line. For a date of four-digit year the text has 19 characters, so the assertion of
  \<open>_formatTime\<close> holds; but the hour printed is the UTC hour plus 8 without any carry: from 16:00 UTC on it
  is 24 or more, and the date is the one of the day before.\<close>

theorem log_hour_not_carried:
  assumes "1000 \<le> y" and "y < 10000" and "mo \<le> 12" and "d \<le> 31" and "h < 24" and "mi < 60" and "s \<le> 60"
  shows "length (time_text (y, mo, d, h, mi, s)) = 19 \<and>
    digits_value 0 (take 2 (drop 11 (time_text (y, mo, d, h, mi, s)))) = h + 8 \<and> (16 \<le> h \<longrightarrow> 24 \<le> h + 8)"
proof -
  have y: "length (pad_with (CHR '' '') 4 (dec_nat y)) = 4"
    using length_dec_nat_le [of y 4] assms(2) by (simp add: length_pad_with)
  have two: "length (d2 mo) = 2" "length (d2 d) = 2" "length (d2 (h + 8)) = 2" "length (d2 mi) = 2" "length (d2 s) = 2"
    using assms by (simp_all add: length_d2)
  have "take 2 (drop 11 (time_text (y, mo, d, h, mi, s))) = d2 (h + 8)"
    using y two by (simp add: time_text_def)
  then show ?thesis using y two by (simp add: time_text_def digits_value_d2)
qed

theorem log_hour_not_carried_witness:
  "digits_value 0 (take 2 (drop 11 (time_text (2020, 5, 17, 23, 59, 1)))) = 31"
  using log_hour_not_carried [of 2020 5 17 23 59 1] by simp

end
