(* ===== verification/TA_AsyncLogging.thy ===== *)
theory TA_AsyncLogging
  imports TA_LogStream
begin

text \<open>
  The logging back end (\<open>src/Logger/AsyncLogging.h\<close>, \<open>AsyncLogging.cpp\<close>, \<open>LogFile.h\<close>, \<open>LogFile.cpp\<close>,
  \<open>FileUtil.h\<close>, \<open>FileUtil.cpp\<close>, \<open>ptr_vector.h\<close>). The front end appends lines under the mutex; a back-end
  thread collects the full buffers and the current one, writes them to the log file and recycles two of
  them. The threads interleave: \<open>async_step\<close> says which operation can come next. A \<open>unique_ptr\<close> is an
  option, a \<open>ptr_vector\<close> a list, and its \<open>ASSERT\<close>s are aborts.

  Parameter: \<open>fw\<close> is \<open>fwrite_unlocked(3)\<close>, the number of bytes it takes from a string. The file is one
  path; removing and reopening it always succeeds.
\<close>

section \<open>The log file\<close>

record append_file =
  af_content :: string
  af_writtenBytes :: nat

text \<open>Opening for appending keeps what the file has.\<close>

definition AppendFile_ctor :: "string \<Rightarrow> append_file" where
  "AppendFile_ctor content = \<lparr>af_content = content, af_writtenBytes = length content\<rparr>"

text \<open>The write loop of \<open>AppendFile::append\<close>: the number of bytes written in the end, from \<open>nread\<close> on.\<close>

function append_loop :: "(string \<Rightarrow> nat) \<Rightarrow> string \<Rightarrow> nat \<Rightarrow> nat" where
  "append_loop fw line nread =
     (if nread < length line
      then (let n = fw (drop nread line) in if n = 0 then nread else append_loop fw line (nread + n))
      else nread)"
  by pat_completeness auto
termination
  by (relation "measure (\<lambda>(fw, line, nread). length line - nread)") auto

declare append_loop.simps [simp del]

definition file_append :: "(string \<Rightarrow> nat) \<Rightarrow> string \<Rightarrow> append_file \<Rightarrow> append_file" where
  "file_append fw line f =
     (let total = append_loop fw line (fw line)
      in f\<lparr>af_content := af_content f @ take total line, af_writtenBytes := af_writtenBytes f + length line\<rparr>)"

text \<open>Reopening happens on a file that is up to date on disk (\<open>rollFile\<close> is called by
  \<open>append_unlocked\<close> only, where the first branch is not taken).\<close>

record log_file =
  lf_rollSize :: nat
  lf_file :: append_file

definition rollFile :: "log_file \<Rightarrow> log_file" where
  "rollFile l =
     (if af_writtenBytes (lf_file l) < lf_rollSize l
      then l\<lparr>lf_file := AppendFile_ctor (af_content (lf_file l))\<rparr>
      else l\<lparr>lf_file := AppendFile_ctor []\<rparr>)"

definition logfile_append :: "(string \<Rightarrow> nat) \<Rightarrow> string \<Rightarrow> log_file \<Rightarrow> log_file" where
  "logfile_append fw line l =
     (let l1 = l\<lparr>lf_file := file_append fw line (lf_file l)\<rparr>
      in if lf_rollSize l1 < af_writtenBytes (lf_file l1) then rollFile l1 else l1)"

text \<open>What \<open>fwrite\<close> promises: at most the bytes it was given.\<close>

definition fwrite_ok :: "(string \<Rightarrow> nat) \<Rightarrow> bool" where
  "fwrite_ok fw \<longleftrightarrow> (\<forall>s. fw s \<le> length s)"

section \<open>Asynchronous logging\<close>

datatype backend_pc = TestRunning | Collect | WriteOut | Recycle | Exited

text \<open>\<open>al_in\<close> and \<open>al_out\<close> record what was appended, and what was handed to the log file.\<close>

record async_log =
  al_isRunning :: bool
  al_currentBuffer :: "log_buffer option"
  al_nextBuffer :: "log_buffer option"
  al_buffers :: "log_buffer list"
  al_pc :: backend_pc
  al_backupBuffer1 :: "log_buffer option"
  al_backupBuffer2 :: "log_buffer option"
  al_buffersToWrite :: "log_buffer list"
  al_in :: string
  al_out :: string

abbreviation new_buffer :: log_buffer where
  "new_buffer \<equiv> LogBuffer_ctor kLargeBuffer"

text \<open>The constructor, and \<open>start()\<close>: the back-end thread at the head of its loop.\<close>

definition AsyncLogging_start :: async_log where
  "AsyncLogging_start = \<lparr>al_isRunning = True, al_currentBuffer = Some new_buffer, al_nextBuffer = Some new_buffer,
     al_buffers = [], al_pc = TestRunning, al_backupBuffer1 = Some new_buffer, al_backupBuffer2 = Some new_buffer,
     al_buffersToWrite = [], al_in = [], al_out = []\<rparr>"

definition async_append :: "string \<Rightarrow> async_log \<Rightarrow> async_log res" where
  "async_append line s =
     (case al_currentBuffer s of
        None \<Rightarrow> Inl NullDeref
      | Some cur \<Rightarrow>
          if length line < lb_avail cur
          then Inr (s\<lparr>al_currentBuffer := Some (lb_append line cur), al_in := al_in s @ line\<rparr>)
          else (let s1 = s\<lparr>al_buffers := al_buffers s @ [cur]\<rparr>;
                    (cur1, s2) = (case al_nextBuffer s1 of
                        Some b \<Rightarrow> (b, s1\<lparr>al_nextBuffer := None\<rparr>)
                      | None \<Rightarrow> (new_buffer, s1))
                in Inr (s2\<lparr>al_currentBuffer := Some (lb_append line cur1), al_in := al_in s2 @ line\<rparr>)))"

definition async_stop :: "async_log \<Rightarrow> async_log" where
  "async_stop s = s\<lparr>al_isRunning := False\<rparr>"

text \<open>The parts of \<open>threadRoutine\<close>: the loop test, the locked block, the writing, the recycling.\<close>

definition test_running :: "async_log \<Rightarrow> async_log" where
  "test_running s = (if al_isRunning s then s\<lparr>al_pc := Collect\<rparr> else s\<lparr>al_pc := Exited\<rparr>)"

definition collect :: "async_log \<Rightarrow> async_log res" where
  "collect s =
     cassert (al_buffersToWrite s = []) ''buffersToWrite.empty()''
       (case al_currentBuffer s of
          None \<Rightarrow> Inl (Aborted ''NULL point at ptr_vector push_back()'')
        | Some cur \<Rightarrow>
            (let s1 = s\<lparr>al_buffersToWrite := al_buffers s @ [cur], al_buffers := [],
                        al_currentBuffer := al_backupBuffer1 s, al_backupBuffer1 := None, al_pc := WriteOut\<rparr>
             in Inr (if al_nextBuffer s1 = None
                     then s1\<lparr>al_nextBuffer := al_backupBuffer2 s1, al_backupBuffer2 := None\<rparr> else s1)))"

definition write_out :: "async_log \<Rightarrow> async_log res" where
  "write_out s =
     cassert (al_buffersToWrite s \<noteq> []) ''!buffersToWrite.empty()''
       (Inr (s\<lparr>al_out := al_out s @ concat (map lb_data (al_buffersToWrite s)), al_pc := Recycle\<rparr>))"

definition pop_back :: "log_buffer list \<Rightarrow> (log_buffer \<times> log_buffer list) res" where
  "pop_back bs = (if bs = [] then Inl (Aborted ''pop_back() on empty container'') else Inr (last bs, butlast bs))"

definition refill :: "log_buffer option \<Rightarrow> log_buffer list \<Rightarrow> (log_buffer option \<times> log_buffer list) res" where
  "refill backup bs =
     (case backup of
        Some b \<Rightarrow> Inr (Some b, bs)
      | None \<Rightarrow> cassert (bs \<noteq> []) ''!buffersToWrite.empty()''
                  (bind_res (pop_back bs) (\<lambda>(b, bs1). Inr (Some (lb_reset b), bs1))))"

definition recycle :: "async_log \<Rightarrow> async_log res" where
  "recycle s =
     (let bs = (if 2 < length (al_buffersToWrite s) then take 2 (al_buffersToWrite s) else al_buffersToWrite s)
      in bind_res (refill (al_backupBuffer1 s) bs) (\<lambda>(b1, bs1).
         bind_res (refill (al_backupBuffer2 s) bs1) (\<lambda>(b2, bs2).
           Inr (s\<lparr>al_backupBuffer1 := b1, al_backupBuffer2 := b2, al_buffersToWrite := [], al_pc := TestRunning\<rparr>))))"

inductive async_step :: "async_log \<Rightarrow> async_log \<Rightarrow> bool" where
  append_line: "length line < kLargeBuffer \<Longrightarrow> async_append line s = Inr s' \<Longrightarrow> async_step s s'"
| stop: "async_step s (async_stop s)"
| test: "al_pc s = TestRunning \<Longrightarrow> async_step s (test_running s)"
| collect: "al_pc s = Collect \<Longrightarrow> collect s = Inr s' \<Longrightarrow> async_step s s'"
| write_out: "al_pc s = WriteOut \<Longrightarrow> write_out s = Inr s' \<Longrightarrow> async_step s s'"
| recycle: "al_pc s = Recycle \<Longrightarrow> recycle s = Inr s' \<Longrightarrow> async_step s s'"

inductive async_reach :: "async_log \<Rightarrow> bool" where
  initial: "async_reach AsyncLogging_start"
| further: "async_reach s \<Longrightarrow> async_step s s' \<Longrightarrow> async_reach s'"

section \<open>Invariant\<close>

definition buffer_ok :: "log_buffer \<Rightarrow> bool" where
  "buffer_ok b \<longleftrightarrow> lb_size b = kLargeBuffer \<and> length (lb_data b) \<le> kLargeBuffer"

definition spare_ok :: "log_buffer option \<Rightarrow> bool" where
  "spare_ok x \<longleftrightarrow> (case x of None \<Rightarrow> True | Some b \<Rightarrow> b = new_buffer)"

definition async_inv :: "async_log \<Rightarrow> bool" where
  "async_inv s \<longleftrightarrow>
     (\<exists>cur. al_currentBuffer s = Some cur \<and> buffer_ok cur \<and>
        al_in s = al_out s @ (if al_pc s = WriteOut then concat (map lb_data (al_buffersToWrite s)) else []) @
          concat (map lb_data (al_buffers s)) @ lb_data cur) \<and>
     list_all buffer_ok (al_buffers s) \<and> list_all buffer_ok (al_buffersToWrite s) \<and>
     spare_ok (al_nextBuffer s) \<and> spare_ok (al_backupBuffer1 s) \<and> spare_ok (al_backupBuffer2 s) \<and>
     (al_nextBuffer s = None \<longrightarrow> al_buffers s \<noteq> []) \<and>
     (if al_pc s = WriteOut \<or> al_pc s = Recycle
      then al_buffersToWrite s \<noteq> [] \<and> (al_backupBuffer2 s = None \<longrightarrow> 2 \<le> length (al_buffersToWrite s))
      else al_buffersToWrite s = [] \<and> al_backupBuffer1 s \<noteq> None \<and> al_backupBuffer2 s \<noteq> None)"

section \<open>Lemmas\<close>

lemma buffer_ok_new: "buffer_ok new_buffer"
  by (simp add: buffer_ok_def LogBuffer_ctor_def)

lemma lb_append_new: "length line < kLargeBuffer \<Longrightarrow> lb_data (lb_append line new_buffer) = line \<and> buffer_ok (lb_append line new_buffer)"
  by (simp add: lb_append_def lb_avail_def buffer_ok_def LogBuffer_ctor_def)

lemma lb_append_room:
  "buffer_ok b \<Longrightarrow> length line < lb_avail b \<Longrightarrow> lb_data (lb_append line b) = lb_data b @ line \<and> buffer_ok (lb_append line b)"
  by (simp add: lb_append_def lb_avail_def buffer_ok_def)

lemma lb_reset_ok: "buffer_ok b \<Longrightarrow> lb_reset b = new_buffer"
  by (simp add: lb_reset_def buffer_ok_def LogBuffer_ctor_def)

lemma async_inv_start: "async_inv AsyncLogging_start"
  by (simp add: async_inv_def AsyncLogging_start_def spare_ok_def buffer_ok_def LogBuffer_ctor_def)

lemma async_append_ok:
  assumes "async_inv s" and "length line < kLargeBuffer"
  shows "\<exists>s'. async_append line s = Inr s' \<and> async_inv s'"
proof -
  obtain cur where cur: "al_currentBuffer s = Some cur" "buffer_ok cur"
    using assms(1) by (auto simp: async_inv_def)
  show ?thesis
  proof (cases "length line < lb_avail cur")
    case True
    then show ?thesis
      using assms(1) cur lb_append_room [OF cur(2) True] by (auto simp: async_append_def async_inv_def)
  next
    case False
    show ?thesis
    proof (cases "al_nextBuffer s")
      case None
      then show ?thesis
        using False assms(1) cur lb_append_new [OF assms(2)] by (auto simp: async_append_def async_inv_def Let_def)
    next
      case (Some b)
      with assms(1) have "b = new_buffer" by (simp add: async_inv_def spare_ok_def)
      with Some show ?thesis
        using False assms(1) cur lb_append_new [OF assms(2)]
        by (auto simp: async_append_def async_inv_def Let_def spare_ok_def)
    qed
  qed
qed

lemma collect_ok:
  assumes "async_inv s" and "al_pc s = Collect"
  shows "\<exists>s'. collect s = Inr s' \<and> async_inv s'"
proof -
  obtain cur b1 b2 where cur: "al_currentBuffer s = Some cur" "buffer_ok cur"
    and b: "al_backupBuffer1 s = Some b1" "al_backupBuffer2 s = Some b2" "b1 = new_buffer" "b2 = new_buffer"
    and w: "al_buffersToWrite s = []"
    using assms by (auto simp: async_inv_def spare_ok_def)
  have next_empty: "al_nextBuffer s = None \<Longrightarrow> al_buffers s \<noteq> []" using assms(1) by (simp add: async_inv_def)
  show ?thesis
  proof (cases "al_nextBuffer s")
    case None
    then have "Suc 0 \<le> length (al_buffers s)" using next_empty by (cases "al_buffers s") auto
    then show ?thesis
      using None assms cur b w buffer_ok_new
      by (auto simp: collect_def async_inv_def spare_ok_def Let_def LogBuffer_ctor_def buffer_ok_def)
  next
    case (Some b0)
    then show ?thesis
      using assms cur b w by (auto simp: collect_def async_inv_def spare_ok_def Let_def LogBuffer_ctor_def buffer_ok_def)
  qed
qed

lemma write_out_ok:
  assumes "async_inv s" and "al_pc s = WriteOut"
  shows "\<exists>s'. write_out s = Inr s' \<and> async_inv s'"
proof -
  have "al_buffersToWrite s \<noteq> []" using assms by (simp add: async_inv_def)
  then have "write_out s = Inr (s\<lparr>al_out := al_out s @ concat (map lb_data (al_buffersToWrite s)), al_pc := Recycle\<rparr>)"
    by (simp add: write_out_def)
  moreover have "async_inv (s\<lparr>al_out := al_out s @ concat (map lb_data (al_buffersToWrite s)), al_pc := Recycle\<rparr>)"
    using assms unfolding async_inv_def by simp
  ultimately show ?thesis by blast
qed

lemma refill_ok:
  assumes "list_all buffer_ok bs" and "spare_ok x" and "x = None \<Longrightarrow> bs \<noteq> []"
  shows "\<exists>bs'. refill x bs = Inr (Some new_buffer, bs') \<and> list_all buffer_ok bs' \<and>
    (if x = None then length bs = Suc (length bs') else bs' = bs)"
proof (cases x)
  case None
  then have ne: "bs \<noteq> []" using assms(3) by simp
  then have "buffer_ok (last bs)" "list_all buffer_ok (butlast bs)"
    using assms(1) by (auto simp: list_all_iff dest: in_set_butlastD)
  with None ne show ?thesis by (simp add: refill_def pop_back_def lb_reset_ok)
next
  case (Some b)
  with assms show ?thesis by (simp add: refill_def spare_ok_def)
qed

lemma recycle_ok:
  assumes "async_inv s" and "al_pc s = Recycle"
  shows "\<exists>s'. recycle s = Inr s' \<and> async_inv s'"
proof -
  let ?w = "al_buffersToWrite s"
  let ?bs = "if 2 < length ?w then take 2 ?w else ?w"
  have w: "list_all buffer_ok ?w" "?w \<noteq> []" "al_backupBuffer2 s = None \<longrightarrow> 2 \<le> length ?w"
      "spare_ok (al_backupBuffer1 s)" "spare_ok (al_backupBuffer2 s)"
    using assms by (auto simp: async_inv_def)
  have bs: "list_all buffer_ok ?bs" "?bs \<noteq> []" "al_backupBuffer2 s = None \<longrightarrow> 2 \<le> length ?bs"
    using w(1-3) by (auto simp: list_all_iff dest: in_set_takeD)
  obtain bs1 where bs1: "refill (al_backupBuffer1 s) ?bs = Inr (Some new_buffer, bs1)" "list_all buffer_ok bs1"
      "if al_backupBuffer1 s = None then length ?bs = Suc (length bs1) else bs1 = ?bs"
    using refill_ok [OF bs(1) w(4)] bs(2) by blast
  have "al_backupBuffer2 s = None \<Longrightarrow> bs1 \<noteq> []" using bs(2,3) bs1(3) by (auto split: if_splits)
  with refill_ok [OF bs1(2) w(5)] obtain bs2 where bs2: "refill (al_backupBuffer2 s) bs1 = Inr (Some new_buffer, bs2)"
    by blast
  let ?s' = "s\<lparr>al_backupBuffer1 := Some new_buffer, al_backupBuffer2 := Some new_buffer, al_buffersToWrite := [],
    al_pc := TestRunning\<rparr>"
  have "recycle s = Inr ?s'" using bs1(1) bs2 by (simp add: recycle_def Let_def)
  moreover have "async_inv ?s'" using assms by (auto simp: async_inv_def spare_ok_def)
  ultimately show ?thesis by blast
qed

lemma async_step_inv: "async_step s s' \<Longrightarrow> async_inv s \<Longrightarrow> async_inv s'"
proof (induction rule: async_step.induct)
  case (append_line line s s')
  then show ?case using async_append_ok [of s line] by auto
next
  case (stop s)
  then show ?case by (cases "al_pc s") (simp_all add: async_stop_def async_inv_def)
next
  case (test s)
  then show ?case by (auto simp: test_running_def async_inv_def)
next
  case (collect s s')
  then show ?case using collect_ok [of s] by auto
next
  case (write_out s s')
  then show ?case using write_out_ok [of s] by auto
next
  case (recycle s s')
  then show ?case using recycle_ok [of s] by auto
qed

lemma async_reach_inv: "async_reach s \<Longrightarrow> async_inv s"
  by (induction rule: async_reach.induct) (auto intro: async_inv_start async_step_inv)

lemma append_loop_all:
  assumes "fwrite_ok fw" and "\<And>t. t \<noteq> [] \<Longrightarrow> 0 < fw t" and "n \<le> length line"
  shows "append_loop fw line n = length line"
  using assms(3)
proof (induction "length line - n" arbitrary: n rule: less_induct)
  case less
  show ?case
  proof (cases "n < length line")
    case True
    then have pos: "0 < fw (drop n line)" using assms(2) by simp
    have "fw (drop n line) \<le> length (drop n line)" using assms(1) by (simp only: fwrite_ok_def)
    then have "n + fw (drop n line) \<le> length line" using True by simp
    with less.hyps [of "n + fw (drop n line)"] True pos show ?thesis
      by (subst append_loop.simps) (auto simp: Let_def)
  next
    case False
    with less.prems show ?thesis by (subst append_loop.simps) simp
  qed
qed

lemma file_append_all:
  assumes "fwrite_ok fw" and "\<And>t. t \<noteq> [] \<Longrightarrow> 0 < fw t"
  shows "file_append fw line f = f\<lparr>af_content := af_content f @ line, af_writtenBytes := af_writtenBytes f + length line\<rparr>"
proof -
  have "fw line \<le> length line" using assms(1) by (simp only: fwrite_ok_def)
  from append_loop_all [OF assms this] show ?thesis by (simp add: file_append_def)
qed

section \<open>Properties\<close>


text \<open>A run of one line, one round of the back end, another line, and the stop.\<close>

lemma sample_append:
  "async_append ''a'' AsyncLogging_start =
     Inr (AsyncLogging_start\<lparr>al_currentBuffer := Some (lb_append ''a'' new_buffer), al_in := ''a''\<rparr>)"
  by (simp add: async_append_def AsyncLogging_start_def lb_avail_def LogBuffer_ctor_def kLargeBuffer_def)

lemma sample_reach: "async_reach (AsyncLogging_start\<lparr>al_currentBuffer := Some (lb_append ''a'' new_buffer), al_in := ''a''\<rparr>)"
  by (rule async_reach.further [OF async_reach.initial async_step.append_line [OF _ sample_append]])
    (simp add: kLargeBuffer_def)


text \<open>Stopping loses the tail of the log. The back-end thread tests \<open>m_isRunning\<close> at the head of its loop and
  leaves without collecting again: there is a reachable final state in which a line was appended and
  nothing of it was handed to the log file.\<close>

theorem stop_loses_lines:
  "\<exists>s. async_reach s \<and> al_pc s = Exited \<and> al_in s = ''a'' \<and> al_out s = []"
proof -
  let ?s1 = "AsyncLogging_start\<lparr>al_currentBuffer := Some (lb_append ''a'' new_buffer), al_in := ''a''\<rparr>"
  let ?s2 = "async_stop ?s1"
  have r2: "async_reach ?s2" by (rule async_reach.further [OF sample_reach async_step.stop])
  have "async_step ?s2 (test_running ?s2)"
    by (rule async_step.test) (simp add: async_stop_def AsyncLogging_start_def)
  with r2 have "async_reach (test_running ?s2)" by (rule async_reach.further)
  then show ?thesis
    by (intro exI [of _ "test_running ?s2"]) (simp add: test_running_def async_stop_def AsyncLogging_start_def)
qed

text \<open>Rolling deletes the log. As long as \<open>fwrite\<close> makes progress, appending a line writes all of it; but when
  the count of written bytes exceeds the roll size, \<open>rollFile\<close> removes the file it has just written
  to and starts an empty one, so everything logged so far is gone.\<close>

theorem roll_deletes_log:
  assumes "fwrite_ok fw" and "\<And>t. t \<noteq> [] \<Longrightarrow> 0 < fw t"
    and "af_writtenBytes (lf_file l) = length (af_content (lf_file l))"
  shows "af_content (lf_file (logfile_append fw line l)) =
      (if lf_rollSize l < length (af_content (lf_file l)) + length line then [] else af_content (lf_file l) @ line) \<and>
    af_writtenBytes (lf_file (logfile_append fw line l)) = length (af_content (lf_file (logfile_append fw line l)))"
proof -
  have "file_append fw line (lf_file l) = (lf_file l)
      \<lparr>af_content := af_content (lf_file l) @ line, af_writtenBytes := af_writtenBytes (lf_file l) + length line\<rparr>"
    by (rule file_append_all [OF assms(1,2)])
  then show ?thesis using assms(3) by (simp add: logfile_append_def rollFile_def AppendFile_ctor_def Let_def)
qed

theorem roll_deletes_log_witness:
  "af_content (lf_file (logfile_append length ''cde'' \<lparr>lf_rollSize = 4, lf_file = AppendFile_ctor ''ab''\<rparr>)) = []"
  using roll_deletes_log [of length "\<lparr>lf_rollSize = 4, lf_file = AppendFile_ctor ''ab''\<rparr>" "''cde''"]
  by (simp add: fwrite_ok_def AppendFile_ctor_def)

end
