(* ===== verification/TA_RedisCommand.thy ===== *)
theory TA_RedisCommand
  imports TA_Format "HOL-Library.Sublist"
begin

text \<open>
  The Redis protocol (\<open>RedisConnect::Command\<close> of \<open>src/Redis/RedisConnect.h\<close>): printing a command and
  parsing a reply. The receive buffer is the string \<open>mem\<close>, a \<open>const char*\<close> into it an \<open>int\<close> offset;
  reading outside it is the fault \<open>OutOfRange\<close>. What follows the terminating NUL that \<open>getResult\<close>
  stores after the received bytes is whatever the buffer held before. \<open>parse\<close> calls itself and may not
  end, so it is a \<open>partial_function\<close> into options. A pointer into the buffer is never NULL: the branch
  \<open>end == NULL\<close> of \<open>parse\<close> is not taken.
\<close>

section \<open>Pointers into the buffer\<close>

abbreviation NUL :: char where "NUL \<equiv> CHR 0x00"
abbreviation crlf :: string where "crlf \<equiv> [CHR 0x0D, CHR 0x0A]"

definition rd :: "string \<Rightarrow> int \<Rightarrow> char res" where
  "rd mem p = (if 0 \<le> p \<and> p < int (length mem) then Inr (mem ! nat p) else Inl OutOfRange)"

fun find_crlf :: "string \<Rightarrow> nat option" where
  "find_crlf (a # b # s) = (if a = CHR 0x0D \<and> b = CHR 0x0A then Some 0 else map_option Suc (find_crlf (b # s)))"
| "find_crlf [a] = None"
| "find_crlf [] = None"

text \<open>\<open>strstr(p, "\\r\\n")\<close>: looks up to the first NUL; with no NUL and no match it leaves the buffer.\<close>

definition strstr_crlf :: "string \<Rightarrow> int \<Rightarrow> int option res" where
  "strstr_crlf mem p =
     (if p < 0 \<or> int (length mem) \<le> p then Inl OutOfRange
      else case find_crlf (takeWhile (\<lambda>c. c \<noteq> NUL) (drop (nat p) mem)) of
          Some k \<Rightarrow> Inr (Some (p + int k))
        | None \<Rightarrow> if NUL \<in> set (drop (nat p) mem) then Inr None else Inl OutOfRange)"

text \<open>\<open>atoi(p)\<close>: reads blanks, a sign and digits, and the character after them.\<close>

definition after_number :: "string \<Rightarrow> string" where
  "after_number s =
     dropWhile is_digit (case dropWhile isspace s of
        [] \<Rightarrow> []
      | c # cs \<Rightarrow> if c = CHR ''+'' \<or> c = CHR ''-'' then cs else c # cs)"

definition atoi_at :: "string \<Rightarrow> int \<Rightarrow> int res" where
  "atoi_at mem p =
     (if p < 0 \<or> int (length mem) \<le> p \<or> after_number (drop (nat p) mem) = [] then Inl OutOfRange
      else Inr (atoi (drop (nat p) mem)))"

text \<open>\<open>string(p, q)\<close>.\<close>

definition substr :: "string \<Rightarrow> int \<Rightarrow> int \<Rightarrow> string res" where
  "substr mem p q =
     (if 0 \<le> p \<and> p \<le> q \<and> q \<le> int (length mem) then Inr (take (nat (q - p)) (drop (nat p) mem)) else Inl OutOfRange)"

section \<open>Commands and replies\<close>

definition OK :: int where "OK = 1"
definition FAIL :: int where "FAIL = - 1"
definition SYSERR :: int where "SYSERR = - 3"
definition NETERR :: int where "NETERR = - 4"
definition TIMEOUT :: int where "TIMEOUT = - 5"
definition DATAERR :: int where "DATAERR = - 6"
definition PARAMERR :: int where "PARAMERR = - 8"
definition NOTFOUND :: int where "NOTFOUND = - 9"
definition NETCLOSE :: int where "NETCLOSE = - 10"

lemmas redis_codes = OK_def FAIL_def SYSERR_def NETERR_def TIMEOUT_def DATAERR_def PARAMERR_def NOTFOUND_def NETCLOSE_def

record command =
  cmd_status :: int
  cmd_msg :: string
  cmd_res :: "string list"
  cmd_vec :: "string list"

definition Command_ctor :: command where
  "Command_ctor = \<lparr>cmd_status = 0, cmd_msg = [], cmd_res = [], cmd_vec = []\<rparr>"

definition cmd_add :: "string \<Rightarrow> command \<Rightarrow> command" where
  "cmd_add val cmd = cmd\<lparr>cmd_vec := cmd_vec cmd @ [val]\<rparr>"

definition bulk :: "string \<Rightarrow> string" where
  "bulk item = ''$'' @ dec_nat (length item) @ crlf @ item @ crlf"

definition cmd_toString :: "command \<Rightarrow> string" where
  "cmd_toString cmd = ''*'' @ dec_nat (length (cmd_vec cmd)) @ crlf @ concat (map bulk (cmd_vec cmd))"

definition parseNode :: "string \<Rightarrow> int \<Rightarrow> int \<Rightarrow> command \<Rightarrow> (int \<times> command) res" where
  "parseNode mem msg len cmd =
     bind_res (strstr_crlf mem (msg + 1)) (\<lambda>found.
       case found of
         None \<Rightarrow> Inr (msg, cmd)
       | Some e \<Rightarrow> bind_res (atoi_at mem (msg + 1)) (\<lambda>sz.
           if sz < 0 then Inr (msg + sz, cmd)
           else let str = e + 2; fin = str + sz + 2
                in if msg + len < fin then Inr (msg, cmd)
                   else bind_res (substr mem str (str + sz)) (\<lambda>x. Inr (fin, cmd\<lparr>cmd_res := cmd_res cmd @ [x]\<rparr>))))"

text \<open>The \<open>while (cnt > 0)\<close> loop of \<open>parse\<close> and how it ends.\<close>

datatype nodes_end = NodesDone | NodesIncomplete | NodesNested int

fun parse_nodes :: "string \<Rightarrow> int \<Rightarrow> nat \<Rightarrow> int \<Rightarrow> command \<Rightarrow> (nodes_end \<times> command) res" where
  "parse_nodes mem tail 0 str cmd = Inr (NodesDone, cmd)"
| "parse_nodes mem tail (Suc cnt) str cmd =
     bind_res (rd mem str) (\<lambda>c.
       if c = CHR ''*'' then Inr (NodesNested str, cmd)
       else bind_res (parseNode mem str (tail - str) cmd) (\<lambda>(e, cmd1).
         if e = str then Inr (NodesIncomplete, cmd1) else parse_nodes mem tail cnt e cmd1))"

definition parse_bulk :: "string \<Rightarrow> int \<Rightarrow> int \<Rightarrow> command \<Rightarrow> (int \<times> command) res" where
  "parse_bulk mem msg len cmd =
     bind_res (parseNode mem msg len cmd) (\<lambda>(e, cmd1).
       Inr (if e - msg = 0 then TIMEOUT else if e - msg = - 1 then NOTFOUND else OK, cmd1))"

definition parse_line :: "char \<Rightarrow> string \<Rightarrow> int \<Rightarrow> int \<Rightarrow> command \<Rightarrow> (int \<times> command) res" where
  "parse_line c mem str e cmd =
     bind_res (substr mem str e) (\<lambda>m.
       let cmd1 = cmd\<lparr>cmd_status := OK, cmd_msg := m\<rparr>
       in if c = CHR ''+'' then Inr (OK, cmd1)
          else if c = CHR ''-'' then Inr (FAIL, cmd1)
          else bind_res (atoi_at mem str) (\<lambda>n. Inr (OK, cmd1\<lparr>cmd_status := n\<rparr>)))"

partial_function (option) parse :: "string \<Rightarrow> int \<Rightarrow> int \<Rightarrow> command \<Rightarrow> (int \<times> command) res option" where
  "parse mem msg len cmd =
     (case rd mem msg of
        Inl f \<Rightarrow> Some (Inl f)
      | Inr c \<Rightarrow>
          if c = CHR ''$'' then Some (parse_bulk mem msg len cmd)
          else case strstr_crlf mem (msg + 1) of
              Inl f \<Rightarrow> Some (Inl f)
            | Inr None \<Rightarrow> Some (Inr (TIMEOUT, cmd))
            | Inr (Some e) \<Rightarrow>
                if c = CHR ''+'' \<or> c = CHR ''-'' \<or> c = CHR '':'' then Some (parse_line c mem (msg + 1) e cmd)
                else if c = CHR ''*''
                then (case bind_res (atoi_at mem (msg + 1))
                             (\<lambda>cnt. parse_nodes mem (msg + len) (nat cnt) (e + 2) (cmd\<lparr>cmd_vec := []\<rparr>)) of
                        Inl f \<Rightarrow> Some (Inl f)
                      | Inr (NodesDone, cmd1) \<Rightarrow> Some (Inr (int_of_size (length (cmd_res cmd1)), cmd1))
                      | Inr (NodesIncomplete, cmd1) \<Rightarrow> Some (Inr (TIMEOUT, cmd1))
                      | Inr (NodesNested str, cmd1) \<Rightarrow> parse mem str (msg + len - str) cmd1)
                else Some (Inr (DATAERR, cmd)))"

declare parse.simps [code]

section \<open>Lemmas on the buffer\<close>

lemma find_crlf_skip: "CHR 0x0D \<notin> set ds \<Longrightarrow> find_crlf (ds @ crlf @ r) = Some (length ds)"
proof (induction ds)
  case Nil
  then show ?case by simp
next
  case (Cons d ds)
  then have ih: "find_crlf (ds @ crlf @ r) = Some (length ds)" by simp
  from Cons.prems have "d \<noteq> CHR 0x0D" by auto
  with ih show ?case by (cases "ds @ crlf @ r") auto
qed

lemma find_crlf_none: "CHR 0x0A \<notin> set s \<Longrightarrow> find_crlf s = None"
  by (induction s rule: find_crlf.induct) auto

lemma takeWhile_digits: "takeWhile (\<lambda>c. c \<noteq> NUL) (dec_nat n @ crlf @ r) = dec_nat n @ crlf @ takeWhile (\<lambda>c. c \<noteq> NUL) r"
proof -
  have "\<And>x. x \<in> set (dec_nat n) \<Longrightarrow> x \<noteq> NUL" using dec_nat_free(6) by metis
  then show ?thesis by (subst takeWhile_append2) auto
qed

text \<open>At the header of a bulk string, or of an array.\<close>

lemma header_at:
  assumes "mem = pre @ c # dec_nat n @ crlf @ rest" and "n < 2 ^ 31"
  shows "strstr_crlf mem (int (length pre) + 1) = Inr (Some (int (length pre) + 1 + int (length (dec_nat n))))" (is ?A)
    and "atoi_at mem (int (length pre) + 1) = Inr (int n)" (is ?B)
    and "rd mem (int (length pre)) = Inr c"
proof -
  have d: "drop (nat (int (length pre) + 1)) mem = dec_nat n @ crlf @ rest"
    by (simp add: assms(1) nat_add_distrib)
  have l: "\<not> (int (length pre) + 1 < 0 \<or> int (length mem) \<le> int (length pre) + 1)"
    by (simp add: assms(1))
  show ?A using l by (simp only: strstr_crlf_def d takeWhile_digits find_crlf_skip [OF dec_nat_free(4)]) simp
  have h: "\<exists>a as. dec_nat n = a # as \<and> is_digit a" by (rule dec_nat_hd)
  then obtain a as where a: "dec_nat n = a # as" "is_digit a" by blast
  then have "\<not> isspace a" "a \<noteq> CHR ''+''" "a \<noteq> CHR ''-''" by (auto simp: is_digit_def isspace_def)
  then have "after_number (dec_nat n @ crlf @ rest) = dropWhile is_digit (dec_nat n @ crlf @ rest)"
    by (simp add: after_number_def a)
  also have "\<dots> = crlf @ rest" by (subst dropWhile_append2, erule dec_nat_digits) (simp add: is_digit_def)
  finally have "after_number (dec_nat n @ crlf @ rest) \<noteq> []" by simp
  then show ?B using l atoi_dec_nat [OF assms(2), of "crlf @ rest"] by (simp add: atoi_at_def d is_digit_def)
  show "rd mem (int (length pre)) = Inr c" by (simp add: rd_def assms(1))
qed

lemma substr_middle: "mem = a @ x @ b \<Longrightarrow> substr mem (int (length a)) (int (length a) + int (length x)) = Inr x"
  by (simp add: substr_def)

lemma length_bulk: "length (bulk x) = 5 + length (dec_nat (length x)) + length x"
  by (simp add: bulk_def)

lemma parseNode_bulk:
  assumes "mem = pre @ bulk x @ rest" and "length x < 2 ^ 31" and "int (length (bulk x)) \<le> len"
  shows "parseNode mem (int (length pre)) len cmd =
    Inr (int (length pre) + int (length (bulk x)), cmd\<lparr>cmd_res := cmd_res cmd @ [x]\<rparr>)"
proof -
  have m: "mem = pre @ CHR ''$'' # dec_nat (length x) @ crlf @ (x @ crlf @ rest)"
    by (simp add: assms(1) bulk_def)
  have s: "substr mem (int (length pre) + 1 + int (length (dec_nat (length x))) + 2)
      (int (length pre) + 1 + int (length (dec_nat (length x))) + 2 + int (length x)) = Inr x"
    using substr_middle [of mem "pre @ ''$'' @ dec_nat (length x) @ crlf" x "crlf @ rest"] m by (simp add: ac_simps)
  show ?thesis
    using header_at [OF m assms(2)] s assms(3) by (simp add: parseNode_def Let_def length_bulk ac_simps)
qed

lemma parse_nodes_bulks:
  assumes "mem = pre @ concat (map bulk xs) @ rest" and "list_all (\<lambda>x. length x < 2 ^ 31) xs"
    and "int (length pre + length (concat (map bulk xs))) \<le> tail"
  shows "parse_nodes mem tail (length xs) (int (length pre)) cmd = Inr (NodesDone, cmd\<lparr>cmd_res := cmd_res cmd @ xs\<rparr>)"
  using assms
proof (induction xs arbitrary: pre cmd)
  case Nil
  then show ?case by simp
next
  case (Cons x xs)
  have m: "mem = pre @ bulk x @ (concat (map bulk xs) @ rest)" using Cons.prems(1) by simp
  have x: "length x < 2 ^ 31" using Cons.prems(2) by simp
  have len: "int (length (bulk x)) \<le> tail - int (length pre)" using Cons.prems(3) by simp
  have "rd mem (int (length pre)) = Inr (CHR ''$'')" by (simp add: rd_def m bulk_def)
  moreover note parseNode_bulk [OF m x len, of cmd]
  moreover have "parse_nodes mem tail (length xs) (int (length (pre @ bulk x))) (cmd\<lparr>cmd_res := cmd_res cmd @ [x]\<rparr>) =
      Inr (NodesDone, cmd\<lparr>cmd_res := cmd_res cmd @ [x] @ xs\<rparr>)"
    using Cons.IH [of "pre @ bulk x" "cmd\<lparr>cmd_res := cmd_res cmd @ [x]\<rparr>"] Cons.prems by simp
  ultimately show ?case by (simp add: length_bulk)
qed

text \<open>A bulk reply: complete, and cut short anywhere.\<close>

lemma parse_bulk_complete:
  assumes "length x < 2 ^ 31"
  shows "parse (bulk x @ rest) 0 (int (length (bulk x))) cmd = Some (Inr (OK, cmd\<lparr>cmd_res := cmd_res cmd @ [x]\<rparr>))"
proof -
  have "rd (bulk x @ rest) 0 = Inr (CHR ''$'')" by (simp add: rd_def bulk_def)
  moreover have "parseNode (bulk x @ rest) 0 (int (length (bulk x))) cmd =
      Inr (int (length (bulk x)), cmd\<lparr>cmd_res := cmd_res cmd @ [x]\<rparr>)"
    using parseNode_bulk [of "bulk x @ rest" "[]" x rest] assms by simp
  ultimately show ?thesis by (subst parse.simps) (simp add: parse_bulk_def length_bulk)
qed

lemma parse_bulk_header_cut:
  assumes "strict_prefix q (dec_nat n @ crlf)"
  shows "parse ((CHR ''$'' # q) @ NUL # rest) 0 (int (length (CHR ''$'' # q))) cmd = Some (Inr (TIMEOUT, cmd))"
proof -
  from assms obtain c r where r: "dec_nat n @ crlf = q @ c # r" by (rule strict_prefixE')
  have "CHR 0x0A \<notin> set q"
  proof
    assume "CHR 0x0A \<in> set q"
    then obtain a b where "q = a @ CHR 0x0A # b" by (meson split_list)
    with r have "(dec_nat n @ [CHR 0x0D]) @ CHR 0x0A # [] = a @ CHR 0x0A # (b @ c # r)" by simp
    moreover have "CHR 0x0A \<notin> set (dec_nat n @ [CHR 0x0D])" by simp
    ultimately have "b @ c # r = []" by (metis append_Cons_eq_iff list.set(1) empty_iff append_Nil)
    then show False by simp
  qed
  moreover have "NUL \<notin> set q"
  proof
    assume "NUL \<in> set q"
    then have "NUL \<in> set (dec_nat n @ crlf)" unfolding r by simp
    then show False by simp
  qed
  then have "takeWhile (\<lambda>c. c \<noteq> NUL) (q @ NUL # rest) = q" by (subst takeWhile_append2) auto
  ultimately have "strstr_crlf ((CHR ''$'' # q) @ NUL # rest) 1 = Inr None"
    by (simp add: strstr_crlf_def find_crlf_none)
  then show ?thesis by (subst parse.simps) (simp add: parse_bulk_def parseNode_def rd_def)
qed

lemma parse_bulk_body_cut:
  assumes "length x < 2 ^ 31" and "length q < length x + 2"
  shows "parse ((''$'' @ dec_nat (length x) @ crlf @ q) @ NUL # rest) 0 (int (length (''$'' @ dec_nat (length x) @ crlf @ q))) cmd
    = Some (Inr (TIMEOUT, cmd))"
proof -
  let ?m = "(''$'' @ dec_nat (length x) @ crlf @ q) @ NUL # rest"
  have m: "?m = [] @ CHR ''$'' # dec_nat (length x) @ crlf @ (q @ NUL # rest)" by simp
  note h = header_at [OF m assms(1)]
  have "parseNode ?m 0 (int (length (''$'' @ dec_nat (length x) @ crlf @ q))) cmd = Inr (0, cmd)"
    using h(1,2) assms(2) by (simp add: parseNode_def Let_def)
  then show ?thesis using h(3) by (subst parse.simps) (simp add: parse_bulk_def)
qed

lemma strict_prefix_past: "strict_prefix p (xs @ ys) \<Longrightarrow> \<not> strict_prefix p xs \<Longrightarrow> \<exists>q. p = xs @ q"
  by (auto simp: strict_prefix_def prefix_append)

lemma parse_bulk_cut:
  assumes "strict_prefix p (bulk x)" and "p \<noteq> []" and "length x < 2 ^ 31"
  shows "parse (p @ NUL # rest) 0 (int (length p)) cmd = Some (Inr (TIMEOUT, cmd))"
proof -
  obtain p' where p: "p = CHR ''$'' # p'" and p': "strict_prefix p' ((dec_nat (length x) @ crlf) @ x @ crlf)"
    using assms(1,2) by (cases p) (auto simp: bulk_def)
  show ?thesis
  proof (cases "strict_prefix p' (dec_nat (length x) @ crlf)")
    case True
    from parse_bulk_header_cut [OF this] show ?thesis by (simp add: p)
  next
    case False
    then obtain q where q: "p' = (dec_nat (length x) @ crlf) @ q"
      using strict_prefix_past [OF p'] by blast
    with p' have "length q < length x + 2" by (auto dest: prefix_length_less)
    from parse_bulk_body_cut [OF assms(3) this] show ?thesis by (simp add: p q)
  qed
qed

text \<open>An array reply: complete, and cut after some of its elements, with NULs behind.\<close>

abbreviation array_head :: "nat \<Rightarrow> string" where
  "array_head n \<equiv> ''*'' @ dec_nat n @ crlf"

lemma parse_array_complete:
  assumes "list_all (\<lambda>x. length x < 2 ^ 31) xs" and "length xs < 2 ^ 31"
    and "len = int (length (array_head (length xs) @ concat (map bulk xs)))"
  shows "parse (array_head (length xs) @ concat (map bulk xs) @ rest) 0 len cmd =
    Some (Inr (int_of_size (length (cmd_res cmd @ xs)), cmd\<lparr>cmd_res := cmd_res cmd @ xs, cmd_vec := []\<rparr>))"
proof -
  let ?m = "array_head (length xs) @ concat (map bulk xs) @ rest"
  have m: "?m = [] @ CHR ''*'' # dec_nat (length xs) @ crlf @ (concat (map bulk xs) @ rest)" by simp
  note h = header_at [OF m assms(2)]
  have "parse_nodes ?m len (length xs) (int (length (array_head (length xs)))) (cmd\<lparr>cmd_vec := []\<rparr>) =
      Inr (NodesDone, cmd\<lparr>cmd_res := cmd_res cmd @ xs, cmd_vec := []\<rparr>)"
    using parse_nodes_bulks [OF _ assms(1), of ?m "array_head (length xs)" rest len "cmd\<lparr>cmd_vec := []\<rparr>"] assms(3) by simp
  moreover have "int (length (array_head (length xs))) = 3 + int (length (dec_nat (length xs)))" by simp
  ultimately show ?thesis using h assms(2) by (subst parse.simps) (simp add: algebra_simps)
qed

lemma parse_nodes_cut:
  assumes "mem = pre @ concat (map bulk xs) @ NUL # NUL # rest" and "list_all (\<lambda>x. length x < 2 ^ 31) xs"
    and "tail = int (length pre + length (concat (map bulk xs)))"
  shows "parse_nodes mem tail (length xs + Suc k) (int (length pre)) cmd = Inr (NodesIncomplete, cmd\<lparr>cmd_res := cmd_res cmd @ xs\<rparr>)"
  using assms
proof (induction xs arbitrary: pre cmd)
  case Nil
  then show ?case by (simp add: rd_def parseNode_def strstr_crlf_def nat_add_distrib)
next
  case (Cons x xs)
  have m: "mem = pre @ bulk x @ (concat (map bulk xs) @ NUL # NUL # rest)" using Cons.prems(1) by simp
  have x: "length x < 2 ^ 31" using Cons.prems(2) by simp
  have len: "int (length (bulk x)) \<le> tail - int (length pre)" using Cons.prems(3) by simp
  have "rd mem (int (length pre)) = Inr (CHR ''$'')" by (simp add: rd_def m bulk_def)
  moreover note parseNode_bulk [OF m x len, of cmd]
  moreover have "parse_nodes mem tail (length xs + Suc k) (int (length (pre @ bulk x))) (cmd\<lparr>cmd_res := cmd_res cmd @ [x]\<rparr>) =
      Inr (NodesIncomplete, cmd\<lparr>cmd_res := cmd_res cmd @ [x] @ xs\<rparr>)"
    using Cons.IH [of "pre @ bulk x" "cmd\<lparr>cmd_res := cmd_res cmd @ [x]\<rparr>"] Cons.prems by simp
  ultimately show ?case by (simp add: length_bulk)
qed

lemma parse_array_cut:
  assumes "list_all (\<lambda>x. length x < 2 ^ 31) xs" and "length xs < n" and "n < 2 ^ 31"
    and "len = int (length (array_head n @ concat (map bulk xs)))"
  shows "parse ((array_head n @ concat (map bulk xs)) @ NUL # NUL # rest) 0 len cmd =
    Some (Inr (TIMEOUT, cmd\<lparr>cmd_res := cmd_res cmd @ xs, cmd_vec := []\<rparr>))"
proof -
  let ?m = "(array_head n @ concat (map bulk xs)) @ NUL # NUL # rest"
  have m: "?m = [] @ CHR ''*'' # dec_nat n @ crlf @ (concat (map bulk xs) @ NUL # NUL # rest)" by simp
  note h = header_at [OF m assms(3)]
  from assms(2) obtain k where k: "n = length xs + Suc k" using less_iff_Suc_add by auto
  have "parse_nodes ?m len (length xs + Suc k) (int (length (array_head n))) (cmd\<lparr>cmd_vec := []\<rparr>) =
      Inr (NodesIncomplete, cmd\<lparr>cmd_res := cmd_res cmd @ xs, cmd_vec := []\<rparr>)"
    by (subst parse_nodes_cut [OF _ assms(1)]) (simp_all add: assms(4))
  then have "parse_nodes ?m len n (int (length (array_head n))) (cmd\<lparr>cmd_vec := []\<rparr>) =
      Inr (NodesIncomplete, cmd\<lparr>cmd_res := cmd_res cmd @ xs, cmd_vec := []\<rparr>)"
    unfolding k [symmetric] .
  moreover have "int (length (array_head n)) = 3 + int (length (dec_nat n))" by simp
  ultimately show ?thesis using h by (subst parse.simps) (simp add: algebra_simps)
qed

section \<open>Properties\<close>

text \<open>C19: what a command prints is what a reply parser reads. The text of a command is an array of bulk strings,
  and \<open>parse\<close> on it, followed by the NUL and anything else in the buffer, returns the number of elements
  and exactly the elements, whatever bytes they contain (CR, LF and NUL included).\<close>

theorem command_roundtrip:
  assumes "list_all (\<lambda>x. length x < 2 ^ 31) (cmd_vec cmd)" and "length (cmd_vec cmd) < 2 ^ 31" and "cmd_res cmd1 = []"
  shows "parse (cmd_toString cmd @ rest) 0 (int (length (cmd_toString cmd))) cmd1 =
    Some (Inr (int (length (cmd_vec cmd)), cmd1\<lparr>cmd_res := cmd_vec cmd, cmd_vec := []\<rparr>))"
  using parse_array_complete [OF assms(1,2) refl, of rest cmd1] assms(2,3) by (simp add: cmd_toString_def)

theorem command_roundtrip_witness:
  "parse (cmd_toString (cmd_add [CHR 0x0D, CHR 0x0A, CHR 0x00] (cmd_add ''get'' Command_ctor)) @ [CHR 0x00]) 0
     (int (length (cmd_toString (cmd_add [CHR 0x0D, CHR 0x0A, CHR 0x00] (cmd_add ''get'' Command_ctor))))) Command_ctor =
   Some (Inr (2, Command_ctor\<lparr>cmd_res := [''get'', [CHR 0x0D, CHR 0x0A, CHR 0x00]], cmd_vec := []\<rparr>))"
  using command_roundtrip [of "cmd_add [CHR 0x0D, CHR 0x0A, CHR 0x00] (cmd_add ''get'' Command_ctor)" Command_ctor "[CHR 0x00]"]
  by (simp add: cmd_add_def Command_ctor_def)

text \<open>A negative length other than \<open>-1\<close> in an array moves the cursor back by as much: with \<open>$-4\<close> right after the
  array header it is back at the array, which is parsed again, for ever.\<close>

abbreviation looping_reply :: string where
  "looping_reply \<equiv> ''*2'' @ crlf @ ''$-4'' @ crlf"

lemma looping_nodes:
  "parse_nodes (looping_reply @ NUL # rest) 10 2 4 cmd = Inr (NodesNested 0, cmd)"
  by (simp add: numeral_2_eq_2 rd_def parseNode_def strstr_crlf_def atoi_at_def after_number_def isspace_def is_digit_def
      atoi_def strtol10_def digit_val_def Let_def)

theorem parse_diverges: "parse (looping_reply @ NUL # rest) 0 10 cmd = None"
proof (rule ccontr)
  assume "parse (looping_reply @ NUL # rest) 0 10 cmd \<noteq> None"
  then obtain r where "parse (looping_reply @ NUL # rest) 0 10 cmd = Some r" by blast
  moreover have "mem = looping_reply @ NUL # rest \<and> msg = 0 \<and> len = 10 \<longrightarrow> False"
    if "parse mem msg len cmd = Some r" for mem msg len cmd r
    using that
  proof (induction mem msg len cmd r rule: parse.raw_induct [rotated 1, consumes 1])
    case (1 parse' mem msg len cmd r)
    show ?case
    proof
      assume a: "mem = looping_reply @ NUL # rest \<and> msg = 0 \<and> len = 10"
      have "strstr_crlf (looping_reply @ NUL # rest) 1 = Inr (Some 2)" by (simp add: strstr_crlf_def)
      moreover have "atoi_at (looping_reply @ NUL # rest) 1 = Inr 2"
        by (simp add: atoi_at_def after_number_def isspace_def is_digit_def atoi_def strtol10_def digit_val_def)
      moreover have "rd (looping_reply @ NUL # rest) 0 = Inr (CHR ''*'')" by (simp add: rd_def)
      ultimately have "parse' (looping_reply @ NUL # rest) 0 10 (cmd\<lparr>cmd_vec := []\<rparr>) = Some r"
        using "1.hyps" looping_nodes [of rest "cmd\<lparr>cmd_vec := []\<rparr>"] by (simp add: a)
      from "1.IH" [OF this] show False by simp
    qed
  qed
  ultimately show False by blast
qed

end
