(* ===== verification/TA_RedisConnect.thy ===== *)
theory TA_RedisConnect
  imports TA_RedisCommand
begin

text \<open>
  The Redis client (\<open>RedisConnect\<close> of \<open>src/Redis/RedisConnect.h\<close>, and \<open>RedisCache.cpp\<close>): its socket, the
  exchange of one command (\<open>Command::getResult\<close>), connecting, the commands, and the cache on top.
  A run that does not end is \<open>None\<close>, a fault is \<open>Inl\<close>.

  Parameters (\<open>redis_env\<close>): the system calls \<open>send(2)\<close> and \<open>recv(2)\<close> on a network state of any type,
  the outcomes of the calls that set up a connection, and the contents of a freshly allocated buffer.
\<close>

section \<open>The socket\<close>

definition EINTR :: nat where "EINTR = 4"

definition IsSocketTimeout :: "nat \<Rightarrow> bool" where
  "IsSocketTimeout errno \<longleftrightarrow> errno = 0 \<or> errno = 11 \<or> errno = EINTR"

definition IsSocketClosed :: "int \<Rightarrow> bool" where
  "IsSocketClosed sock \<longleftrightarrow> sock = - 1 \<or> sock < 0"

text \<open>\<open>tx net s\<close> is \<open>send\<close>: its return value and \<open>errno\<close>. \<open>rx net n\<close> is \<open>recv\<close> of at most \<open>n\<close> bytes: the
  bytes (none when the peer closed), or \<open>errno\<close>.\<close>

type_synonym 'n tx = "'n \<Rightarrow> string \<Rightarrow> (int \<times> nat) \<times> 'n"
type_synonym 'n rx = "'n \<Rightarrow> nat \<Rightarrow> (nat + string) \<times> 'n"

function write_loop :: "'n tx \<Rightarrow> string \<Rightarrow> nat \<Rightarrow> nat \<Rightarrow> 'n \<Rightarrow> int \<times> 'n" where
  "write_loop tx data tries writed net =
     (if writed < length data
      then (case tx net (drop writed data) of ((num, errno), net1) \<Rightarrow>
              if 0 < num
              then (if 8 < num then write_loop tx data 0 (writed + nat num) net1
                    else if 100 < tries + 1 then (TIMEOUT, net1)
                    else write_loop tx data (tries + 1) (writed + nat num) net1)
              else if IsSocketTimeout errno
              then (if 100 < tries + 1 then (TIMEOUT, net1) else write_loop tx data (tries + 1) writed net1)
              else (NETERR, net1))
      else (int writed, net))"
  by pat_completeness auto
termination
  by (relation "measures [\<lambda>(tx, data, tries, writed, net). length data - writed, \<lambda>(tx, data, tries, writed, net). 101 - tries]")
    auto

declare write_loop.simps [simp del]

text \<open>\<open>count\<close> is an \<open>int\<close>, converted from the length of the data.\<close>

definition sock_write :: "'n tx \<Rightarrow> string \<Rightarrow> 'n \<Rightarrow> int \<times> 'n" where
  "sock_write tx data net = write_loop tx (take (nat (int_of_size (length data))) data) 0 0 net"

text \<open>\<open>read(data, count, true)\<close>: what was read so far is \<open>got\<close>.\<close>

function read_loop :: "'n rx \<Rightarrow> nat \<Rightarrow> nat \<Rightarrow> string \<Rightarrow> 'n \<Rightarrow> int \<times> string \<times> 'n" where
  "read_loop rx count tries got net =
     (if length got < count
      then (case rx net (count - length got) of
              (Inr [], net1) \<Rightarrow> (NETCLOSE, got, net1)
            | (Inr (c # cs), net1) \<Rightarrow>
                if 8 < length (c # cs) then read_loop rx count 0 (got @ c # cs) net1
                else if 100 < tries + 1 then (TIMEOUT, got, net1)
                else read_loop rx count (tries + 1) (got @ c # cs) net1
            | (Inl errno, net1) \<Rightarrow>
                if IsSocketTimeout errno
                then (if 100 < tries + 1 then (TIMEOUT, got, net1) else read_loop rx count (tries + 1) got net1)
                else (NETERR, got, net1))
      else (int (length got), got, net))"
  by pat_completeness auto
termination
  by (relation "measures [\<lambda>(rx, count, tries, got, net). count - length got, \<lambda>(rx, count, tries, got, net). 101 - tries]")
    auto

declare read_loop.simps [simp del]

text \<open>\<open>read(data, count, false)\<close>.\<close>

definition read_some :: "'n rx \<Rightarrow> nat \<Rightarrow> 'n \<Rightarrow> int \<times> string \<times> 'n" where
  "read_some rx count net =
     (case rx net count of
        (Inr [], net1) \<Rightarrow> (NETCLOSE, [], net1)
      | (Inr (c # cs), net1) \<Rightarrow> (int (length (c # cs)), c # cs, net1)
      | (Inl errno, net1) \<Rightarrow> (if IsSocketTimeout errno then 0 else NETERR, [], net1))"

text \<open>Connecting with a timeout: the outcomes of the system calls, and the socket and the descriptors that
  were closed again.\<close>

record connect_outcome =
  co_socket :: int
  co_connected :: bool
  co_epoll :: int
  co_ready :: bool
  co_writable :: bool
  co_soerror :: int

definition SocketClose :: "int \<Rightarrow> int list" where
  "SocketClose sock = (if IsSocketClosed sock then [] else [sock])"

definition SocketConnectTimeout :: "connect_outcome \<Rightarrow> int \<times> int list" where
  "SocketConnectTimeout o1 =
     (if IsSocketClosed (co_socket o1) then (- 1, [])
      else if co_connected o1 then (co_socket o1, [])
      else if co_epoll o1 < 0 then (- 1, SocketClose (co_socket o1))
      else if co_ready o1 \<and> co_writable o1 \<and> co_soerror o1 = 0 then (co_socket o1, [co_epoll o1])
      else (- 1, co_epoll o1 # SocketClose (co_socket o1)))"

section \<open>The exchange of a command\<close>

definition SOCKET_TIMEOUT :: int where "SOCKET_TIMEOUT = 10"

text \<open>The timeouts of the socket: milliseconds as a \<open>timeval\<close>, with the division of C, which truncates. \<open>setopt\<close> is
  \<open>setsockopt\<close> with \<open>SO_SNDTIMEO\<close> or \<open>SO_RCVTIMEO\<close>. \<open>connect\<close> sets both and ignores the result.\<close>

definition timeval_of :: "int \<Rightarrow> int \<times> int" where
  "timeval_of timeout = (sgn timeout * (\<bar>timeout\<bar> div 1000), sgn timeout * (\<bar>timeout\<bar> mod 1000) * 1000)"

definition SocketSetSendTimeout :: "(int \<Rightarrow> int \<times> int \<Rightarrow> int) \<Rightarrow> int \<Rightarrow> int \<Rightarrow> bool" where
  "SocketSetSendTimeout setopt sock timeout \<longleftrightarrow> setopt sock (timeval_of timeout) = 0"

definition SocketSetRecvTimeout :: "(int \<Rightarrow> int \<times> int \<Rightarrow> int) \<Rightarrow> int \<Rightarrow> int \<Rightarrow> bool" where
  "SocketSetRecvTimeout setopt sock timeout \<longleftrightarrow> setopt sock (timeval_of timeout) = 0"

text \<open>The \<open>timeval\<close> is exact, and legal for a timeout that is not negative; the one in use is ten milliseconds, the step by which
  the receive loop counts its delay.\<close>

lemma timeval_of_exact:
  "fst (timeval_of t) * 1000000 + snd (timeval_of t) = t * 1000" "0 \<le> t \<Longrightarrow> 0 \<le> snd (timeval_of t) \<and> snd (timeval_of t) < 1000000"
proof -
  have "\<bar>t\<bar> div 1000 * 1000000 + \<bar>t\<bar> mod 1000 * 1000 = \<bar>t\<bar> * 1000" by presburger
  then have "sgn t * (\<bar>t\<bar> div 1000 * 1000000 + \<bar>t\<bar> mod 1000 * 1000) = sgn t * \<bar>t\<bar> * 1000" by simp
  then show "fst (timeval_of t) * 1000000 + snd (timeval_of t) = t * 1000"
    using sgn_mult_abs [of t] by (simp add: timeval_of_def algebra_simps)
  show "0 \<le> snd (timeval_of t) \<and> snd (timeval_of t) < 1000000" if "0 \<le> t"
    using that by (cases "t = 0") (auto simp: timeval_of_def)
qed

lemma socket_timeout_step: "timeval_of SOCKET_TIMEOUT = (0, SOCKET_TIMEOUT * 1000)"
  by (simp add: timeval_of_def SOCKET_TIMEOUT_def)

record redis_conn =
  rc_code :: int
  rc_port :: int
  rc_memsz :: nat
  rc_status :: int
  rc_timeout :: int
  rc_buffer :: "string option"
  rc_msg :: string
  rc_host :: string
  rc_sock :: int
  rc_passwd :: string

definition RedisConnect_ctor :: redis_conn where
  "RedisConnect_ctor = \<lparr>rc_code = 0, rc_port = 0, rc_memsz = 0, rc_status = 0, rc_timeout = 0, rc_buffer = None,
     rc_msg = [], rc_host = [], rc_sock = - 1, rc_passwd = []\<rparr>"

record 'n redis_env =
  re_tx :: "'n tx"
  re_rx :: "'n rx"
  re_dial :: "string \<Rightarrow> int \<Rightarrow> int \<Rightarrow> connect_outcome"
  re_fresh :: "nat \<Rightarrow> string"

definition store :: "string \<Rightarrow> nat \<Rightarrow> string \<Rightarrow> string res" where
  "store mem p s = (if p + length s \<le> length mem then Inr (take p mem @ s @ drop (p + length s) mem) else Inl OutOfRange)"

text \<open>The receiving loop of \<open>getResult\<close>.\<close>

function recv_loop :: "'n rx \<Rightarrow> nat \<Rightarrow> int \<Rightarrow> int \<Rightarrow> nat \<Rightarrow> string \<Rightarrow> command \<Rightarrow> 'n
    \<Rightarrow> (int \<times> string \<times> command \<times> 'n) res option" where
  "recv_loop rx maxsz timeout delay readed mem cmd net =
     (if readed < maxsz
      then (case read_some rx (maxsz - readed) net of (len, got, net1) \<Rightarrow>
              if len < 0 then Some (Inr (len, mem, cmd, net1))
              else if len = 0
              then (if timeout < delay + SOCKET_TIMEOUT then Some (Inr (TIMEOUT, mem, cmd, net1))
                    else recv_loop rx maxsz timeout (delay + SOCKET_TIMEOUT) readed mem cmd net1)
              else (case store mem readed (got @ [NUL]) of
                      Inl f \<Rightarrow> Some (Inl f)
                    | Inr mem1 \<Rightarrow>
                        (case parse mem1 0 (int (readed + length got)) cmd of
                           None \<Rightarrow> None
                         | Some (Inl f) \<Rightarrow> Some (Inl f)
                         | Some (Inr (c, cmd1)) \<Rightarrow>
                             if c = TIMEOUT then recv_loop rx maxsz timeout 0 (readed + length got) mem1 cmd1 net1
                             else Some (Inr (c, mem1, cmd1, net1)))))
      else Some (Inr (PARAMERR, mem, cmd, net)))"
  by pat_completeness auto
termination
  by (relation "measures [\<lambda>(rx, maxsz, timeout, delay, readed, mem, cmd, net). maxsz - readed,
        \<lambda>(rx, maxsz, timeout, delay, readed, mem, cmd, net). nat (timeout - delay)]")
    (auto simp: read_some_def SOCKET_TIMEOUT_def NETERR_def NETCLOSE_def split: prod.splits sum.splits list.splits if_splits)

declare recv_loop.simps [simp del]

definition error_message :: "int \<Rightarrow> string" where
  "error_message code =
     (if code = SYSERR then ''system error'' else if code = NETERR then ''network error''
      else if code = DATAERR then ''protocol error'' else if code = TIMEOUT then ''response timeout''
      else if code = NOTFOUND then ''element not found'' else ''unknown error'')"

definition doWork :: "'n redis_env \<Rightarrow> redis_conn \<Rightarrow> command \<Rightarrow> 'n \<Rightarrow> (int \<times> redis_conn \<times> command \<times> 'n) res option" where
  "doWork env r cmd net =
     (case sock_write (re_tx env) (cmd_toString cmd) net of (n, net1) \<Rightarrow>
        if n < 0 then Some (Inr (NETERR, r, cmd, net1))
        else (case rc_buffer r of
                None \<Rightarrow> Some (Inl NullDeref)
              | Some mem \<Rightarrow>
                  (case recv_loop (re_rx env) (rc_memsz r) (rc_timeout r) 0 0 mem cmd net1 of
                     None \<Rightarrow> None
                   | Some (Inl f) \<Rightarrow> Some (Inl f)
                   | Some (Inr (c, mem1, cmd1, net2)) \<Rightarrow> Some (Inr (c, r\<lparr>rc_buffer := Some mem1\<rparr>, cmd1, net2)))))"

definition getResult :: "'n redis_env \<Rightarrow> redis_conn \<Rightarrow> command \<Rightarrow> 'n \<Rightarrow> (redis_conn \<times> command \<times> 'n) res option" where
  "getResult env r cmd net =
     (case doWork env r (cmd\<lparr>cmd_status := 0, cmd_msg := []\<rparr>) net of
        None \<Rightarrow> None
      | Some (Inl f) \<Rightarrow> Some (Inl f)
      | Some (Inr (c, r1, cmd1, net1)) \<Rightarrow>
          (let m = (if c < 0 \<and> cmd_msg cmd1 = [] then error_message c else cmd_msg cmd1);
               cmd2 = cmd1\<lparr>cmd_msg := m\<rparr>
           in Some (Inr (r1\<lparr>rc_code := c, rc_status := cmd_status cmd2, rc_msg := m\<rparr>, cmd2, net1))))"

section \<open>Executing commands\<close>

text \<open>\<open>execute(val, args...)\<close>; the variant with a vector also gives the elements, which are swapped into
  the vector when the code is positive.\<close>

definition execute :: "'n redis_env \<Rightarrow> string list \<Rightarrow> redis_conn \<Rightarrow> 'n \<Rightarrow> (int \<times> redis_conn \<times> 'n) res option" where
  "execute env args r net =
     (case getResult env r (fold cmd_add args Command_ctor) net of
        None \<Rightarrow> None
      | Some (Inl f) \<Rightarrow> Some (Inl f)
      | Some (Inr (r1, cmd, net1)) \<Rightarrow> Some (Inr (rc_code r1, r1, net1)))"

definition execute_vec :: "'n redis_env \<Rightarrow> string list \<Rightarrow> string list \<Rightarrow> redis_conn \<Rightarrow> 'n
    \<Rightarrow> (int \<times> string list \<times> redis_conn \<times> 'n) res option" where
  "execute_vec env vec args r net =
     (case getResult env r (fold cmd_add args Command_ctor) net of
        None \<Rightarrow> None
      | Some (Inl f) \<Rightarrow> Some (Inl f)
      | Some (Inr (r1, cmd, net1)) \<Rightarrow>
          Some (Inr (rc_code r1, if 0 < rc_code r1 then cmd_res cmd else vec, r1, net1)))"

definition rc_isClosed :: "redis_conn \<Rightarrow> bool" where
  "rc_isClosed r = IsSocketClosed (rc_sock r)"

definition getErrorCode :: "redis_conn \<Rightarrow> int" where
  "getErrorCode r = (if rc_isClosed r then FAIL else if rc_code r < 0 then rc_code r else 0)"

definition rc_close :: "redis_conn \<Rightarrow> redis_conn" where
  "rc_close r = r\<lparr>rc_buffer := None, rc_sock := - 1\<rparr>"

definition rc_connect :: "'n redis_env \<Rightarrow> string \<Rightarrow> int \<Rightarrow> int \<Rightarrow> nat \<Rightarrow> redis_conn \<Rightarrow> bool \<times> redis_conn" where
  "rc_connect env host port timeout memsz r =
     (let r1 = rc_close r;
          sock = fst (SocketConnectTimeout (re_dial env host port timeout));
          r2 = r1\<lparr>rc_sock := sock\<rparr>;
          r3 = (if IsSocketClosed sock then r2
                else r2\<lparr>rc_host := host, rc_port := port, rc_memsz := memsz, rc_timeout := timeout,
                        rc_buffer := Some (re_fresh env (memsz + 1))\<rparr>)
      in (rc_buffer r3 \<noteq> None, r3))"

text \<open>A command whose result is the integer of the reply, one whose result is the first element, and one
  whose result is the code.\<close>

type_synonym 'n int_call = "redis_conn \<Rightarrow> 'n \<Rightarrow> (int \<times> redis_conn \<times> 'n) res option"
type_synonym 'n string_call = "string \<Rightarrow> redis_conn \<Rightarrow> 'n \<Rightarrow> (int \<times> string \<times> redis_conn \<times> 'n) res option"
type_synonym 'n vector_call = "string list \<Rightarrow> redis_conn \<Rightarrow> 'n \<Rightarrow> (int \<times> string list \<times> redis_conn \<times> 'n) res option"

definition status_or_code :: "'n redis_env \<Rightarrow> string list \<Rightarrow> 'n int_call" where
  "status_or_code env args r net =
     (case execute env args r net of
        None \<Rightarrow> None
      | Some (Inl f) \<Rightarrow> Some (Inl f)
      | Some (Inr (c, r1, net1)) \<Rightarrow> Some (Inr (if c = OK then rc_status r1 else rc_code r1, r1, net1)))"

definition first_of :: "'n redis_env \<Rightarrow> string list \<Rightarrow> 'n string_call" where
  "first_of env args val r net =
     (case execute_vec env [] args r net of
        None \<Rightarrow> None
      | Some (Inl f) \<Rightarrow> Some (Inl f)
      | Some (Inr (c, vec, r1, net1)) \<Rightarrow>
          if c \<le> 0 then Some (Inr (rc_code r1, val, r1, net1))
          else (case vec of [] \<Rightarrow> Some (Inl OutOfRange) | v # vs \<Rightarrow> Some (Inr (rc_code r1, v, r1, net1))))"

definition ping :: "'n redis_env \<Rightarrow> 'n int_call" where
  "ping env = execute env [''ping'']"

definition redis_del :: "'n redis_env \<Rightarrow> string \<Rightarrow> 'n int_call" where
  "redis_del env key = execute env [''del'', key]"

definition ttl :: "'n redis_env \<Rightarrow> string \<Rightarrow> 'n int_call" where
  "ttl env key = status_or_code env [''ttl'', key]"

definition hlen :: "'n redis_env \<Rightarrow> string \<Rightarrow> 'n int_call" where
  "hlen env key = status_or_code env [''hlen'', key]"

definition auth :: "'n redis_env \<Rightarrow> string \<Rightarrow> 'n int_call" where
  "auth env passwd r net =
     (let r1 = r\<lparr>rc_passwd := passwd\<rparr>
      in if passwd = [] then Some (Inr (OK, r1, net)) else execute env [''auth'', passwd] r1 net)"

definition redis_get :: "'n redis_env \<Rightarrow> string \<Rightarrow> 'n string_call" where
  "redis_get env key = first_of env [''get'', key]"

definition decr :: "'n redis_env \<Rightarrow> string \<Rightarrow> int \<Rightarrow> 'n int_call" where
  "decr env key val = execute env [''decrby'', key, dec_int val]"

definition incr :: "'n redis_env \<Rightarrow> string \<Rightarrow> int \<Rightarrow> 'n int_call" where
  "incr env key val = execute env [''incrby'', key, dec_int val]"

definition expire :: "'n redis_env \<Rightarrow> string \<Rightarrow> int \<Rightarrow> 'n int_call" where
  "expire env key timeout = execute env [''expire'', key, dec_int timeout]"

definition redis_keys :: "'n redis_env \<Rightarrow> string \<Rightarrow> 'n vector_call" where
  "redis_keys env key vec = execute_vec env vec [''keys'', key]"

definition hdel :: "'n redis_env \<Rightarrow> string \<Rightarrow> string \<Rightarrow> 'n int_call" where
  "hdel env key filed = execute env [''hdel'', key, filed]"

definition hget :: "'n redis_env \<Rightarrow> string \<Rightarrow> string \<Rightarrow> 'n string_call" where
  "hget env key filed = first_of env [''hget'', key, filed]"

definition redis_set :: "'n redis_env \<Rightarrow> string \<Rightarrow> string \<Rightarrow> int \<Rightarrow> 'n int_call" where
  "redis_set env key val timeout =
     (if 0 < timeout then execute env [''setex'', key, dec_int timeout, val] else execute env [''set'', key, val])"

definition hset :: "'n redis_env \<Rightarrow> string \<Rightarrow> string \<Rightarrow> string \<Rightarrow> 'n int_call" where
  "hset env key filed val = execute env [''hset'', key, filed, val]"

definition lpop :: "'n redis_env \<Rightarrow> string \<Rightarrow> 'n string_call" where
  "lpop env key = first_of env [''lpop'', key]"

definition rpop :: "'n redis_env \<Rightarrow> string \<Rightarrow> 'n string_call" where
  "rpop env key = first_of env [''rpop'', key]"

definition lpush :: "'n redis_env \<Rightarrow> string \<Rightarrow> string \<Rightarrow> 'n int_call" where
  "lpush env key val = execute env [''lpush'', key, val]"

definition rpush :: "'n redis_env \<Rightarrow> string \<Rightarrow> string \<Rightarrow> 'n int_call" where
  "rpush env key val = execute env [''rpush'', key, val]"

definition lrange :: "'n redis_env \<Rightarrow> string \<Rightarrow> int \<Rightarrow> int \<Rightarrow> 'n vector_call" where
  "lrange env key start fin vec = execute_vec env vec [''lrange'', key, dec_int start, dec_int fin]"

definition zrem :: "'n redis_env \<Rightarrow> string \<Rightarrow> string \<Rightarrow> 'n int_call" where
  "zrem env key filed = execute env [''zrem'', key, filed]"

definition zadd :: "'n redis_env \<Rightarrow> string \<Rightarrow> string \<Rightarrow> int \<Rightarrow> 'n int_call" where
  "zadd env key filed score = execute env [''zadd'', key, dec_int score, filed]"

definition zrange :: "'n redis_env \<Rightarrow> string \<Rightarrow> int \<Rightarrow> int \<Rightarrow> bool \<Rightarrow> 'n vector_call" where
  "zrange env key start fin withscore vec =
     execute_vec env vec ([''zrange'', key, dec_int start, dec_int fin] @ (if withscore then [''withscores''] else []))"

definition reconnect :: "'n redis_env \<Rightarrow> redis_conn \<Rightarrow> 'n \<Rightarrow> (bool \<times> redis_conn \<times> 'n) res option" where
  "reconnect env r net =
     (if rc_host r = [] then Some (Inr (False, r, net))
      else (case rc_connect env (rc_host r) (rc_port r) (rc_timeout r) (rc_memsz r) r of (ok, r1) \<Rightarrow>
              if \<not> ok then Some (Inr (False, r1, net))
              else (case auth env (rc_passwd r1) r1 net of
                      None \<Rightarrow> None
                    | Some (Inl f) \<Rightarrow> Some (Inl f)
                    | Some (Inr (c, r2, net1)) \<Rightarrow> Some (Inr (0 < c, r2, net1)))))"

text \<open>The creator of the connection pool: a connection is given out when \<open>auth\<close> returns anything but zero.\<close>

definition pool_creator :: "'n redis_env \<Rightarrow> redis_conn \<Rightarrow> 'n \<Rightarrow> (redis_conn option \<times> 'n) res option" where
  "pool_creator env template net =
     (case rc_connect env (rc_host template) (rc_port template) (rc_timeout template) (rc_memsz template) RedisConnect_ctor of
        (ok, r) \<Rightarrow>
          if \<not> ok then Some (Inr (None, net))
          else (case auth env (rc_passwd template) r net of
                  None \<Rightarrow> None
                | Some (Inl f) \<Rightarrow> Some (Inl f)
                | Some (Inr (c, r1, net1)) \<Rightarrow> Some (Inr (if c \<noteq> 0 then Some r1 else None, net1))))"

definition Setup :: "string \<Rightarrow> int \<Rightarrow> string \<Rightarrow> int \<Rightarrow> nat \<Rightarrow> redis_conn \<Rightarrow> redis_conn" where
  "Setup host port passwd timeout memsz r =
     r\<lparr>rc_host := host, rc_port := port, rc_memsz := memsz, rc_passwd := passwd, rc_timeout := timeout\<rparr>"

section \<open>The cache on top\<close>

definition RedisCache_set :: "'n redis_env \<Rightarrow> redis_conn option \<Rightarrow> string \<Rightarrow> string \<Rightarrow> 'n \<Rightarrow> (bool \<times> redis_conn \<times> 'n) res option" where
  "RedisCache_set env instance1 key val net =
     (case instance1 of
        None \<Rightarrow> Some (Inl NullDeref)
      | Some r \<Rightarrow> (case redis_set env key val 0 r net of
            None \<Rightarrow> None
          | Some (Inl f) \<Rightarrow> Some (Inl f)
          | Some (Inr (c, r1, net1)) \<Rightarrow> Some (Inr (c \<noteq> PARAMERR, r1, net1))))"

definition RedisCache_get :: "'n redis_env \<Rightarrow> redis_conn option \<Rightarrow> string \<Rightarrow> string \<Rightarrow> 'n \<Rightarrow> (bool \<times> string \<times> redis_conn \<times> 'n) res option" where
  "RedisCache_get env instance1 key val net =
     (case instance1 of
        None \<Rightarrow> Some (Inl NullDeref)
      | Some r \<Rightarrow> (case redis_get env key val r net of
            None \<Rightarrow> None
          | Some (Inl f) \<Rightarrow> Some (Inl f)
          | Some (Inr (c, v, r1, net1)) \<Rightarrow> Some (Inr (c = OK, v, r1, net1))))"

section \<open>Writing\<close>

text \<open>What \<open>send\<close> promises: it takes a prefix of what it is given, and the peer receives it in order.\<close>

definition tx_ok :: "'n tx \<Rightarrow> ('n \<Rightarrow> string) \<Rightarrow> bool" where
  "tx_ok tx sent \<longleftrightarrow> (\<forall>net s num errno net1. tx net s = ((num, errno), net1) \<longrightarrow>
     num \<le> int (length s) \<and> sent net1 = sent net @ take (nat num) s)"

lemma write_loop_sound:
  assumes "tx_ok tx sent" and "writed \<le> length data" and "write_loop tx data tries writed net = (r, net1)"
  shows "(r < 0 \<or> r = int (length data) \<and> sent net1 = sent net @ drop writed data) \<and>
    (\<exists>k. sent net1 = sent net @ take k (drop writed data))"
  using assms(2,3)
proof (induction "(length data - writed, 101 - tries)" arbitrary: tries writed net rule: wf_induct_rule [OF wf_lex_prod [OF wf_less_than wf_less_than]])
  case 1
  show ?case
  proof (cases "writed < length data")
    case False
    with "1.prems" have "r = int (length data) \<and> net1 = net" by (subst (asm) write_loop.simps) auto
    with False show ?thesis by (auto intro: exI [of _ 0])
  next
    case True
    obtain num errno net2 where t: "tx net (drop writed data) = ((num, errno), net2)" by (metis prod.exhaust)
    then have "num \<le> int (length (drop writed data))" and s2: "sent net2 = sent net @ take (nat num) (drop writed data)"
      using assms(1) unfolding tx_ok_def by blast+
    then have num: "num \<le> int (length data - writed)" "sent net2 = sent net @ take (nat num) (drop writed data)" by simp_all
    have eq: "write_loop tx data tries writed net =
        (if 0 < num
         then (if 8 < num then write_loop tx data 0 (writed + nat num) net2
               else if 100 < tries + 1 then (TIMEOUT, net2) else write_loop tx data (tries + 1) (writed + nat num) net2)
         else if IsSocketTimeout errno
         then (if 100 < tries + 1 then (TIMEOUT, net2) else write_loop tx data (tries + 1) writed net2)
         else (NETERR, net2))"
      using True t by (subst write_loop.simps) simp
    have step: ?thesis if "write_loop tx data tries' (writed + nat num) net2 = (r, net1)"
      and lt: "((length data - (writed + nat num), 101 - tries'), (length data - writed, 101 - tries)) \<in> less_than <*lex*> less_than"
      for tries'
    proof -
      have "writed + nat num \<le> length data" using num(1) True by linarith
      note ih = "1.hyps" [OF lt this that(1)]
      have split: "take (nat num) (drop writed data) @ drop (writed + nat num) data = drop writed data"
        by (metis add.commute append_take_drop_id drop_drop)
      have "take (nat num) (drop writed data) @ take k (drop (writed + nat num) data) = take (nat num + k) (drop writed data)" for k
        using take_add [of "nat num" k "drop writed data"] by (simp add: add.commute)
      then show ?thesis using ih num(2) split by (metis append.assoc)
    qed
    show ?thesis
    proof (cases "0 < num")
      case pos: True
      then have "length data - (writed + nat num) < length data - writed" using True by linarith
      then have lt: "((length data - (writed + nat num), 101 - t), (length data - writed, 101 - tries)) \<in> less_than <*lex*> less_than" for t
        by simp
      show ?thesis
        using "1.prems"(2) pos num(2) step [OF _ lt] by (auto simp: eq TIMEOUT_def split: if_splits)
    next
      case False
      then have n0: "nat num = 0" by simp
      show ?thesis
      proof (cases "IsSocketTimeout errno \<and> tries < 100")
        case True
        with "1.prems"(2) False have w: "write_loop tx data (tries + 1) writed net2 = (r, net1)" by (simp add: eq)
        show ?thesis by (rule step [of "tries + 1"]) (use w n0 True in auto)
      next
        case f: False
        with "1.prems"(2) False num(2) n0 show ?thesis by (auto simp: eq TIMEOUT_def NETERR_def split: if_splits)
      qed
    qed
  qed
qed

lemma sock_write_sound:
  assumes "tx_ok tx sent" and "length data < 2 ^ 31" and "sock_write tx data net = (r, net1)"
  shows "(r < 0 \<or> r = int (length data) \<and> sent net1 = sent net @ data) \<and> (\<exists>k. sent net1 = sent net @ take k data)"
  using write_loop_sound [OF assms(1), of 0 data 0 net r net1] assms(2,3) by (simp add: sock_write_def)

section \<open>Receiving\<close>

text \<open>A connection on which \<open>recv\<close> delivers these pieces in this order, with timeouts (\<open>None\<close>) in between; and
  that there are never so many timeouts in a row that the client gives up.\<close>

fun feeds :: "'n rx \<Rightarrow> 'n \<Rightarrow> string option list \<Rightarrow> bool" where
  "feeds rx net [] = True"
| "feeds rx net (None # evs) = (\<exists>net1. (\<forall>n. rx net n = (Inl EINTR, net1)) \<and> feeds rx net1 evs)"
| "feeds rx net (Some c # evs) = (\<exists>net1. (\<forall>n. length c \<le> n \<longrightarrow> rx net n = (Inr c, net1)) \<and> feeds rx net1 evs)"

fun patient :: "int \<Rightarrow> int \<Rightarrow> string option list \<Rightarrow> bool" where
  "patient timeout delay [] = True"
| "patient timeout delay (None # evs) = (delay + SOCKET_TIMEOUT \<le> timeout \<and> patient timeout (delay + SOCKET_TIMEOUT) evs)"
| "patient timeout delay (Some c # evs) = (c \<noteq> [] \<and> patient timeout 0 evs)"

fun pieces :: "string option list \<Rightarrow> string" where
  "pieces [] = []"
| "pieces (None # evs) = pieces evs"
| "pieces (Some c # evs) = c @ pieces evs"

lemma store_ok:
  assumes "length mem = Suc maxsz" and "readed + length got \<le> maxsz"
  shows "\<exists>rest. store mem readed (got @ [NUL]) = Inr (take readed mem @ got @ NUL # rest) \<and>
    length (take readed mem @ got @ NUL # rest) = Suc maxsz"
  using assms by (intro exI [of _ "drop (readed + length got + 1) mem"]) (simp add: store_def)

text \<open>A bulk reply is received whole, however it is cut up.\<close>

lemma recv_loop_bulk:
  assumes "feeds rx net evs" and "patient timeout delay evs" and "take readed mem @ pieces evs = bulk x"
    and "readed < length (bulk x)" and "length (bulk x) \<le> maxsz" and "length mem = Suc maxsz" and "length x < 2 ^ 31"
  shows "\<exists>mem1 net1. recv_loop rx maxsz timeout delay readed mem cmd net =
    Some (Inr (OK, mem1, cmd\<lparr>cmd_res := cmd_res cmd @ [x]\<rparr>, net1))"
  using assms(1-4,6)
proof (induction evs arbitrary: net delay readed mem)
  case Nil
  then show ?case using assms(5) by (metis append_Nil2 length_take min.absorb4 nat_neq_iff pieces.simps(1) less_le_trans
        le_imp_less_Suc min_less_iff_conj)
next
  case (Cons ev evs)
  have room: "readed < maxsz" using Cons.prems(4) assms(5) by simp
  show ?case
  proof (cases ev)
    case None
    with Cons.prems obtain net1 where n: "\<And>n. rx net n = (Inl EINTR, net1)" "feeds rx net1 evs" by auto
    have "recv_loop rx maxsz timeout delay readed mem cmd net =
        recv_loop rx maxsz timeout (delay + SOCKET_TIMEOUT) readed mem cmd net1"
      using room n(1) Cons.prems(2) None
      by (subst recv_loop.simps) (simp add: read_some_def IsSocketTimeout_def)
    then show ?thesis using Cons.IH [OF n(2)] Cons.prems None by simp
  next
    case (Some c)
    have c: "c \<noteq> []" using Cons.prems(2) Some by simp
    have tot: "bulk x = (take readed mem @ c) @ pieces evs" using Cons.prems(3) Some by simp
    have lr: "length (take readed mem) = readed" using Cons.prems(5) room by simp
    have len: "readed + length c \<le> length (bulk x)" using arg_cong [OF tot, of length] lr by simp
    obtain net1 where n: "\<And>n. length c \<le> n \<Longrightarrow> rx net n = (Inr c, net1)" "feeds rx net1 evs"
      using Cons.prems(1) Some by auto
    have rs: "read_some rx (maxsz - readed) net = (int (length c), c, net1)"
      using n(1) [of "maxsz - readed"] len assms(5) c by (cases c) (simp_all add: read_some_def)
    obtain rest where st: "store mem readed (c @ [NUL]) = Inr (take readed mem @ c @ NUL # rest)"
        "length (take readed mem @ c @ NUL # rest) = Suc maxsz"
      using store_ok [of mem maxsz readed c] Cons.prems(5) len assms(5) by auto
    let ?mem = "take readed mem @ c @ NUL # rest"
    have mem: "?mem = (take readed mem @ c) @ NUL # rest" by simp
    show ?thesis
    proof (cases "pieces evs = []")
      case True
      then have b: "take readed mem @ c = bulk x" using tot by simp
      have "parse ?mem 0 (int (readed + length c)) cmd = Some (Inr (OK, cmd\<lparr>cmd_res := cmd_res cmd @ [x]\<rparr>))"
        using parse_bulk_complete [OF assms(7), of "NUL # rest" cmd] lr unfolding mem b by (metis b length_append)
      then show ?thesis using room rs st(1) c by (subst recv_loop.simps) (simp add: OK_def TIMEOUT_def)
    next
      case False
      then have "strict_prefix (take readed mem @ c) (bulk x)" unfolding tot by (simp add: strict_prefix_def)
      from parse_bulk_cut [OF this _ assms(7), of rest cmd] c lr
      have "parse ?mem 0 (int (readed + length c)) cmd = Some (Inr (TIMEOUT, cmd))" by simp
      then have "recv_loop rx maxsz timeout delay readed mem cmd net =
          recv_loop rx maxsz timeout 0 (readed + length c) ?mem cmd net1"
        using room rs st(1) c by (subst recv_loop.simps) simp
      moreover have "readed + length c < length (bulk x)" using arg_cong [OF tot, of length] lr False by simp
      moreover have "take (readed + length c) ?mem @ pieces evs = bulk x" using tot lr by simp
      ultimately show ?thesis using Cons.IH [OF n(2), of 0 "readed + length c" ?mem] Cons.prems(2) Some st(2) by simp
    qed
  qed
qed

section \<open>Properties\<close>


text \<open>A server that takes every request and answers with the given pieces.\<close>

definition script_env :: "string option list redis_env" where
  "script_env = \<lparr>re_tx = (\<lambda>net s. ((int (length s), 0), net)),
     re_rx = (\<lambda>net n. case net of [] \<Rightarrow> (Inl EINTR, []) | None # evs \<Rightarrow> (Inl EINTR, evs) | Some c # evs \<Rightarrow> (Inr c, evs)),
     re_dial = (\<lambda>host port timeout. \<lparr>co_socket = 3, co_connected = True, co_epoll = 4, co_ready = True, co_writable = True, co_soerror = 0\<rparr>),
     re_fresh = (\<lambda>n. replicate n (CHR ''?''))\<rparr>"

lemma script_feeds: "feeds (re_rx script_env) evs evs"
proof (induction evs)
  case Nil
  then show ?case by simp
next
  case (Cons ev evs)
  then show ?case by (cases ev) (auto simp: script_env_def)
qed

abbreviation script_conn :: redis_conn where
  "script_conn \<equiv> snd (rc_connect script_env ''127.0.0.1'' 6379 3000 64 RedisConnect_ctor)"

lemma script_write: "length data < 2 ^ 31 \<Longrightarrow> sock_write (re_tx script_env) data net = (int (length data), net)"
  unfolding sock_write_def by (subst write_loop.simps) (auto simp: script_env_def write_loop.simps IsSocketTimeout_def)


section \<open>Replies the client gets wrong\<close>

text \<open>An array reply that arrives in two pieces, cut between two elements: every attempt to parse it keeps the
  elements it found (\<open>vec\<close> is cleared, \<open>res\<close> is not), so the elements of the first piece are there twice,
  and the returned count includes them. The buffer of this run was filled with zeros.\<close>

theorem split_array_reply_duplicates:
  assumes "xs \<noteq> []" and "ys \<noteq> []" and "list_all (\<lambda>x. length x < 2 ^ 31) (xs @ ys)" and "length (xs @ xs @ ys) < 2 ^ 31"
    and "length (array_head (length (xs @ ys)) @ concat (map bulk (xs @ ys))) < maxsz" and "cmd_res cmd = []"
  shows "\<exists>mem1. recv_loop (re_rx script_env) maxsz timeout 0 0 (replicate (Suc maxsz) NUL) cmd
      [Some (array_head (length (xs @ ys)) @ concat (map bulk xs)), Some (concat (map bulk ys))] =
    Some (Inr (int (length (xs @ xs @ ys)), mem1, cmd\<lparr>cmd_res := xs @ xs @ ys, cmd_vec := []\<rparr>, []))"
proof -
  define n where "n = length (xs @ ys)"
  define a where "a = array_head n @ concat (map bulk xs)"
  define b where "b = concat (map bulk ys)"
  let ?cmd1 = "cmd\<lparr>cmd_res := xs, cmd_vec := []\<rparr>" and ?cmd2 = "cmd\<lparr>cmd_res := xs @ xs @ ys, cmd_vec := []\<rparr>"
  have len: "length a + length b < maxsz" using assms(5) by (simp add: a_def b_def n_def)
  then obtain k where k: "maxsz - length a = Suc k" by (cases "maxsz - length a") auto
  have ne: "a \<noteq> []" "b \<noteq> []" using assms(2) by (auto simp: a_def b_def bulk_def)
  have s1: "store (replicate (Suc maxsz) NUL) 0 (a @ [NUL]) = Inr (a @ NUL # NUL # replicate k NUL)"
    using len k by (simp add: store_def flip: replicate_Suc)
  have n: "length xs < n" "n < 2 ^ 31" using assms(2,4) by (auto simp: n_def)
  have p1: "parse (a @ NUL # NUL # replicate k NUL) 0 (int (length a)) cmd = Some (Inr (TIMEOUT, ?cmd1))"
    using parse_array_cut [OF _ n, of "int (length a)" "replicate k NUL" cmd] assms(3,6) by (simp add: a_def)
  obtain rest where s2: "store (a @ NUL # NUL # replicate k NUL) (length a) (b @ [NUL]) = Inr (a @ b @ NUL # rest)"
  proof -
    have "length (a @ NUL # NUL # replicate k NUL) = Suc maxsz" using len k by simp
    from store_ok [OF this, of "length a" b] len that show ?thesis by auto
  qed
  have p2: "parse (a @ b @ NUL # rest) 0 (int (length a + length b)) ?cmd1 = Some (Inr (int (length (xs @ xs @ ys)), ?cmd2))"
    using parse_array_complete [OF assms(3) _ refl, of "NUL # rest" ?cmd1] n(2) assms(4) by (simp add: a_def b_def n_def)
  have rd1: "read_some (re_rx script_env) m (Some c # evs) = (int (length c), c, evs)" if "c \<noteq> []" for m c evs
    using that by (cases c) (simp_all add: read_some_def script_env_def)
  have "recv_loop (re_rx script_env) maxsz timeout 0 0 (replicate (Suc maxsz) NUL) cmd [Some a, Some b] =
      recv_loop (re_rx script_env) maxsz timeout 0 (length a) (a @ NUL # NUL # replicate k NUL) ?cmd1 [Some b]"
    using len ne s1 p1 by (subst recv_loop.simps) (simp add: rd1)
  also have "\<dots> = Some (Inr (int (length (xs @ xs @ ys)), a @ b @ NUL # rest, ?cmd2, []))"
    using len ne s2 p2 by (subst recv_loop.simps) (simp add: rd1 TIMEOUT_def)
  finally show ?thesis unfolding a_def b_def n_def by blast
qed

text \<open>A rejected password: \<open>reconnect\<close> reports the failure, but the creator of the pool takes the negative code of
  \<open>auth\<close> for success and hands the connection out, which then is in error.\<close>

theorem rejected_password_pooled:
  assumes "rc_connect env (rc_host t) (rc_port t) (rc_timeout t) (rc_memsz t) RedisConnect_ctor = (True, r)"
    and "auth env (rc_passwd t) r net = Some (Inr (c, r1, net1))" and "c < 0" and "rc_passwd t \<noteq> []"
  shows "pool_creator env t net = Some (Inr (Some r1, net1)) \<and> getErrorCode r1 \<noteq> 0"
proof -
  have "rc_code r1 = c"
    using assms(2,4) by (auto simp: auth_def execute_def Let_def split: option.splits sum.splits)
  then show ?thesis using assms(1-3) by (simp add: pool_creator_def getErrorCode_def FAIL_def)
qed

end
