(* ===== verification/TA_Steps.thy ===== *)
theory TA_Steps
  imports TA_Prelude
begin

text \<open>
  Interfaces for the parts of the library that several threads step through: a transition system with an
  invariant, and one whose steps also keep a client's view in agreement with a specification.
\<close>

locale invariant_system =
  fixes starts :: "'s \<Rightarrow> bool" and step :: "'s \<Rightarrow> 's \<Rightarrow> bool" and inv :: "'s \<Rightarrow> bool"
  assumes inv_starts: "starts s \<Longrightarrow> inv s" and inv_step: "step s t \<Longrightarrow> inv s \<Longrightarrow> inv t"
begin

lemma inv_steps: "step\<^sup>*\<^sup>* s t \<Longrightarrow> inv s \<Longrightarrow> inv t"
  by (induction rule: rtranclp_induct) (auto intro: inv_step)

lemma inv_reachable: "starts s \<Longrightarrow> step\<^sup>*\<^sup>* s t \<Longrightarrow> inv t"
  using inv_steps inv_starts by blast

end

text \<open>A step system that implements another: every step is a step of the specification, or none, on the abstract states.\<close>

locale simulation = invariant_system +
  fixes abs :: "'s \<Rightarrow> 'a" and spec :: "'a \<Rightarrow> 'a \<Rightarrow> bool"
  assumes simulates: "inv s \<Longrightarrow> step s t \<Longrightarrow> spec (abs s) (abs t) \<or> abs t = abs s"
begin

lemma simulates_steps: "step\<^sup>*\<^sup>* s t \<Longrightarrow> inv s \<Longrightarrow> spec\<^sup>*\<^sup>* (abs s) (abs t)"
proof (induction rule: rtranclp_induct)
  case (step t u)
  then have "spec (abs t) (abs u) \<or> abs u = abs t" using simulates inv_steps by blast
  then show ?case using step by (auto intro: rtranclp.rtrancl_into_rtrancl)
qed simp

lemma simulates_reachable: "starts s \<Longrightarrow> step\<^sup>*\<^sup>* s t \<Longrightarrow> spec\<^sup>*\<^sup>* (abs s) (abs t)"
  using simulates_steps inv_starts by blast

end

end
