(* ===== verification/TA_ResPool.thy ===== *)
theory TA_ResPool
  imports TA_RedisConnect TA_Steps
begin

text \<open>
  The resource pool (\<open>src/Redis/ResPool.h\<close>) and the pool of Redis connections (\<open>RedisConnect::grasp\<close>).
  A resource is a number, a null \<open>shared_ptr\<close> is \<open>None\<close>; \<open>use_count() == 1\<close> on an entry of the pool says
  that no client holds the resource. \<open>get\<close> locks the mutex twice, around the scan of the entries and
  around the storing of a new resource, and creates the resource in between without the lock: \<open>pool_step\<close>
  interleaves these sections of any number of threads with all other operations.
\<close>

section \<open>Entries\<close>

record pool_item =
  it_num :: int
  it_utime :: int
  it_data :: "nat option"

definition item_get :: "int \<Rightarrow> pool_item \<Rightarrow> pool_item" where
  "item_get now it = it\<lparr>it_utime := now, it_num := it_num it + 1\<rparr>"

definition item_update :: "int \<Rightarrow> nat \<Rightarrow> pool_item" where
  "item_update now r = \<lparr>it_num = 0, it_utime = now, it_data = Some r\<rparr>"

record res_pool =
  rp_maxlen :: int
  rp_timeout :: int
  rp_vec :: "pool_item list"

definition ResPool_ctor :: "int \<Rightarrow> int \<Rightarrow> res_pool" where
  "ResPool_ctor maxlen timeout = \<lparr>rp_maxlen = maxlen, rp_timeout = timeout, rp_vec = []\<rparr>"

section \<open>Taking a resource\<close>

text \<open>The locked scan: the resource found, the entry to refill (\<open>-1\<close> for none), the entries.\<close>

fun scan :: "(nat \<Rightarrow> bool) \<Rightarrow> int \<Rightarrow> int \<Rightarrow> int \<Rightarrow> int \<Rightarrow> pool_item list \<Rightarrow> nat option \<times> int \<times> pool_item list" where
  "scan held timeout now i idx [] = (None, idx, [])"
| "scan held timeout now i idx (it # its) =
     (case it_data it of
        None \<Rightarrow> (case scan held timeout now (i + 1) i its of (found, idx1, its1) \<Rightarrow> (found, idx1, it # its1))
      | Some r \<Rightarrow>
          if held r then (case scan held timeout now (i + 1) idx its of (found, idx1, its1) \<Rightarrow> (found, idx1, it # its1))
          else if it_num it < 100 \<and> now < it_utime it + timeout then (Some r, idx, item_get now it # its)
          else (case scan held timeout now (i + 1) i its of (found, idx1, its1) \<Rightarrow>
                  (found, idx1, it\<lparr>it_data := None\<rparr> # its1)))"

definition grasp_scan :: "(nat \<Rightarrow> bool) \<Rightarrow> int \<Rightarrow> res_pool \<Rightarrow> nat option \<times> int \<times> res_pool" where
  "grasp_scan held now p =
     (case scan held (rp_timeout p) now 0 (- 1) (rp_vec p) of (found, idx, vec) \<Rightarrow> (found, idx, p\<lparr>rp_vec := vec\<rparr>))"

text \<open>The locked storing of a new resource; \<open>vec.size() < maxlen\<close> compares unsigned.\<close>

definition grasp_store :: "int \<Rightarrow> nat \<Rightarrow> int \<Rightarrow> res_pool \<Rightarrow> res_pool res" where
  "grasp_store idx r now p =
     (if idx < 0
      then Inr (if length (rp_vec p) < size_of_int (rp_maxlen p) then p\<lparr>rp_vec := rp_vec p @ [item_update now r]\<rparr> else p)
      else if nat idx < length (rp_vec p) then Inr (p\<lparr>rp_vec := (rp_vec p)[nat idx := item_update now r]\<rparr>)
      else Inl OutOfRange)"

text \<open>The whole \<open>grasp\<close> of one thread, when no other thread comes in between: \<open>func\<close> is the creator of
  resources, \<open>clock\<close> the clock, on a world of any type.\<close>

definition grasp :: "('w \<Rightarrow> nat option \<times> 'w) \<Rightarrow> ('w \<Rightarrow> int \<times> 'w) \<Rightarrow> ('w \<Rightarrow> nat \<Rightarrow> bool) \<Rightarrow> res_pool \<Rightarrow> 'w
    \<Rightarrow> (nat option \<times> res_pool \<times> 'w) res" where
  "grasp func clock held p w =
     (case clock w of (now, w1) \<Rightarrow>
      case grasp_scan (held w1) now p of
        (Some r, idx, p1) \<Rightarrow> Inr (Some r, p1, w1)
      | (None, idx, p1) \<Rightarrow>
          if idx < 0 \<and> rp_maxlen p \<le> int (length (rp_vec p)) then Inr (None, p1, w1)
          else (case func w1 of
                  (None, w2) \<Rightarrow> Inr (None, p1, w2)
                | (Some r, w2) \<Rightarrow>
                    (case clock w2 of (now1, w3) \<Rightarrow> bind_res (grasp_store idx r now1 p1) (\<lambda>p2. Inr (Some r, p2, w3)))))"

text \<open>The waiting loop of \<open>get\<close> (\<open>usleep\<close> between two attempts, for three seconds), and \<open>get\<close>.\<close>

partial_function (option) get_wait :: "('w \<Rightarrow> nat option \<times> 'w) \<Rightarrow> ('w \<Rightarrow> int \<times> 'w) \<Rightarrow> ('w \<Rightarrow> nat \<Rightarrow> bool) \<Rightarrow> int \<Rightarrow> res_pool \<Rightarrow> 'w
    \<Rightarrow> (nat option \<times> res_pool \<times> 'w) res option" where
  "get_wait func clock held endtime p w =
     (case grasp func clock held p w of
        Inl f \<Rightarrow> Some (Inl f)
      | Inr (Some r, p1, w1) \<Rightarrow> Some (Inr (Some r, p1, w1))
      | Inr (None, p1, w1) \<Rightarrow>
          (case clock w1 of (now, w2) \<Rightarrow>
             if endtime < now then Some (Inr (None, p1, w2)) else get_wait func clock held endtime p1 w2))"

declare get_wait.simps [code]

definition pool_get :: "('w \<Rightarrow> nat option \<times> 'w) \<Rightarrow> ('w \<Rightarrow> int \<times> 'w) \<Rightarrow> ('w \<Rightarrow> nat \<Rightarrow> bool) \<Rightarrow> res_pool \<Rightarrow> 'w
    \<Rightarrow> (nat option \<times> res_pool \<times> 'w) res option" where
  "pool_get func clock held p w =
     (if rp_timeout p \<le> 0 then (case func w of (r, w1) \<Rightarrow> Some (Inr (r, p, w1)))
      else (case grasp func clock held p w of
              Inl f \<Rightarrow> Some (Inl f)
            | Inr (Some r, p1, w1) \<Rightarrow> Some (Inr (Some r, p1, w1))
            | Inr (None, p1, w1) \<Rightarrow> (case clock w1 of (now, w2) \<Rightarrow> get_wait func clock held (now + 3) p1 w2)))"

section \<open>The other operations\<close>

definition pool_clear :: "res_pool \<Rightarrow> res_pool" where
  "pool_clear p = p\<lparr>rp_vec := []\<rparr>"

fun disable_first :: "nat \<Rightarrow> pool_item list \<Rightarrow> pool_item list" where
  "disable_first r [] = []"
| "disable_first r (it # its) = (if it_data it = Some r then it\<lparr>it_data := None\<rparr> # its else it # disable_first r its)"

definition pool_disable :: "nat \<Rightarrow> res_pool \<Rightarrow> res_pool" where
  "pool_disable r p = p\<lparr>rp_vec := disable_first r (rp_vec p)\<rparr>"

definition setLength :: "int \<Rightarrow> res_pool \<Rightarrow> res_pool" where
  "setLength maxlen p =
     (let p1 = p\<lparr>rp_maxlen := maxlen\<rparr> in if size_of_int maxlen < length (rp_vec p1) then pool_clear p1 else p1)"

definition setTimeout :: "int \<Rightarrow> res_pool \<Rightarrow> res_pool" where
  "setTimeout timeout p = (let p1 = p\<lparr>rp_timeout := timeout\<rparr> in if timeout \<le> 0 then pool_clear p1 else p1)"

definition setCreator :: "res_pool \<Rightarrow> res_pool" where
  "setCreator p = pool_clear p"

section \<open>Threads\<close>

text \<open>\<open>ps_held r\<close> counts the clients that got the resource and have not let it go; \<open>ps_creating t\<close> is the entry
  that thread \<open>t\<close> wants to fill while it creates a resource; \<open>ps_used\<close> are the resources created so far.\<close>

record pool_state =
  ps_pool :: res_pool
  ps_held :: "nat \<Rightarrow> nat"
  ps_creating :: "nat \<rightharpoonup> int"
  ps_used :: "nat set"

definition pool_start_state :: "int \<Rightarrow> int \<Rightarrow> pool_state" where
  "pool_start_state maxlen timeout =
     \<lparr>ps_pool = ResPool_ctor maxlen timeout, ps_held = (\<lambda>r. 0), ps_creating = Map.empty, ps_used = {}\<rparr>"

definition take_ref :: "nat \<Rightarrow> pool_state \<Rightarrow> pool_state" where
  "take_ref r s = s\<lparr>ps_held := (ps_held s)(r := ps_held s r + 1)\<rparr>"

inductive pool_step :: "pool_state \<Rightarrow> pool_state \<Rightarrow> bool" where
  reuse: "ps_creating s t = None \<Longrightarrow> grasp_scan (\<lambda>r. ps_held s r \<noteq> 0) now (ps_pool s) = (Some r, idx, p) \<Longrightarrow>
    pool_step s (take_ref r (s\<lparr>ps_pool := p\<rparr>))"
| want: "ps_creating s t = None \<Longrightarrow> grasp_scan (\<lambda>r. ps_held s r \<noteq> 0) now (ps_pool s) = (None, idx, p) \<Longrightarrow>
    \<not> (idx < 0 \<and> rp_maxlen p \<le> int (length (rp_vec p))) \<Longrightarrow>
    pool_step s (s\<lparr>ps_pool := p, ps_creating := (ps_creating s)(t \<mapsto> idx)\<rparr>)"
| full: "ps_creating s t = None \<Longrightarrow> grasp_scan (\<lambda>r. ps_held s r \<noteq> 0) now (ps_pool s) = (None, idx, p) \<Longrightarrow>
    pool_step s (s\<lparr>ps_pool := p\<rparr>)"
| no_resource: "ps_creating s t = Some idx \<Longrightarrow> pool_step s (s\<lparr>ps_creating := (ps_creating s)(t := None)\<rparr>)"
| created: "ps_creating s t = Some idx \<Longrightarrow> r \<notin> ps_used s \<Longrightarrow> grasp_store idx r now (ps_pool s) = Inr p \<Longrightarrow>
    pool_step s (take_ref r (s\<lparr>ps_pool := p, ps_creating := (ps_creating s)(t := None), ps_used := insert r (ps_used s)\<rparr>))"
| unpooled: "rp_timeout (ps_pool s) \<le> 0 \<Longrightarrow> r \<notin> ps_used s \<Longrightarrow> pool_step s (take_ref r (s\<lparr>ps_used := insert r (ps_used s)\<rparr>))"
| release: "0 < ps_held s r \<Longrightarrow> pool_step s (s\<lparr>ps_held := (ps_held s)(r := ps_held s r - 1)\<rparr>)"
| disable: "pool_step s (s\<lparr>ps_pool := pool_disable r (ps_pool s)\<rparr>)"
| clear: "pool_step s (s\<lparr>ps_pool := pool_clear (ps_pool s)\<rparr>)"
| set_length: "pool_step s (s\<lparr>ps_pool := setLength m (ps_pool s)\<rparr>)"
| set_timeout: "pool_step s (s\<lparr>ps_pool := setTimeout m (ps_pool s)\<rparr>)"
| set_creator: "pool_step s (s\<lparr>ps_pool := setCreator (ps_pool s)\<rparr>)"

inductive pool_reach :: "pool_state \<Rightarrow> bool" where
  initial: "pool_reach (pool_start_state maxlen timeout)"
| further: "pool_reach s \<Longrightarrow> pool_step s s' \<Longrightarrow> pool_reach s'"

section \<open>Redis connections from the pool\<close>

text \<open>\<open>RedisConnect::grasp\<close>: a connection in error is disabled in the pool and another one is taken. \<open>getp\<close> is
  \<open>pool.get()\<close>, \<open>err\<close> reads the error code of a connection.\<close>

partial_function (option) redis_grasp ::
    "('s \<Rightarrow> (nat option \<times> 's) res option) \<Rightarrow> ('s \<Rightarrow> nat \<Rightarrow> int) \<Rightarrow> (nat \<Rightarrow> 's \<Rightarrow> 's) \<Rightarrow> 's \<Rightarrow> (nat option \<times> 's) res option" where
  "redis_grasp getp err disable s =
     (case getp s of
        None \<Rightarrow> None
      | Some (Inl f) \<Rightarrow> Some (Inl f)
      | Some (Inr (None, s1)) \<Rightarrow> Some (Inr (None, s1))
      | Some (Inr (Some r, s1)) \<Rightarrow>
          if err s1 r \<noteq> 0 then redis_grasp getp err disable (disable r s1) else Some (Inr (Some r, s1)))"

declare redis_grasp.simps [code]

section \<open>Lemmas\<close>

abbreviation pooled :: "pool_item list \<Rightarrow> nat list" where
  "pooled its \<equiv> List.map_filter it_data its"

lemma pooled_simps [simp]:
  "pooled [] = []"
  "pooled (it # its) = (case it_data it of None \<Rightarrow> pooled its | Some r \<Rightarrow> r # pooled its)"
  "pooled (xs @ ys) = pooled xs @ pooled ys"
  by (simp_all add: List.map_filter_def split: option.split)

lemma it_data_get [simp]: "it_data (item_get now it) = it_data it"
  by (simp add: item_get_def)

lemma scan_spec:
  assumes "scan held timeout now i idx its = (found, idx1, its1)" and "distinct (pooled its)"
  shows "length its1 = length its \<and> distinct (pooled its1) \<and> set (pooled its1) \<subseteq> set (pooled its) \<and>
    (\<forall>r. found = Some r \<longrightarrow> \<not> held r \<and> r \<in> set (pooled its1))"
  using assms
proof (induction its arbitrary: i idx idx1 its1)
  case Nil
  then show ?case by simp
next
  case (Cons it its)
  then show ?case by (fastforce split: option.splits if_splits prod.splits)
qed

text \<open>A scan finds a resource exactly when an entry has one that no client holds and that is still good.\<close>

lemma scan_finds:
  "fst (scan held timeout now i idx its) \<noteq> None \<longleftrightarrow>
     (\<exists>it \<in> set its. \<exists>r. it_data it = Some r \<and> \<not> held r \<and> it_num it < 100 \<and> now < it_utime it + timeout)"
  by (induction its arbitrary: i idx) (auto split: option.splits simp: case_prod_beta)

lemma scan_idx: "fst (snd (scan held timeout now (int k) idx its)) = idx \<or>
   (\<exists>j < length its. fst (snd (scan held timeout now (int k) idx its)) = int (k + j))"
proof (induction its arbitrary: k idx)
  case Nil
  then show ?case by simp
next
  case (Cons it its)
  have s: "int k + 1 = int (Suc k)" by simp
  have sh: "(\<exists>j < length its. x = int (Suc k + j)) \<Longrightarrow> \<exists>j < length (it # its). x = int (k + j)" for x
    by (metis Suc_less_eq add_Suc_shift length_Cons)
  have z: "\<exists>j < length (it # its). int k = int (k + j)" by (intro exI [of _ 0]) simp
  show ?case
    using Cons.IH [of "Suc k" idx] Cons.IH [of "Suc k" "int k"] sh z
    by (auto split: option.splits simp: s case_prod_beta simp del: of_nat_Suc of_nat_add)
qed

lemma disable_first_spec:
  "length (disable_first r its) = length its" "set (pooled (disable_first r its)) \<subseteq> set (pooled its)"
  "distinct (pooled its) \<Longrightarrow> distinct (pooled (disable_first r its))"
proof -
  show "length (disable_first r its) = length its" by (induction its) auto
  show sub: "set (pooled (disable_first r its)) \<subseteq> set (pooled its)" for its
    by (induction its) (auto split: option.splits)
  show "distinct (pooled its) \<Longrightarrow> distinct (pooled (disable_first r its))"
  proof (induction its)
    case (Cons it its)
    then show ?case using sub [of its] by (auto split: option.splits)
  qed simp
qed

lemma pooled_update:
  assumes "distinct (pooled its)" and "r \<notin> set (pooled its)" and "k < length its"
  shows "distinct (pooled (its[k := item_update now r]))" "set (pooled (its[k := item_update now r])) \<subseteq> insert r (set (pooled its))"
proof -
  have e: "its = take k its @ its ! k # drop (Suc k) its" using assms(3) by (simp add: id_take_nth_drop)
  then have p: "pooled its = pooled (take k its) @ (case it_data (its ! k) of None \<Rightarrow> [] | Some x \<Rightarrow> [x]) @ pooled (drop (Suc k) its)"
    by (metis append_Cons append_Nil option.case_eq_if pooled_simps(2,3))
  have q: "pooled (its[k := item_update now r]) = pooled (take k its) @ r # pooled (drop (Suc k) its)"
    using assms(3) by (simp add: upd_conv_take_nth_drop item_update_def)
  show "distinct (pooled (its[k := item_update now r]))" using assms(1,2) unfolding p q by auto
  show "set (pooled (its[k := item_update now r])) \<subseteq> insert r (set (pooled its))" unfolding p q by auto
qed

section \<open>Invariant\<close>

definition pool_inv :: "pool_state \<Rightarrow> bool" where
  "pool_inv s \<longleftrightarrow> (\<forall>r. ps_held s r \<le> 1) \<and> distinct (pooled (rp_vec (ps_pool s))) \<and>
     set (pooled (rp_vec (ps_pool s))) \<subseteq> ps_used s \<and> (\<forall>r. ps_held s r \<noteq> 0 \<longrightarrow> r \<in> ps_used s) \<and>
     length (rp_vec (ps_pool s)) \<le> size_of_int (rp_maxlen (ps_pool s))"

lemma grasp_scan_spec:
  assumes "grasp_scan held now p = (found, idx, p1)" and "distinct (pooled (rp_vec p))"
  shows "length (rp_vec p1) = length (rp_vec p) \<and> distinct (pooled (rp_vec p1)) \<and> set (pooled (rp_vec p1)) \<subseteq> set (pooled (rp_vec p)) \<and>
    rp_maxlen p1 = rp_maxlen p \<and> (\<forall>r. found = Some r \<longrightarrow> \<not> held r \<and> r \<in> set (pooled (rp_vec p)))"
proof -
  obtain vec where s: "scan held (rp_timeout p) now 0 (- 1) (rp_vec p) = (found, idx, vec)" "p1 = p\<lparr>rp_vec := vec\<rparr>"
    using assms(1) by (auto simp: grasp_scan_def split: prod.splits)
  from scan_spec [OF s(1) assms(2)] s(2) show ?thesis by auto
qed

lemma grasp_store_spec:
  assumes "grasp_store idx r now p = Inr p1" and "distinct (pooled (rp_vec p))" and "r \<notin> set (pooled (rp_vec p))"
    and "length (rp_vec p) \<le> size_of_int (rp_maxlen p)"
  shows "distinct (pooled (rp_vec p1)) \<and> set (pooled (rp_vec p1)) \<subseteq> insert r (set (pooled (rp_vec p))) \<and>
    rp_maxlen p1 = rp_maxlen p \<and> length (rp_vec p1) \<le> size_of_int (rp_maxlen p)"
proof (cases "idx < 0")
  case True
  with assms show ?thesis by (auto simp: grasp_store_def item_update_def split: if_splits)
next
  case False
  with assms(1) have "nat idx < length (rp_vec p)" "p1 = p\<lparr>rp_vec := (rp_vec p)[nat idx := item_update now r]\<rparr>"
    by (auto simp: grasp_store_def split: if_splits)
  with pooled_update [OF assms(2,3)] assms(4) show ?thesis by simp
qed

lemma pool_inv_clear: "pool_inv s \<Longrightarrow> pool_inv (s\<lparr>ps_pool := pool_clear (ps_pool s)\<rparr>)"
  by (simp add: pool_inv_def pool_clear_def)

lemma pool_step_inv: "pool_step s s' \<Longrightarrow> pool_inv s \<Longrightarrow> pool_inv s'"
proof (induction rule: pool_step.induct)
  case (reuse s t now r idx p)
  then show ?case using grasp_scan_spec [OF reuse.hyps(2)] by (auto simp: pool_inv_def take_ref_def)
next
  case (want s t now idx p)
  then show ?case using grasp_scan_spec [OF want.hyps(2)] by (auto simp: pool_inv_def)
next
  case (full s t now idx p)
  then show ?case using grasp_scan_spec [OF full.hyps(2)] by (auto simp: pool_inv_def)
next
  case (created s t idx r now p)
  have "r \<notin> set (pooled (rp_vec (ps_pool s)))" "ps_held s r = 0" using created by (auto simp: pool_inv_def)
  then show ?case using grasp_store_spec [OF created.hyps(3)] created.prems by (auto simp: pool_inv_def take_ref_def)
next
  case (unpooled s r)
  then have "ps_held s r = 0" by (auto simp: pool_inv_def)
  with unpooled show ?case by (auto simp: pool_inv_def take_ref_def)
next
  case (release s r)
  then show ?case by (auto simp: pool_inv_def le_diff_conv intro: le_trans)
next
  case (disable s r)
  then show ?case
    using disable_first_spec(1) [of r "rp_vec (ps_pool s)"] disable_first_spec(3) [of "rp_vec (ps_pool s)" r] disable_first_spec(2) [of r "rp_vec (ps_pool s)"]
    by (auto simp: pool_inv_def pool_disable_def)
next
  case (clear s)
  then show ?case by (rule pool_inv_clear)
next
  case (set_length s m)
  then show ?case by (auto simp: pool_inv_def setLength_def pool_clear_def Let_def)
next
  case (set_timeout s m)
  then show ?case by (auto simp: pool_inv_def setTimeout_def pool_clear_def Let_def)
next
  case (set_creator s)
  then show ?case unfolding setCreator_def by (rule pool_inv_clear)
qed (auto simp: pool_inv_def)

interpretation rsp: invariant_system "\<lambda>s. \<exists>maxlen timeout. s = pool_start_state maxlen timeout" pool_step pool_inv
proof unfold_locales
  show "pool_inv s" if "\<exists>maxlen timeout. s = pool_start_state maxlen timeout" for s
    using that by (auto simp: pool_inv_def pool_start_state_def ResPool_ctor_def)
qed (rule pool_step_inv)

lemma pool_reach_inv: "pool_reach s \<Longrightarrow> pool_inv s"
  by (induction rule: pool_reach.induct) (blast intro: rsp.inv_starts rsp.inv_step)+

section \<open>Properties\<close>

text \<open>C17: a pooled resource is exclusive. In every interleaving of any number of threads that take resources (from the
  pool or new ones), let them go, and disable, clear or reconfigure the pool, no resource is in the hands
  of two clients, no resource is in the pool twice, and the pool never has more entries than its
  maximum.\<close>

theorem respool_exclusive:
  assumes "pool_reach s"
  shows "ps_held s r \<le> 1 \<and> distinct (pooled (rp_vec (ps_pool s))) \<and>
    length (rp_vec (ps_pool s)) \<le> size_of_int (rp_maxlen (ps_pool s))"
  using pool_reach_inv [OF assms] by (simp add: pool_inv_def)

text \<open>A run: a thread finds the pool empty, creates resource 7, and lets it go; much later another thread finds
  the entry and its resource expired, and wants to refill it.\<close>

abbreviation one_entry :: pool_state where
  "one_entry \<equiv> \<lparr>ps_pool = \<lparr>rp_maxlen = 8, rp_timeout = 60, rp_vec = [item_update 0 7]\<rparr>,
     ps_held = (\<lambda>r. 0)(7 := 1), ps_creating = Map.empty, ps_used = {7}\<rparr>"

lemma one_entry_reach: "pool_reach one_entry"
proof -
  let ?s0 = "pool_start_state 8 60"
  let ?s1 = "?s0\<lparr>ps_pool := ps_pool ?s0, ps_creating := (ps_creating ?s0)(0 \<mapsto> - 1)\<rparr>"
  have "pool_step ?s0 ?s1"
    by (rule pool_step.want [where now = 0]) (simp_all add: pool_start_state_def grasp_scan_def ResPool_ctor_def)
  then have r1: "pool_reach ?s1" by (rule pool_reach.further [OF pool_reach.initial])
  have "pool_step ?s1 (take_ref 7 (?s1\<lparr>ps_pool := \<lparr>rp_maxlen = 8, rp_timeout = 60, rp_vec = [item_update 0 7]\<rparr>,
      ps_creating := (ps_creating ?s1)(0 := None), ps_used := insert 7 (ps_used ?s1)\<rparr>))"
    by (rule pool_step.created [where now = 0 and idx = "- 1"])
      (simp_all add: pool_start_state_def ResPool_ctor_def grasp_store_def)
  then have "pool_step ?s1 one_entry" by (simp add: take_ref_def pool_start_state_def)
  with r1 show ?thesis by (rule pool_reach.further)
qed

theorem respool_exclusive_witness:
  "pool_reach one_entry \<and> ps_held one_entry 7 = 1 \<and> length (rp_vec (ps_pool one_entry)) \<le> size_of_int 8"
  using respool_exclusive [OF one_entry_reach, of 7] one_entry_reach by simp

text \<open>The entry that a thread wants to refill may be gone when it comes back with the new resource: clearing the
  pool in between makes \<open>vec[idx]\<close> an access out of range.\<close>

theorem refill_after_clear_faults:
  "\<exists>s t idx. pool_reach s \<and> ps_creating s t = Some idx \<and> grasp_store idx 9 1000 (ps_pool s) = Inl OutOfRange"
proof -
  let ?s1 = "one_entry\<lparr>ps_held := (ps_held one_entry)(7 := ps_held one_entry 7 - 1)\<rparr>"
  have r1: "pool_reach ?s1" by (rule pool_reach.further [OF one_entry_reach pool_step.release]) simp
  let ?p = "\<lparr>rp_maxlen = 8, rp_timeout = 60, rp_vec = [(item_update 0 7)\<lparr>it_data := None\<rparr>]\<rparr>"
  let ?s2 = "?s1\<lparr>ps_pool := ?p, ps_creating := (ps_creating ?s1)(1 \<mapsto> 0)\<rparr>"
  have "pool_step ?s1 ?s2"
    by (rule pool_step.want [where now = 1000]) (simp_all add: grasp_scan_def item_update_def)
  with r1 have r2: "pool_reach ?s2" by (rule pool_reach.further)
  let ?s3 = "?s2\<lparr>ps_pool := pool_clear (ps_pool ?s2)\<rparr>"
  have r3: "pool_reach ?s3" by (rule pool_reach.further [OF r2 pool_step.clear])
  show ?thesis
    by (rule exI [of _ ?s3], rule exI [of _ 1], rule exI [of _ 0]) (use r3 in \<open>simp add: grasp_store_def pool_clear_def\<close>)
qed

text \<open>When the pool always gives a connection in error, as it does with a rejected password, \<open>RedisConnect::grasp\<close>
  calls itself for ever.\<close>

theorem redis_grasp_diverges:
  assumes "\<And>s. \<exists>r s1. getp s = Some (Inr (Some r, s1)) \<and> err s1 r \<noteq> 0"
  shows "redis_grasp getp err disable s = None"
proof (rule ccontr)
  assume "redis_grasp getp err disable s \<noteq> None"
  then obtain y where "redis_grasp getp err disable s = Some y" by blast
  moreover have "g = getp \<and> e = err \<and> d = disable \<longrightarrow> False" if "redis_grasp g e d s = Some y" for g e d s y
    using that
  proof (induction g e d s y rule: redis_grasp.raw_induct [rotated 1, consumes 1])
    case (1 rg g e d s y)
    show ?case
    proof
      assume a: "g = getp \<and> e = err \<and> d = disable"
      obtain r s1 where "getp s = Some (Inr (Some r, s1))" "err s1 r \<noteq> 0" using assms by blast
      with "1.hyps" have "rg getp err disable (disable r s1) = Some y" by (simp add: a)
      from "1.IH" [OF this] show False by simp
    qed
  qed
  ultimately show False by blast
qed

end
