(* ===== verification/TA_MySQLPool.thy ===== *)
theory TA_MySQLPool
  imports TA_Steps TA_Format
begin

text \<open>
  The pool of MySQL connections (\<open>src/MySQL/pool.h\<close> and \<open>pool.cpp\<close>): the static members of \<open>Pool\<close>, opening,
  taking, returning and closing connections, and \<open>Connection::executeQuery\<close> with its fixed buffer. A
  connection is the number of its \<open>new\<close>. The client library is a parameter: \<open>conn\<close> tells whether
  \<open>mysql_real_connect\<close> succeeds for the \<open>n\<close>-th connection, \<open>serve\<close> gives the rows that are fetched after a
  query, NULL columns as \<open>None\<close> (none when the query fails or has no result set).
\<close>

section \<open>The pool\<close>

record pool_slot =
  sl_first :: nat
  sl_second :: bool

record my_pool =
  my_host :: string
  my_user :: string
  my_pass :: string
  my_dbname :: string
  my_poolSize :: int
  my_vec :: "pool_slot list option"
  my_news :: nat
  my_closed :: "nat list"

type_synonym my_connect = "string \<Rightarrow> string \<Rightarrow> string \<Rightarrow> string \<Rightarrow> nat \<Rightarrow> bool"

text \<open>The static members before any call; \<open>my_vec = None\<close> is \<open>pool_ == NULL\<close>.\<close>

definition Pool_statics :: my_pool where
  "Pool_statics = \<lparr>my_host = [], my_user = [], my_pass = [], my_dbname = [], my_poolSize = 0, my_vec = None, my_news = 0, my_closed = []\<rparr>"

definition Connection_ctor :: "my_connect \<Rightarrow> my_pool \<Rightarrow> (nat \<times> my_pool) res" where
  "Connection_ctor conn p =
     (if conn (my_host p) (my_user p) (my_pass p) (my_dbname p) (my_news p) then Inr (my_news p, p\<lparr>my_news := Suc (my_news p)\<rparr>)
      else Inl (Aborted ''exit(-1)''))"

text \<open>The loop of \<open>Pool::Pool\<close>: \<open>n\<close> more slots.\<close>

fun fill_slots :: "my_connect \<Rightarrow> nat \<Rightarrow> my_pool \<Rightarrow> (pool_slot list \<times> my_pool) res" where
  "fill_slots conn 0 p = Inr ([], p)"
| "fill_slots conn (Suc n) p =
     bind_res (Connection_ctor conn p) (\<lambda>(c, p1).
     bind_res (fill_slots conn n p1) (\<lambda>(vec, p2). Inr (\<lparr>sl_first = c, sl_second = False\<rparr> # vec, p2)))"

text \<open>\<open>new some[n]\<close> with a negative \<open>n\<close> throws.\<close>

definition Pool_ctor :: "my_connect \<Rightarrow> my_pool \<Rightarrow> (pool_slot list \<times> my_pool) res" where
  "Pool_ctor conn p = (if my_poolSize p < 0 then Inl LengthError else fill_slots conn (nat (my_poolSize p)) p)"

text \<open>\<open>delete vec[i].first\<close> for every \<open>i\<close> below the current \<open>poolSize_\<close>.\<close>

definition Pool_dtor :: "pool_slot list \<Rightarrow> my_pool \<Rightarrow> my_pool res" where
  "Pool_dtor vec p =
     (if nat (my_poolSize p) \<le> length vec then Inr (p\<lparr>my_closed := my_closed p @ map sl_first (take (nat (my_poolSize p)) vec)\<rparr>)
      else Inl OutOfRange)"

definition initPool :: "string \<Rightarrow> string \<Rightarrow> string \<Rightarrow> string \<Rightarrow> int \<Rightarrow> my_pool \<Rightarrow> my_pool" where
  "initPool host user pass dbname poolSize p =
     p\<lparr>my_host := host, my_user := user, my_pass := pass, my_dbname := dbname, my_poolSize := poolSize\<rparr>"

definition destroyPool :: "my_pool \<Rightarrow> my_pool res" where
  "destroyPool p = (case my_vec p of None \<Rightarrow> Inr p | Some vec \<Rightarrow> bind_res (Pool_dtor vec p) (\<lambda>p1. Inr (p1\<lparr>my_vec := None\<rparr>)))"

text \<open>\<open>getConnection\<close>: the block under \<open>initmutex\<close>, and one turn of the loop under \<open>mutex\<close>.\<close>

definition open_pool :: "my_connect \<Rightarrow> my_pool \<Rightarrow> my_pool res" where
  "open_pool conn p =
     (case my_vec p of Some vec \<Rightarrow> Inr p | None \<Rightarrow> bind_res (Pool_ctor conn p) (\<lambda>(vec, p1). Inr (p1\<lparr>my_vec := Some vec\<rparr>)))"

fun take_free :: "nat \<Rightarrow> pool_slot list \<Rightarrow> (nat option \<times> pool_slot list) res" where
  "take_free 0 vec = Inr (None, vec)"
| "take_free (Suc n) [] = Inl OutOfRange"
| "take_free (Suc n) (s # vec) =
     (if \<not> sl_second s then Inr (Some (sl_first s), s\<lparr>sl_second := True\<rparr> # vec)
      else bind_res (take_free n vec) (\<lambda>(c, vec1). Inr (c, s # vec1)))"

text \<open>An access through \<open>pool_\<close>; with nothing to visit the pointer is not followed.\<close>

definition with_vec :: "(nat \<Rightarrow> pool_slot list \<Rightarrow> ('a \<times> pool_slot list) res) \<Rightarrow> 'a \<Rightarrow> my_pool \<Rightarrow> ('a \<times> my_pool) res" where
  "with_vec f x p =
     (if nat (my_poolSize p) = 0 then Inr (x, p)
      else case my_vec p of
          None \<Rightarrow> Inl NullDeref
        | Some vec \<Rightarrow> bind_res (f (nat (my_poolSize p)) vec) (\<lambda>(y, vec1). Inr (y, p\<lparr>my_vec := Some vec1\<rparr>)))"

definition try_get :: "my_pool \<Rightarrow> (nat option \<times> my_pool) res" where
  "try_get = with_vec take_free None"

text \<open>The loop sleeps while other threads run: \<open>others\<close>.\<close>

partial_function (option) get_turns :: "('w \<Rightarrow> my_pool \<Rightarrow> my_pool \<times> 'w) \<Rightarrow> my_pool \<Rightarrow> 'w \<Rightarrow> (nat \<times> my_pool \<times> 'w) res option" where
  "get_turns others p w =
     (case try_get p of
        Inl e \<Rightarrow> Some (Inl e)
      | Inr (Some c, p1) \<Rightarrow> Some (Inr (c, p1, w))
      | Inr (None, p1) \<Rightarrow> (case others w p1 of (p2, w2) \<Rightarrow> get_turns others p2 w2))"

definition getConnection :: "my_connect \<Rightarrow> ('w \<Rightarrow> my_pool \<Rightarrow> my_pool \<times> 'w) \<Rightarrow> my_pool \<Rightarrow> 'w \<Rightarrow> (nat \<times> my_pool \<times> 'w) res option" where
  "getConnection conn others p w = (case open_pool conn p of Inl e \<Rightarrow> Some (Inl e) | Inr p1 \<Rightarrow> get_turns others p1 w)"

fun free_slot :: "nat \<Rightarrow> nat \<Rightarrow> pool_slot list \<Rightarrow> (unit \<times> pool_slot list) res" where
  "free_slot c 0 vec = Inr ((), vec)"
| "free_slot c (Suc n) [] = Inl OutOfRange"
| "free_slot c (Suc n) (s # vec) =
     (if sl_first s = c then Inr ((), s\<lparr>sl_second := False\<rparr> # vec)
      else bind_res (free_slot c n vec) (\<lambda>(u, vec1). Inr (u, s # vec1)))"

definition releaseConnection :: "nat \<Rightarrow> my_pool \<Rightarrow> (int \<times> my_pool) res" where
  "releaseConnection c p = bind_res (with_vec (free_slot c) () p) (\<lambda>(u, p1). Inr (1, p1))"

section \<open>Queries\<close>

text \<open>\<open>QueryResult\<close>; an index out of range is undefined in the code.\<close>

type_synonym query_result = "string list list"

definition getRowCount :: "query_result \<Rightarrow> int" where
  "getRowCount t = int_of_size (length t)"

definition getColumnCount :: "query_result \<Rightarrow> int res" where
  "getColumnCount t = (case t of [] \<Rightarrow> Inl OutOfRange | row # _ \<Rightarrow> Inr (int_of_size (length row)))"

definition getElement :: "int \<Rightarrow> int \<Rightarrow> query_result \<Rightarrow> string res" where
  "getElement r c t =
     (if size_of_int r < length t \<and> size_of_int c < length (t ! size_of_int r) then Inr (t ! size_of_int r ! size_of_int c)
      else Inl OutOfRange)"

definition addRow :: "string list \<Rightarrow> query_result \<Rightarrow> query_result" where
  "addRow row t = t @ [row]"

text \<open>One fetched row; a NULL column makes a string of a null pointer.\<close>

fun string_row :: "string option list \<Rightarrow> string list res" where
  "string_row [] = Inr []"
| "string_row (None # cols) = Inl NullDeref"
| "string_row (Some x # cols) = bind_res (string_row cols) (\<lambda>r. Inr (x # r))"

text \<open>\<open>executeQuery\<close>: the statement is copied to \<open>char q[100]\<close>, with a terminating 0.\<close>

definition executeQuery :: "(string \<Rightarrow> 'w \<Rightarrow> string option list list \<times> 'w) \<Rightarrow> string \<Rightarrow> 'w \<Rightarrow> (query_result \<times> 'w) res" where
  "executeQuery serve statement w =
     (let q = c_str statement
      in if 100 < length q + 1 then Inl OutOfRange
         else case serve q w of (rows, w1) \<Rightarrow>
           bind_res (fold_res (\<lambda>row t. bind_res (string_row row) (\<lambda>r. Inr (addRow r t))) rows []) (\<lambda>t. Inr (t, w1)))"

section \<open>Threads\<close>

text \<open>\<open>ms_held\<close> are the connections in the hands of clients.\<close>

record my_state =
  ms_pool :: my_pool
  ms_held :: "nat list"

inductive my_step :: "my_connect \<Rightarrow> my_state \<Rightarrow> my_state \<Rightarrow> bool" for conn where
  opened: "open_pool conn (ms_pool s) = Inr p \<Longrightarrow> my_step conn s (s\<lparr>ms_pool := p\<rparr>)"
| got: "my_vec (ms_pool s) \<noteq> None \<Longrightarrow> try_get (ms_pool s) = Inr (Some c, p) \<Longrightarrow>
    my_step conn s (s\<lparr>ms_pool := p, ms_held := c # ms_held s\<rparr>)"
| busy: "my_vec (ms_pool s) \<noteq> None \<Longrightarrow> try_get (ms_pool s) = Inr (None, p) \<Longrightarrow> my_step conn s (s\<lparr>ms_pool := p\<rparr>)"
| returned: "c \<in> set (ms_held s) \<Longrightarrow> releaseConnection c (ms_pool s) = Inr (r, p) \<Longrightarrow>
    my_step conn s (s\<lparr>ms_pool := p, ms_held := remove1 c (ms_held s)\<rparr>)"

definition my_start :: "my_state \<Rightarrow> bool" where
  "my_start s \<longleftrightarrow> ms_held s = [] \<and> my_vec (ms_pool s) = None \<and> 0 \<le> my_poolSize (ms_pool s)"

section \<open>Invariant\<close>

definition used_slots :: "pool_slot list \<Rightarrow> nat set" where
  "used_slots vec = sl_first ` {s \<in> set vec. sl_second s}"

definition my_inv :: "my_state \<Rightarrow> bool" where
  "my_inv s \<longleftrightarrow> distinct (ms_held s) \<and> 0 \<le> my_poolSize (ms_pool s) \<and>
     (case my_vec (ms_pool s) of
        None \<Rightarrow> ms_held s = []
      | Some vec \<Rightarrow> length vec = nat (my_poolSize (ms_pool s)) \<and> distinct (map sl_first vec) \<and> set (ms_held s) = used_slots vec)"

lemma fill_slots_ok:
  assumes "fill_slots conn n p = Inr (vec, p1)"
  shows "length vec = n \<and> map sl_first vec = [my_news p ..< my_news p + n] \<and> used_slots vec = {} \<and>
    my_poolSize p1 = my_poolSize p \<and> my_vec p1 = my_vec p"
  using assms
proof (induction n arbitrary: p vec p1)
  case (Suc n)
  then obtain p2 vec2 where v: "fill_slots conn n (p\<lparr>my_news := Suc (my_news p)\<rparr>) = Inr (vec2, p1)"
      "vec = \<lparr>sl_first = my_news p, sl_second = False\<rparr> # vec2"
    by (auto simp: Connection_ctor_def bind_res_def split: sum.splits if_splits)
  from Suc.IH [OF v(1)] v(2) show ?case by (auto simp: used_slots_def upt_rec [of "my_news p"])
qed (auto simp: used_slots_def)

lemma used_slots_Cons [simp]: "used_slots (s # vec) = (if sl_second s then insert (sl_first s) (used_slots vec) else used_slots vec)"
  by (auto simp: used_slots_def)

lemma used_slots_sub: "used_slots vec \<subseteq> sl_first ` set vec"
  by (auto simp: used_slots_def)

text \<open>A turn takes a connection that is not in use, and finds one whenever there is one.\<close>

lemma take_free_ok:
  assumes "distinct (map sl_first vec)"
  shows "\<exists>c vec1. take_free (length vec) vec = Inr (c, vec1) \<and> map sl_first vec1 = map sl_first vec \<and>
    (case c of None \<Rightarrow> vec1 = vec \<and> used_slots vec = sl_first ` set vec
     | Some x \<Rightarrow> x \<in> sl_first ` set vec \<and> x \<notin> used_slots vec \<and> used_slots vec1 = insert x (used_slots vec))"
  using assms
proof (induction vec)
  case (Cons s vec)
  then obtain c vec1 where c: "take_free (length vec) vec = Inr (c, vec1)" "map sl_first vec1 = map sl_first vec"
      "case c of None \<Rightarrow> vec1 = vec \<and> used_slots vec = sl_first ` set vec
       | Some x \<Rightarrow> x \<in> sl_first ` set vec \<and> x \<notin> used_slots vec \<and> used_slots vec1 = insert x (used_slots vec)"
    by auto
  have "sl_first s \<notin> used_slots vec" using Cons.prems used_slots_sub by force
  then show ?case using c Cons.prems by (cases c) (auto split: if_splits)
qed (simp add: used_slots_def)

lemma free_slot_ok:
  assumes "distinct (map sl_first vec)" and "c \<in> sl_first ` set vec"
  shows "\<exists>vec1. free_slot c (length vec) vec = Inr ((), vec1) \<and> map sl_first vec1 = map sl_first vec \<and> used_slots vec1 = used_slots vec - {c}"
  using assms
proof (induction vec)
  case (Cons s vec)
  have "sl_first s \<notin> used_slots vec" using Cons.prems(1) used_slots_sub by force
  then show ?case using Cons by (cases "sl_first s = c") (auto split: if_splits)
qed simp

lemma my_inv_open: "my_inv s \<Longrightarrow> open_pool conn (ms_pool s) = Inr p \<Longrightarrow> my_inv (s\<lparr>ms_pool := p\<rparr>)"
  by (auto simp: my_inv_def open_pool_def Pool_ctor_def bind_res_def dest!: fill_slots_ok split: option.splits sum.splits if_splits)

text \<open>What one turn and one return do in a state with the invariant.\<close>

lemma try_get_ok:
  assumes "my_inv s" and "my_vec (ms_pool s) = Some vec"
  shows "\<exists>c vec1. try_get (ms_pool s) = Inr (c, (ms_pool s)\<lparr>my_vec := Some vec1\<rparr>) \<and> map sl_first vec1 = map sl_first vec \<and>
    (case c of None \<Rightarrow> vec1 = vec \<and> used_slots vec = sl_first ` set vec
     | Some x \<Rightarrow> x \<in> sl_first ` set vec \<and> x \<notin> used_slots vec \<and> used_slots vec1 = insert x (used_slots vec))"
proof (cases "vec = []")
  case True
  then show ?thesis using assms by (intro exI [of _ None] exI [of _ vec]) (simp add: my_inv_def try_get_def with_vec_def used_slots_def)
next
  case False
  have v: "length vec = nat (my_poolSize (ms_pool s))" "distinct (map sl_first vec)" using assms by (simp_all add: my_inv_def)
  obtain c vec1 where t: "take_free (length vec) vec = Inr (c, vec1)" "map sl_first vec1 = map sl_first vec"
      "case c of None \<Rightarrow> vec1 = vec \<and> used_slots vec = sl_first ` set vec
       | Some x \<Rightarrow> x \<in> sl_first ` set vec \<and> x \<notin> used_slots vec \<and> used_slots vec1 = insert x (used_slots vec)"
    using take_free_ok [OF v(2)] by blast
  have "nat (my_poolSize (ms_pool s)) \<noteq> 0" using False v(1) by auto
  then have "try_get (ms_pool s) = Inr (c, (ms_pool s)\<lparr>my_vec := Some vec1\<rparr>)"
    using t(1) assms(2) v(1) by (simp add: try_get_def with_vec_def)
  with t(2,3) show ?thesis by blast
qed

lemma release_ok:
  assumes "my_inv s" and "c \<in> set (ms_held s)" and "my_vec (ms_pool s) = Some vec"
  shows "\<exists>vec1. releaseConnection c (ms_pool s) = Inr (1, (ms_pool s)\<lparr>my_vec := Some vec1\<rparr>) \<and>
    map sl_first vec1 = map sl_first vec \<and> used_slots vec1 = used_slots vec - {c}"
proof -
  have v: "length vec = nat (my_poolSize (ms_pool s))" "distinct (map sl_first vec)" "set (ms_held s) = used_slots vec"
    using assms(1,3) by (simp_all add: my_inv_def)
  have c: "c \<in> sl_first ` set vec" using assms(2) v(3) used_slots_sub [of vec] by blast
  obtain vec1 where f: "free_slot c (length vec) vec = Inr ((), vec1)" "map sl_first vec1 = map sl_first vec" "used_slots vec1 = used_slots vec - {c}"
    using free_slot_ok [OF v(2) c] by blast
  have "nat (my_poolSize (ms_pool s)) \<noteq> 0" using c v(1) by auto
  then show ?thesis using f assms(3) v(1) by (intro exI [of _ vec1]) (simp add: releaseConnection_def with_vec_def)
qed

lemma used_length: "my_inv s \<Longrightarrow> my_vec (ms_pool s) = Some vec \<Longrightarrow> used_slots vec = sl_first ` set vec \<longleftrightarrow> length (ms_held s) = length vec"
proof -
  assume i: "my_inv s" "my_vec (ms_pool s) = Some vec"
  then have d: "distinct (map sl_first vec)" "set (ms_held s) = used_slots vec" "distinct (ms_held s)" by (auto simp: my_inv_def)
  have c: "card (sl_first ` set vec) = length vec" using distinct_card [OF d(1)] by simp
  have u: "card (used_slots vec) = length (ms_held s)" using distinct_card [OF d(3)] d(2) by simp
  show ?thesis using c u used_slots_sub [of vec] by (metis List.finite_set card_subset_eq finite_imageI)
qed

section \<open>Lending\<close>

text \<open>The promise of the pool: a set of connections, opened once, and those lent.\<close>

inductive lend :: "nat set option \<times> nat set \<Rightarrow> nat set option \<times> nat set \<Rightarrow> bool" where
  lend_open: "lend (None, {}) (Some C, {})"
| lend_take: "c \<in> C \<Longrightarrow> c \<notin> H \<Longrightarrow> lend (Some C, H) (Some C, insert c H)"
| lend_return: "c \<in> H \<Longrightarrow> lend (Some C, H) (Some C, H - {c})"

definition my_abs :: "my_state \<Rightarrow> nat set option \<times> nat set" where
  "my_abs s = (map_option (\<lambda>vec. sl_first ` set vec) (my_vec (ms_pool s)), set (ms_held s))"

lemma my_step_inv:
  assumes "my_step conn s t" and "my_inv s"
  shows "my_inv t \<and> (lend (my_abs s) (my_abs t) \<or> my_abs t = my_abs s)"
  using assms(1)
proof (cases rule: my_step.cases)
  case (opened p)
  have "lend (my_abs s) (my_abs t) \<or> my_abs t = my_abs s"
    using opened assms(2) lend_open
    by (auto simp: my_abs_def my_inv_def open_pool_def bind_res_def split: option.splits sum.splits)
  then show ?thesis using opened my_inv_open [OF assms(2)] by simp
next
  case (got c p)
  then obtain vec where v: "my_vec (ms_pool s) = Some vec" by auto
  obtain vec1 where r: "p = (ms_pool s)\<lparr>my_vec := Some vec1\<rparr>" "map sl_first vec1 = map sl_first vec"
      "c \<in> sl_first ` set vec" "c \<notin> used_slots vec" "used_slots vec1 = insert c (used_slots vec)"
    using try_get_ok [OF assms(2) v] got(3) by auto
  have "sl_first ` set vec1 = sl_first ` set vec" using r(2) by (metis list.set_map)
  moreover have "length vec1 = length vec" using r(2) by (metis length_map)
  ultimately show ?thesis using got(1) assms(2) v r lend_take [of c "sl_first ` set vec" "set (ms_held s)"] by (auto simp: my_inv_def my_abs_def)
next
  case (busy p)
  then obtain vec where v: "my_vec (ms_pool s) = Some vec" by auto
  have "p = ms_pool s" using try_get_ok [OF assms(2) v] busy(3) v by auto
  then show ?thesis using busy(1) assms(2) by simp
next
  case (returned c r p)
  then obtain vec where v: "my_vec (ms_pool s) = Some vec" using assms(2) by (auto simp: my_inv_def split: option.splits)
  obtain vec1 where r: "p = (ms_pool s)\<lparr>my_vec := Some vec1\<rparr>" "map sl_first vec1 = map sl_first vec" "used_slots vec1 = used_slots vec - {c}"
    using release_ok [OF assms(2) returned(2) v] returned(3) by auto
  have "sl_first ` set vec1 = sl_first ` set vec" using r(2) by (metis list.set_map)
  moreover have "length vec1 = length vec" using r(2) by (metis length_map)
  moreover have "set (remove1 c (ms_held s)) = set (ms_held s) - {c}" using assms(2) by (simp add: my_inv_def)
  ultimately show ?thesis using returned(1,2) assms(2) v r lend_return [of c "set (ms_held s)" "sl_first ` set vec"]
    by (auto simp: my_inv_def my_abs_def)
qed

interpretation myp: simulation my_start "my_step conn" my_inv my_abs lend for conn
  by unfold_locales (auto simp: my_start_def my_inv_def dest: my_step_inv)

text \<open>C18: the pool lends each connection to one client at a time. In every interleaving of threads that open the pool, take
  and return connections, what the clients see is a run of the lending specification: no connection is in two hands; the
  next turn of a taking thread never faults and gets a connection exactly when fewer than \<open>poolSize_\<close> are lent; and
  returning a connection never faults.\<close>

theorem mysql_pool_lends:
  assumes "my_start s0" and "(my_step conn)\<^sup>*\<^sup>* s0 s"
  shows "lend\<^sup>*\<^sup>* (my_abs s0) (my_abs s) \<and> distinct (ms_held s) \<and>
    (my_vec (ms_pool s) \<noteq> None \<longrightarrow>
      (\<exists>c p. try_get (ms_pool s) = Inr (c, p) \<and> (c \<noteq> None \<longleftrightarrow> int (length (ms_held s)) < my_poolSize (ms_pool s)) \<and>
        (\<forall>x. c = Some x \<longrightarrow> x \<notin> set (ms_held s)))) \<and>
    (\<forall>c \<in> set (ms_held s). \<exists>p. releaseConnection c (ms_pool s) = Inr (1, p))"
proof -
  have i: "my_inv s" using myp.inv_reachable [OF assms] .
  have d: "distinct (ms_held s)" using i by (simp add: my_inv_def)
  have t: "\<exists>c p. try_get (ms_pool s) = Inr (c, p) \<and> (c \<noteq> None \<longleftrightarrow> int (length (ms_held s)) < my_poolSize (ms_pool s)) \<and>
      (\<forall>x. c = Some x \<longrightarrow> x \<notin> set (ms_held s))" if v: "my_vec (ms_pool s) = Some vec" for vec
  proof -
    obtain c vec1 where c: "try_get (ms_pool s) = Inr (c, (ms_pool s)\<lparr>my_vec := Some vec1\<rparr>)"
        "case c of None \<Rightarrow> vec1 = vec \<and> used_slots vec = sl_first ` set vec
         | Some x \<Rightarrow> x \<in> sl_first ` set vec \<and> x \<notin> used_slots vec \<and> used_slots vec1 = insert x (used_slots vec)"
      using try_get_ok [OF i v] by blast
    have len: "int (length vec) = my_poolSize (ms_pool s)" "set (ms_held s) = used_slots vec" using i v by (simp_all add: my_inv_def)
    have "length (ms_held s) \<le> length vec"
      using distinct_card [OF d] len(2) used_slots_sub [of vec] card_mono [of "sl_first ` set vec"] by (metis List.finite_set card_length finite_imageI le_trans length_map list.set_map)
    then show ?thesis using c used_length [OF i v] len by (cases c) auto
  qed
  have r: "\<exists>p. releaseConnection c (ms_pool s) = Inr (1, p)" if c: "c \<in> set (ms_held s)" for c
  proof -
    obtain vec where "my_vec (ms_pool s) = Some vec" using i c by (auto simp: my_inv_def split: option.splits)
    from release_ok [OF i c this] show ?thesis by blast
  qed
  show ?thesis using myp.simulates_reachable [OF assms] d t r by blast
qed

definition two_slots :: "bool \<Rightarrow> bool \<Rightarrow> my_pool" where
  "two_slots a b =
     \<lparr>my_host = ''h'', my_user = ''u'', my_pass = ''p'', my_dbname = ''d'', my_poolSize = 2,
      my_vec = Some [\<lparr>sl_first = 0, sl_second = a\<rparr>, \<lparr>sl_first = 1, sl_second = b\<rparr>], my_news = 2, my_closed = []\<rparr>"

lemma two_slots_try:
  "try_get (two_slots False b) = Inr (Some 0, two_slots True b)" "try_get (two_slots True False) = Inr (Some 1, two_slots True True)"
  by (simp_all add: try_get_def with_vec_def two_slots_def numeral_2_eq_2)

theorem mysql_pool_lends_witness:
  "\<exists>s0 s. my_start s0 \<and> (my_step (\<lambda>h u p d n. True))\<^sup>*\<^sup>* s0 s \<and> ms_held s = [1, 0] \<and>
    (\<exists>p. try_get (ms_pool s) = Inr (None, p)) \<and> (\<exists>p. releaseConnection 0 (ms_pool s) = Inr (1, p))"
proof -
  let ?st = "\<lambda>p held. \<lparr>ms_pool = p, ms_held = held\<rparr>" and ?ok = "\<lambda>h u p d n. True"
  let ?init = "?st (initPool ''h'' ''u'' ''p'' ''d'' 2 Pool_statics) []" and ?full = "?st (two_slots True True) [1, 0]"
  have s0: "my_start ?init" by (simp add: my_start_def initPool_def Pool_statics_def)
  have "open_pool ?ok (ms_pool ?init) = Inr (two_slots False False)"
    by (simp add: open_pool_def Pool_ctor_def Connection_ctor_def initPool_def Pool_statics_def two_slots_def numeral_2_eq_2)
  from my_step.opened [OF this] have 1: "my_step ?ok ?init (?st (two_slots False False) [])" by simp
  have 2: "my_step ?ok (?st (two_slots False False) []) (?st (two_slots True False) [0])"
    using my_step.got [of "?st (two_slots False False) []"] two_slots_try(1) by (simp add: two_slots_def)
  have 3: "my_step ?ok (?st (two_slots True False) [0]) ?full"
    using my_step.got [of "?st (two_slots True False) [0]"] two_slots_try(2) by (simp add: two_slots_def)
  have r: "(my_step ?ok)\<^sup>*\<^sup>* ?init ?full"
    using 1 2 3 by (blast intro: converse_rtranclp_into_rtranclp)
  have v: "my_vec (ms_pool ?full) \<noteq> None" "\<not> int (length (ms_held ?full)) < my_poolSize (ms_pool ?full)" "0 \<in> set (ms_held ?full)"
    by (simp_all add: two_slots_def)
  note l = mysql_pool_lends [OF s0 r]
  from l v(1,2) have "\<exists>p. try_get (ms_pool ?full) = Inr (None, p)" by auto
  moreover from l v(3) have "\<exists>p. releaseConnection 0 (ms_pool ?full) = Inr (1, p)" by blast
  ultimately show ?thesis using s0 r by (intro exI [of _ ?init] exI [of _ ?full]) simp
qed

section \<open>Results of queries\<close>

lemma string_row_ok: "None \<notin> set cols \<Longrightarrow> string_row cols = Inr (map the cols)"
  by (induction cols rule: string_row.induct) auto

lemma fetch_rows:
  "\<forall>row \<in> set rows. None \<notin> set row \<Longrightarrow>
   fold_res (\<lambda>row t. bind_res (string_row row) (\<lambda>r. Inr (addRow r t))) rows t = Inr (t @ map (map the) rows)"
  by (induction rows arbitrary: t) (auto simp: string_row_ok addRow_def)

text \<open>A query of at most 99 characters reaches the server as it is, and the table has the rows and columns fetched: every
  element is read back at its place, if no column is NULL. A longer statement overruns the fixed buffer whatever the server
  answers.\<close>

theorem mysql_query_rows:
  assumes "CHR 0x00 \<notin> set statement"
  shows "if length statement < 100
    then \<forall>rows w1. serve statement w = (rows, w1) \<and> (\<forall>row \<in> set rows. None \<notin> set row) \<longrightarrow>
      (\<exists>t. executeQuery serve statement w = Inr (t, w1) \<and> length t = length rows \<and>
        (\<forall>r c. r < length rows \<and> c < length (rows ! r) \<and> r < 2 ^ 31 \<and> c < 2 ^ 31 \<longrightarrow>
          getElement (int r) (int c) t = Inr (the (rows ! r ! c))))
    else executeQuery serve statement w = Inl OutOfRange"
proof -
  have q: "c_str statement = statement" unfolding c_str_def takeWhile_eq_all_conv using assms by auto
  have s: "size_of_int (int n) = n" if "n < 2 ^ 31" for n using that by (simp add: size_of_int_def flip: of_nat_mod)
  show ?thesis
    using fetch_rows by (auto simp: executeQuery_def q Let_def getElement_def s)
qed

theorem mysql_query_rows_witness:
  "executeQuery (\<lambda>q w. ([[Some ''1'', Some ''ab''], [Some ''2'', Some ''cd'']], w + 1)) ''select id, name from t'' (0::nat) =
     Inr ([[''1'', ''ab''], [''2'', ''cd'']], 1) \<and>
   (\<exists>t. executeQuery (\<lambda>q w. ([[Some ''1'', Some ''ab''], [Some ''2'', Some ''cd'']], w + 1)) ''select id, name from t'' (0::nat) = Inr (t, 1) \<and>
     getElement 1 1 t = Inr ''cd'')"
proof -
  let ?serve = "\<lambda>q (w::nat). ([[Some ''1'', Some ''ab''], [Some ''2'', Some ''cd'']], w + 1)" and ?q = "''select id, name from t''"
  let ?rows = "[[Some ''1'', Some ''ab''], [Some ''2'', Some ''cd'']]"
  obtain t where t: "executeQuery ?serve ?q 0 = Inr (t, Suc 0)"
      "\<And>r c. r < length ?rows \<Longrightarrow> c < length (?rows ! r) \<Longrightarrow> r < 2 ^ 31 \<Longrightarrow> c < 2 ^ 31 \<Longrightarrow> getElement (int r) (int c) t = Inr (the (?rows ! r ! c))"
    using mysql_query_rows [of ?q ?serve 0] by auto
  have "getElement 1 1 t = Inr ''cd''" using t(2) [of 1 1] by simp
  moreover have "executeQuery ?serve ?q 0 = Inr ([[''1'', ''ab''], [''2'', ''cd'']], 1)" by code_simp
  ultimately show ?thesis using t(1) by auto
qed

text \<open>Changing the size of the pool in use makes the loop of \<open>getConnection\<close> leave the array.\<close>

theorem resized_pool_out_of_range:
  "try_get (initPool ''h'' ''u'' ''p'' ''d'' 3 (two_slots True True)) = Inl OutOfRange"
  by (simp add: try_get_def with_vec_def initPool_def two_slots_def numeral_3_eq_3)

end
