(* ===== verification/TA_Poll.thy ===== *)
theory TA_Poll
  imports TA_Reactor
begin

unbundle bit_operations_syntax

text \<open>
  The poller on \<open>poll(2)\<close> (\<open>src/Reactor/Poll.h\<close> and \<open>Poll.cpp\<close>), the other implementation of \<open>Poller\<close>: an array of
  \<open>pollfd\<close> entries, one per registered channel, whose index the channel keeps. \<open>poll(2)\<close> is a parameter: it
  gives the number of events, or an error, and writes the \<open>revents\<close>. An operation that asserts the loop's
  thread is called there, as for the other poller.
\<close>

section \<open>The poller\<close>

record pollfd =
  pf_fd :: int
  pf_events :: "16 word"
  pf_revents :: "16 word"

record poll_state =
  pl_chans :: "nat \<rightharpoonup> channel"
  pl_channels :: "(int \<times> nat) list"
  pl_pollfds :: "pollfd list"

definition Poll_ctor :: poll_state where
  "Poll_ctor = \<lparr>pl_chans = Map.empty, pl_channels = [], pl_pollfds = []\<rparr>"

definition pl_chan_at :: "nat \<Rightarrow> poll_state \<Rightarrow> channel res" where
  "pl_chan_at p s = (case pl_chans s p of Some c \<Rightarrow> Inr c | None \<Rightarrow> Inl (if p = 0 then NullDeref else Dangling))"

definition short_events :: "channel \<Rightarrow> 16 word" where
  "short_events c = ucast (ch_events c)"

definition Poll_updateChannel :: "nat \<Rightarrow> poll_state \<Rightarrow> poll_state res" where
  "Poll_updateChannel p s =
     bind_res (pl_chan_at p s) (\<lambda>c.
       if ch_index c < 0
       then cassert (map_of (pl_channels s) (ch_fd c) = None) ''m_channels.find(channel->fd()) == m_channels.end()''
         (let pfds = pl_pollfds s @ [\<lparr>pf_fd = ch_fd c, pf_events = short_events c, pf_revents = 0\<rparr>]
          in Inr (s\<lparr>pl_pollfds := pfds, pl_chans := (pl_chans s)(p \<mapsto> c\<lparr>ch_index := int_of_size (length pfds) - 1\<rparr>),
                pl_channels := omap_update (ch_fd c) p (pl_channels s)\<rparr>))
       else cassert (map_of (pl_channels s) (ch_fd c) \<noteq> None) ''m_channels.find(channel->fd()) != m_channels.end()''
         (cassert (map_of (pl_channels s) (ch_fd c) = Some p) ''m_channels[channel->fd()] == channel''
         (cassert (ch_index c < int_of_size (length (pl_pollfds s))) ''0 <= idx && idx < static_cast<int>(m_pollfds.size())''
         (let pfd = pl_pollfds s ! nat (ch_index c)
          in cassert (pf_fd pfd = ch_fd c \<or> pf_fd pfd = - 1) ''pfd.fd == channel->fd() || pfd.fd == -1''
            (Inr (s\<lparr>pl_pollfds := (pl_pollfds s)[nat (ch_index c) := pfd\<lparr>pf_events := short_events c, pf_revents := 0,
                pf_fd := (if isNoneEvent c then - 1 else pf_fd pfd)\<rparr>]\<rparr>))))))"

text \<open>\<open>removeChannel\<close>: the entry is swapped with the last one, whose channel gets its index. \<open>m_channels[fd]\<close> of an
  unknown descriptor is a null pointer.\<close>

definition Poll_removeChannel :: "nat \<Rightarrow> poll_state \<Rightarrow> poll_state res" where
  "Poll_removeChannel p s =
     bind_res (pl_chan_at p s) (\<lambda>c.
     cassert (map_of (pl_channels s) (ch_fd c) \<noteq> None) ''m_channels.find(channel->fd()) != m_channels.end()''
     (cassert (map_of (pl_channels s) (ch_fd c) = Some p) ''m_channels[channel->fd()] == channel''
     (cassert (isNoneEvent c) ''channel->isNoneEvent()''
     (cassert (0 \<le> ch_index c \<and> ch_index c < int_of_size (length (pl_pollfds s))) ''0 <= idx && idx < static_cast<int>(m_pollfds.size())''
     (let pfds = pl_pollfds s; i = nat (ch_index c); pfd = pfds ! i
      in cassert (pf_fd pfd = - 1 \<and> pf_events pfd = short_events c) ''pfd.fd == - 1 && pfd.events == static_cast<short>(channel->events())''
        (let chans = filter (\<lambda>e. fst e \<noteq> ch_fd c) (pl_channels s)
         in cassert (length (pl_channels s) = length chans + 1) ''n == 1''
           (if int_of_size (length pfds - 1) = ch_index c
            then Inr (s\<lparr>pl_channels := chans, pl_pollfds := butlast pfds\<rparr>)
            else let atEnd = pf_fd (last pfds);
                     fd = (if atEnd < 0 then - atEnd - 1 else atEnd)
                 in case map_of chans fd of
                      None \<Rightarrow> Inl NullDeref
                    | Some q \<Rightarrow> bind_res (pl_chan_at q s) (\<lambda>d.
                        Inr (s\<lparr>pl_channels := chans, pl_chans := (pl_chans s)(q \<mapsto> d\<lparr>ch_index := ch_index c\<rparr>),
                          pl_pollfds := butlast (pfds[i := last pfds, length pfds - 1 := pfd])\<rparr>)))))))))"

text \<open>\<open>fillActiveChannels\<close>: the entries with events, until \<open>numEvents\<close> of them are found.\<close>

fun fillActiveChannels :: "pollfd list \<Rightarrow> int \<Rightarrow> nat list \<times> poll_state \<Rightarrow> (nat list \<times> poll_state) res" where
  "fillActiveChannels [] n st = Inr st"
| "fillActiveChannels (pfd # pfds) n st =
     (if n \<le> 0 then Inr st
      else if 0 < sint (pf_revents pfd)
      then (case map_of (pl_channels (snd st)) (pf_fd pfd) of
              None \<Rightarrow> Inl (AssertFailed ''ch != m_channels.end()'')
            | Some p \<Rightarrow>
                bind_res (pl_chan_at p (snd st)) (\<lambda>c.
                  cassert (ch_fd c = pf_fd pfd) ''channel->fd() == pfd->fd''
                    (fillActiveChannels pfds (n - 1)
                      (fst st @ [p], (snd st)\<lparr>pl_chans := (pl_chans (snd st))(p \<mapsto> c\<lparr>ch_revents := scast (pf_revents pfd)\<rparr>)\<rparr>))))
      else fillActiveChannels pfds n st)"

text \<open>\<open>sys_poll\<close> maps the descriptors and events to an error or the list of \<open>revents\<close>; the number of events is the number
  of entries that have some.\<close>

type_synonym sys_poll = "(int \<times> 16 word) list \<Rightarrow> 16 word list option"

definition write_revents :: "16 word list \<Rightarrow> pollfd list \<Rightarrow> pollfd list" where
  "write_revents rs pfds = map2 (\<lambda>pfd r. pfd\<lparr>pf_revents := r\<rparr>) pfds rs"

definition Poll_poll :: "sys_poll \<Rightarrow> poll_state \<Rightarrow> (nat list \<times> poll_state) res" where
  "Poll_poll sys s =
     (case sys (map (\<lambda>pfd. (pf_fd pfd, pf_events pfd)) (pl_pollfds s)) of
        None \<Rightarrow> Inr ([], s)
      | Some rs \<Rightarrow>
          let n = int (length (filter (\<lambda>r. r \<noteq> 0) rs));
              s1 = s\<lparr>pl_pollfds := write_revents rs (pl_pollfds s)\<rparr>
          in if 0 < n then fillActiveChannels (pl_pollfds s1) n ([], s1) else Inr ([], s1))"

text \<open>What \<open>poll(2)\<close> promises: one result per entry, nothing for an entry with a negative descriptor, and events below the
  sign bit.\<close>

definition sys_poll_ok :: "sys_poll \<Rightarrow> bool" where
  "sys_poll_ok sys \<longleftrightarrow> (\<forall>q rs. sys q = Some rs \<longrightarrow> length rs = length q \<and>
     (\<forall>i < length q. (fst (q ! i) < 0 \<longrightarrow> rs ! i = 0) \<and> 0 \<le> sint (rs ! i)))"

section \<open>Invariant\<close>

text \<open>\<open>ps\<close> are the channels of the entries: each is live, registered under its descriptor, and has the index of its
  entry, whose descriptor is the channel's or the mask \<open>-1\<close>; no other descriptor is registered.\<close>

definition entry_of :: "poll_state \<Rightarrow> nat \<Rightarrow> nat \<Rightarrow> bool" where
  "entry_of s i p \<longleftrightarrow> (\<exists>c. pl_chans s p = Some c \<and> ch_index c = int i \<and> 0 \<le> ch_fd c \<and>
     map_of (pl_channels s) (ch_fd c) = Some p \<and> pf_fd (pl_pollfds s ! i) \<in> {ch_fd c, - 1})"

definition pl_inv :: "poll_state \<Rightarrow> nat list \<Rightarrow> bool" where
  "pl_inv s ps \<longleftrightarrow> omap_wf (pl_channels s) \<and> length (pl_pollfds s) = length ps \<and> distinct ps \<and>
     (\<forall>i < length ps. entry_of s i (ps ! i)) \<and>
     (\<forall>fd p. map_of (pl_channels s) fd = Some p \<longrightarrow> p \<in> set ps \<and> (\<exists>c. pl_chans s p = Some c \<and> ch_fd c = fd))"

lemma pl_inv_entry:
  assumes "pl_inv s ps" and "i < length ps"
  shows "\<exists>c. pl_chans s (ps ! i) = Some c \<and> ch_index c = int i \<and> 0 \<le> ch_fd c \<and>
     map_of (pl_channels s) (ch_fd c) = Some (ps ! i) \<and> pf_fd (pl_pollfds s ! i) \<in> {ch_fd c, - 1}"
  using assms unfolding pl_inv_def entry_of_def by blast

lemma pl_invI:
  assumes "omap_wf (pl_channels s)" and "length (pl_pollfds s) = length ps" and "distinct ps"
    and "\<And>i. i < length ps \<Longrightarrow> entry_of s i (ps ! i)"
    and "\<And>fd p. map_of (pl_channels s) fd = Some p \<Longrightarrow> p \<in> set ps \<and> (\<exists>c. pl_chans s p = Some c \<and> ch_fd c = fd)"
  shows "pl_inv s ps"
  using assms unfolding pl_inv_def by blast

lemma Poll_ctor_inv: "pl_inv Poll_ctor []"
  by (simp add: pl_inv_def Poll_ctor_def)

lemma pl_inv_put:
  assumes inv: "pl_inv s ps" and p: "pl_chans s p = Some c" and same: "ch_fd c' = ch_fd c" "ch_index c' = ch_index c"
  shows "pl_inv (s\<lparr>pl_chans := (pl_chans s)(p \<mapsto> c')\<rparr>) ps"
proof (rule pl_invI)
  show "entry_of (s\<lparr>pl_chans := (pl_chans s)(p \<mapsto> c')\<rparr>) i (ps ! i)" if "i < length ps" for i
    using pl_inv_entry [OF inv that] p same by (auto simp: entry_of_def)
  show "q \<in> set ps \<and> (\<exists>d. pl_chans (s\<lparr>pl_chans := (pl_chans s)(p \<mapsto> c')\<rparr>) q = Some d \<and> ch_fd d = fd)"
    if "map_of (pl_channels (s\<lparr>pl_chans := (pl_chans s)(p \<mapsto> c')\<rparr>)) fd = Some q" for fd q
    using that inv p same unfolding pl_inv_def by fastforce
qed (use inv in \<open>auto simp: pl_inv_def\<close>)

section \<open>Updating\<close>

lemma Poll_update_new:
  assumes inv: "pl_inv s ps" and c: "pl_chans s p = Some c" "ch_index c < 0" "0 \<le> ch_fd c" "map_of (pl_channels s) (ch_fd c) = None"
    and room: "length ps < 2 ^ 31 - 1"
  shows "\<exists>s'. Poll_updateChannel p s = Inr s' \<and> pl_inv s' (ps @ [p]) \<and>
    pl_pollfds s' = pl_pollfds s @ [\<lparr>pf_fd = ch_fd c, pf_events = short_events c, pf_revents = 0\<rparr>]"
proof -
  let ?s = "s\<lparr>pl_pollfds := pl_pollfds s @ [\<lparr>pf_fd = ch_fd c, pf_events = short_events c, pf_revents = 0\<rparr>],
    pl_chans := (pl_chans s)(p \<mapsto> c\<lparr>ch_index := int (length ps)\<rparr>), pl_channels := omap_update (ch_fd c) p (pl_channels s)\<rparr>"
  have len: "length (pl_pollfds s) = length ps" and wf: "omap_wf (pl_channels s)" using inv by (simp_all add: pl_inv_def)
  have out: "p \<notin> set ps"
  proof
    assume "p \<in> set ps"
    then obtain i where "i < length ps" "ps ! i = p" by (auto simp: in_set_conv_nth)
    with pl_inv_entry [OF inv, of i] c show False by auto
  qed
  have run: "Poll_updateChannel p s = Inr ?s"
    using c room len by (simp add: Poll_updateChannel_def pl_chan_at_def Let_def)
  have "pl_inv ?s (ps @ [p])"
  proof (rule pl_invI)
    show "entry_of ?s i ((ps @ [p]) ! i)" if "i < length (ps @ [p])" for i
    proof (cases "i < length ps")
      case True
      from pl_inv_entry [OF inv True] obtain d where d: "pl_chans s (ps ! i) = Some d" "ch_index d = int i" "0 \<le> ch_fd d"
          "map_of (pl_channels s) (ch_fd d) = Some (ps ! i)" "pf_fd (pl_pollfds s ! i) \<in> {ch_fd d, - 1}"
        by blast
      have "ps ! i \<noteq> p" "ch_fd d \<noteq> ch_fd c" using True out d(4) c(4) by auto
      then show ?thesis using d wf len True unfolding entry_of_def by (intro exI [of _ d]) (simp add: nth_append)
    next
      case False
      with that have "i = length ps" by simp
      then show ?thesis using c wf len by (auto simp: entry_of_def nth_append)
    qed
    show "q \<in> set (ps @ [p]) \<and> (\<exists>c. pl_chans ?s q = Some c \<and> ch_fd c = fd)" if "map_of (pl_channels ?s) fd = Some q" for fd q
      using that inv c wf out by (auto simp: pl_inv_def split: if_splits)
  qed (use out inv in \<open>auto simp: pl_inv_def\<close>)
  with run show ?thesis by auto
qed

lemma Poll_update_old:
  assumes inv: "pl_inv s ps" and i: "i < length ps" "pl_chans s (ps ! i) = Some c" and room: "length ps < 2 ^ 31"
  shows "\<exists>s'. Poll_updateChannel (ps ! i) s = Inr s' \<and> pl_inv s' ps \<and> pl_chans s' = pl_chans s \<and> pl_channels s' = pl_channels s \<and>
    pl_pollfds s' = (pl_pollfds s)[i := \<lparr>pf_fd = (if isNoneEvent c then - 1 else pf_fd (pl_pollfds s ! i)),
      pf_events = short_events c, pf_revents = 0\<rparr>]"
proof -
  let ?s = "s\<lparr>pl_pollfds := (pl_pollfds s)[i := \<lparr>pf_fd = (if isNoneEvent c then - 1 else pf_fd (pl_pollfds s ! i)),
      pf_events = short_events c, pf_revents = 0\<rparr>]\<rparr>"
  have len: "length (pl_pollfds s) = length ps" using inv by (simp add: pl_inv_def)
  have c: "ch_index c = int i" "map_of (pl_channels s) (ch_fd c) = Some (ps ! i)" "pf_fd (pl_pollfds s ! i) \<in> {ch_fd c, - 1}"
    using pl_inv_entry [OF inv i(1)] i(2) by auto
  have run: "Poll_updateChannel (ps ! i) s = Inr ?s"
    using c i len room by (cases "pl_pollfds s ! i") (simp add: Poll_updateChannel_def pl_chan_at_def Let_def)
  have "pl_inv ?s ps"
  proof (rule pl_invI)
    show "entry_of ?s j (ps ! j)" if "j < length ps" for j
      using pl_inv_entry [OF inv that] c i len by (cases "j = i") (auto simp: entry_of_def)
  qed (use inv in \<open>auto simp: pl_inv_def\<close>)
  with run show ?thesis by simp
qed

section \<open>Polling\<close>

lemma pl_inv_cong:
  assumes inv: "pl_inv s ps" and eq: "pl_channels s' = pl_channels s" "map pf_fd (pl_pollfds s') = map pf_fd (pl_pollfds s)"
    and ch: "\<And>p. map_option (\<lambda>c. (ch_fd c, ch_index c)) (pl_chans s' p) = map_option (\<lambda>c. (ch_fd c, ch_index c)) (pl_chans s p)"
  shows "pl_inv s' ps"
proof (rule pl_invI)
  have len: "length (pl_pollfds s') = length (pl_pollfds s)" using arg_cong [OF eq(2), of length] by simp
  have c': "\<exists>c'. pl_chans s' p = Some c' \<and> ch_fd c' = ch_fd c \<and> ch_index c' = ch_index c" if "pl_chans s p = Some c" for p c
    using ch [of p] that by (cases "pl_chans s' p") auto
  show "entry_of s' i (ps ! i)" if "i < length ps" for i
  proof -
    have "pf_fd (pl_pollfds s' ! i) = pf_fd (pl_pollfds s ! i)"
      using that inv len arg_cong [OF eq(2), of "\<lambda>xs. xs ! i"] by (simp add: pl_inv_def)
    then show ?thesis using pl_inv_entry [OF inv that] c' eq(1) unfolding entry_of_def by metis
  qed
  show "p \<in> set ps \<and> (\<exists>c. pl_chans s' p = Some c \<and> ch_fd c = fd)" if "map_of (pl_channels s') fd = Some p" for fd p
    using that inv c' unfolding pl_inv_def eq(1) by metis
qed (use inv arg_cong [OF eq(2), of length] eq(1) in \<open>auto simp: pl_inv_def\<close>)

definition with_events :: "pollfd list \<Rightarrow> nat list \<Rightarrow> (nat \<rightharpoonup> channel) \<Rightarrow> nat \<rightharpoonup> channel" where
  "with_events pfds ps ch p =
     (case map_of (zip ps pfds) p of
        Some pfd \<Rightarrow> if pf_revents pfd \<noteq> 0 then map_option (\<lambda>c. c\<lparr>ch_revents := scast (pf_revents pfd)\<rparr>) (ch p) else ch p
      | None \<Rightarrow> ch p)"

definition active_of :: "pollfd list \<Rightarrow> nat list \<Rightarrow> nat list" where
  "active_of pfds ps = map snd (filter (\<lambda>(pfd, p). pf_revents pfd \<noteq> 0) (zip pfds ps))"

lemma sint_positive: "0 \<le> sint r \<Longrightarrow> 0 < sint r \<longleftrightarrow> r \<noteq> (0 :: 16 word)"
proof -
  assume "0 \<le> sint r"
  moreover have "sint r = 0 \<longleftrightarrow> r = 0" by (rule signed_eq_0_iff)
  ultimately show ?thesis by (metis order_le_less order_less_irrefl)
qed

lemma map_filter_comprehension: "map f (filter P xs) = [f x. x \<leftarrow> xs, P x]"
  by (induction xs) auto

lemma fill_ok:
  assumes "length qs = length pfds" and "distinct qs" and "n = int (length (filter (\<lambda>pfd. pf_revents pfd \<noteq> 0) pfds))"
    and "\<And>i. i < length pfds \<Longrightarrow> 0 \<le> sint (pf_revents (pfds ! i)) \<and>
      (pf_revents (pfds ! i) \<noteq> 0 \<longrightarrow> (\<exists>c. pl_chans s (qs ! i) = Some c \<and> ch_fd c = pf_fd (pfds ! i) \<and> map_of (pl_channels s) (pf_fd (pfds ! i)) = Some (qs ! i)))"
  shows "fillActiveChannels pfds n (act, s) = Inr (act @ active_of pfds qs, s\<lparr>pl_chans := with_events pfds qs (pl_chans s)\<rparr>)"
  using assms
proof (induction pfds arbitrary: qs n act s)
  case Nil
  then show ?case by (simp add: active_of_def with_events_def fun_eq_iff)
next
  case (Cons pfd pfds)
  obtain q qs' where q: "qs = q # qs'" using Cons.prems(1) by (cases qs) auto
  have h: "0 \<le> sint (pf_revents pfd)" "pf_revents pfd \<noteq> 0 \<Longrightarrow> \<exists>c. pl_chans s q = Some c \<and> ch_fd c = pf_fd pfd \<and> map_of (pl_channels s) (pf_fd pfd) = Some q"
    using Cons.prems(4) [of 0] q by auto
  have rest: "0 \<le> sint (pf_revents (pfds ! i)) \<and> (pf_revents (pfds ! i) \<noteq> 0 \<longrightarrow>
      (\<exists>c. pl_chans s (qs' ! i) = Some c \<and> ch_fd c = pf_fd (pfds ! i) \<and> map_of (pl_channels s) (pf_fd (pfds ! i)) = Some (qs' ! i)))"
    if "i < length pfds" for i using Cons.prems(4) [of "Suc i"] that q by simp
  have none: "map_of (zip qs' pfds) q = None" using Cons.prems(1,2) q by (auto simp: map_of_eq_None_iff dest: set_zip_leftD)
  show ?case
  proof (cases "pf_revents pfd = 0")
    case True
    have zero: "active_of (pfd # pfds) qs = active_of pfds qs'" using True q by (simp add: active_of_def)
    have same: "with_events (pfd # pfds) qs ch = with_events pfds qs' ch" for ch
      using True q none by (auto simp: with_events_def fun_eq_iff split: option.splits)
    have n0: "\<not> 0 < sint (pf_revents pfd)" using True by simp
    have "fillActiveChannels pfds n (act, s) = Inr (act @ active_of pfds qs', s\<lparr>pl_chans := with_events pfds qs' (pl_chans s)\<rparr>)"
      by (rule Cons.IH) (use Cons.prems(1-3) q True rest in auto)
    moreover have "n \<le> 0 \<Longrightarrow> active_of pfds qs' = [] \<and> with_events pfds qs' (pl_chans s) = pl_chans s"
    proof -
      assume "n \<le> 0"
      then have z: "filter (\<lambda>pfd. pf_revents pfd \<noteq> 0) pfds = []" using Cons.prems(3) True by simp
      then have all: "\<forall>pfd \<in> set pfds. pf_revents pfd = 0" by (simp add: filter_empty_conv)
      then have "active_of pfds qs' = []" by (auto simp: active_of_def filter_empty_conv dest: set_zip_leftD)
      moreover have "with_events pfds qs' (pl_chans s) = pl_chans s"
        using all by (auto simp: with_events_def fun_eq_iff split: option.split dest!: map_of_SomeD dest: set_zip_rightD)
      ultimately show ?thesis by blast
    qed
    ultimately show ?thesis using zero same n0 by simp
  next
    case False
    then obtain c where c: "pl_chans s q = Some c" "ch_fd c = pf_fd pfd" "map_of (pl_channels s) (pf_fd pfd) = Some q" using h(2) by blast
    let ?s = "s\<lparr>pl_chans := (pl_chans s)(q \<mapsto> c\<lparr>ch_revents := scast (pf_revents pfd)\<rparr>)\<rparr>"
    have pos: "0 < n" "0 < sint (pf_revents pfd)" using Cons.prems(3) False sint_positive [OF h(1)] by auto
    have "q \<notin> set qs'" using Cons.prems(2) q by simp
    then have nth: "qs' ! i \<noteq> q" if "i < length pfds" for i using that Cons.prems(1) q by (auto simp: in_set_conv_nth)
    have "fillActiveChannels pfds (n - 1) (act @ [q], ?s) = Inr ((act @ [q]) @ active_of pfds qs', ?s\<lparr>pl_chans := with_events pfds qs' (pl_chans ?s)\<rparr>)"
      by (rule Cons.IH) (use Cons.prems(1-3) q False rest nth in auto)
    moreover have "with_events pfds qs' (pl_chans ?s) = with_events (pfd # pfds) qs (pl_chans s)"
      using q none False c(1) by (auto simp: with_events_def fun_eq_iff split: option.split)
    moreover have "active_of (pfd # pfds) qs = q # active_of pfds qs'" using False q by (simp add: active_of_def)
    ultimately show ?thesis using pos c by (simp add: pl_chan_at_def)
  qed
qed

lemma length_nonzero:
  "length rs = length pfds \<Longrightarrow> length (filter (\<lambda>pfd. pf_revents pfd \<noteq> 0) (write_revents rs pfds)) = length (filter (\<lambda>r. r \<noteq> 0) rs)"
  by (induction rs pfds rule: list_induct2) (auto simp: write_revents_def)

lemma write_revents_simps [simp]:
  "length rs = length pfds \<Longrightarrow> length (write_revents rs pfds) = length pfds"
  "length rs = length pfds \<Longrightarrow> i < length pfds \<Longrightarrow> write_revents rs pfds ! i = (pfds ! i)\<lparr>pf_revents := rs ! i\<rparr>"
  by (simp_all add: write_revents_def)

text \<open>The entries after \<open>poll(2)\<close> wrote \<open>rs\<close>: which channels are active, what happens to the channels, and that nothing
  happens when no entry has an event.\<close>

lemma active_written:
  assumes "length rs = length pfds" and "length ps = length pfds"
  shows "active_of (write_revents rs pfds) ps = [ps ! i. i \<leftarrow> [0..<length ps], rs ! i \<noteq> 0]"
proof -
  let ?pfds = "write_revents rs pfds"
  have "zip ?pfds ps = map (\<lambda>i. (?pfds ! i, ps ! i)) [0..<length ps]"
    by (rule nth_equalityI) (use assms in auto)
  then have "active_of ?pfds ps = map (\<lambda>i. ps ! i) (filter (\<lambda>i. pf_revents (?pfds ! i) \<noteq> 0) [0..<length ps])"
    by (simp add: active_of_def filter_map comp_def)
  also have "filter (\<lambda>i. pf_revents (?pfds ! i) \<noteq> 0) [0..<length ps] = filter (\<lambda>i. rs ! i \<noteq> 0) [0..<length ps]"
    by (rule filter_cong) (use assms in auto)
  finally show ?thesis by (simp add: map_filter_comprehension)
qed

lemma written_inv:
  assumes "pl_inv s ps" and "length rs = length (pl_pollfds s)"
  defines "s1 \<equiv> s\<lparr>pl_pollfds := write_revents rs (pl_pollfds s), pl_chans := with_events (write_revents rs (pl_pollfds s)) ps (pl_chans s)\<rparr>"
  shows "pl_inv s1 ps"
proof (rule pl_inv_cong [OF assms(1)])
  show "map pf_fd (pl_pollfds s1) = map pf_fd (pl_pollfds s)"
    unfolding s1_def by (rule nth_equalityI) (use assms(2) in auto)
  show "map_option (\<lambda>c. (ch_fd c, ch_index c)) (pl_chans s1 p) = map_option (\<lambda>c. (ch_fd c, ch_index c)) (pl_chans s p)" for p
    by (cases "pl_chans s p") (auto simp: s1_def with_events_def split: option.split)
qed (simp add: s1_def)

lemma with_no_events:
  assumes "filter (\<lambda>r. r \<noteq> 0) rs = []" and "length rs = length pfds"
  shows "with_events (write_revents rs pfds) ps ch = ch"
proof
  show "with_events (write_revents rs pfds) ps ch p = ch p" for p
    using assms by (auto simp: with_events_def filter_empty_conv in_set_zip split: option.split dest!: map_of_SomeD)
qed

text \<open>C27: the \<open>poll(2)\<close> poller reports exactly the channels whose entries have events, in the order of the entries, each with
  its events, and no assertion fails; the registration is unchanged.\<close>

theorem poll2_reports_ready:
  assumes "pl_inv s ps" and "sys_poll_ok sys" and "sys (map (\<lambda>pfd. (pf_fd pfd, pf_events pfd)) (pl_pollfds s)) = Some rs"
  shows "\<exists>s'. Poll_poll sys s = Inr ([ps ! i. i \<leftarrow> [0..<length ps], rs ! i \<noteq> 0], s') \<and> pl_inv s' ps \<and>
    pl_channels s' = pl_channels s \<and> (\<forall>i < length ps. \<exists>c. pl_chans s (ps ! i) = Some c \<and>
      pl_chans s' (ps ! i) = Some (if rs ! i \<noteq> 0 then c\<lparr>ch_revents := scast (rs ! i)\<rparr> else c))"
proof -
  let ?pfds = "write_revents rs (pl_pollfds s)" and ?n = "int (length (filter (\<lambda>r. r \<noteq> 0) rs))"
  have len: "length rs = length (pl_pollfds s)" "length ps = length (pl_pollfds s)" and d: "distinct ps"
    using assms by (auto simp: sys_poll_ok_def pl_inv_def)
  have rs: "0 \<le> sint (rs ! i)" "pf_fd (pl_pollfds s ! i) < 0 \<Longrightarrow> rs ! i = 0" if "i < length ps" for i
    using assms(2,3) that len unfolding sys_poll_ok_def by fastforce+
  let ?s1 = "s\<lparr>pl_pollfds := ?pfds\<rparr>" and ?ch = "with_events ?pfds ps (pl_chans s)"
  have fill: "fillActiveChannels ?pfds ?n ([], ?s1) = Inr ([] @ active_of ?pfds ps, ?s1\<lparr>pl_chans := with_events ?pfds ps (pl_chans ?s1)\<rparr>)"
  proof (rule fill_ok)
    fix i assume i: "i < length ?pfds"
    then have i': "i < length ps" using len by simp
    show "0 \<le> sint (pf_revents (?pfds ! i)) \<and> (pf_revents (?pfds ! i) \<noteq> 0 \<longrightarrow>
        (\<exists>c. pl_chans ?s1 (ps ! i) = Some c \<and> ch_fd c = pf_fd (?pfds ! i) \<and> map_of (pl_channels ?s1) (pf_fd (?pfds ! i)) = Some (ps ! i)))"
      using pl_inv_entry [OF assms(1) i'] rs [OF i'] i len by auto
  qed (use len d length_nonzero in simp_all)
  have act: "active_of ?pfds ps = [ps ! i. i \<leftarrow> [0..<length ps], rs ! i \<noteq> 0]" by (rule active_written [OF len])
  have look: "map_of (zip ps ?pfds) (ps ! i) = Some ((pl_pollfds s ! i)\<lparr>pf_revents := rs ! i\<rparr>)" if "i < length ps" for i
    using map_of_zip_nth [of ps ?pfds i] that d len by simp
  have ch: "\<exists>c. pl_chans s (ps ! i) = Some c \<and> ?ch (ps ! i) = Some (if rs ! i \<noteq> 0 then c\<lparr>ch_revents := scast (rs ! i)\<rparr> else c)"
    if "i < length ps" for i
    using pl_inv_entry [OF assms(1) that] look [OF that] by (auto simp: with_events_def)
  have "pl_inv (?s1\<lparr>pl_chans := ?ch\<rparr>) ps" using written_inv [OF assms(1) len(1)] by simp
  moreover have "Poll_poll sys s = Inr (active_of ?pfds ps, ?s1\<lparr>pl_chans := ?ch\<rparr>)"
  proof (cases "0 < ?n")
    case True
    then show ?thesis using fill assms(3) by (simp add: Poll_poll_def Let_def)
  next
    case False
    then have z: "filter (\<lambda>r. r \<noteq> 0) rs = []" by simp
    then have "rs ! i = 0" if "i < length ps" for i using that len by (auto simp: filter_empty_conv)
    then have "active_of ?pfds ps = []" unfolding act by simp
    moreover have "?ch = pl_chans s" by (rule with_no_events [OF z len(1)])
    ultimately show ?thesis using assms(3) z by (simp add: Poll_poll_def)
  qed
  ultimately show ?thesis using act ch by (intro exI [of _ "?s1\<lparr>pl_chans := ?ch\<rparr>"]) simp
qed

abbreviation two_entries :: "int \<Rightarrow> int \<Rightarrow> poll_state" where
  "two_entries a b \<equiv> \<lparr>pl_chans = [1 \<mapsto> (Channel_ctor 5)\<lparr>ch_index := 0\<rparr>, 2 \<mapsto> (Channel_ctor 7)\<lparr>ch_index := 1\<rparr>],
     pl_channels = [(5, 1), (7, 2)], pl_pollfds = [\<lparr>pf_fd = a, pf_events = 0, pf_revents = 0\<rparr>, \<lparr>pf_fd = b, pf_events = 0, pf_revents = 0\<rparr>]\<rparr>"

lemma two_entries_inv: "a \<in> {5, - 1} \<Longrightarrow> b \<in> {7, - 1} \<Longrightarrow> pl_inv (two_entries a b) [1, 2]"
  by (auto simp: pl_inv_def entry_of_def Channel_ctor_def less_Suc_eq split: if_splits)

theorem poll2_reports_ready_witness:
  "\<exists>s'. Poll_poll (\<lambda>q. Some (map (\<lambda>(fd, ev). if fd = 7 then 1 else 0) q)) (two_entries 5 7) = Inr ([2], s') \<and> pl_inv s' [1, 2]"
proof -
  have "sys_poll_ok (\<lambda>q. Some (map (\<lambda>(fd, ev). if fd = 7 then 1 else 0) q))"
    by (auto simp: sys_poll_ok_def split: prod.splits)
  from poll2_reports_ready [OF two_entries_inv [of 5 7] this] show ?thesis by (auto simp: upt_rec)
qed

section \<open>Removing\<close>

text \<open>The channels of the entries after the entry \<open>i\<close> was swapped with the last and dropped.\<close>

definition drop_entry :: "nat \<Rightarrow> 'a list \<Rightarrow> 'a list" where
  "drop_entry i xs = butlast (xs[i := last xs])"

lemma drop_entry_nth: "i < length xs \<Longrightarrow> j < length xs - 1 \<Longrightarrow> drop_entry i xs ! j = (if j = i then last xs else xs ! j)"
  by (simp add: drop_entry_def nth_butlast)

lemma drop_entry_last: "drop_entry (length xs - 1) xs = butlast xs"
  by (cases xs rule: rev_cases) (simp_all add: drop_entry_def)

lemma drop_entry_swap: "i < length xs \<Longrightarrow> butlast (xs[i := last xs, length xs - 1 := y]) = drop_entry i xs"
  by (cases xs rule: rev_cases) (auto simp: drop_entry_def list_update_append split: nat.splits)

lemma drop_entry_set:
  assumes "i < length xs" and "distinct xs"
  shows "set (drop_entry i xs) = set xs - {xs ! i}" and "distinct (drop_entry i xs)"
proof -
  obtain ys y where xs: "xs = ys @ [y]" using assms(1) by (cases xs rule: rev_cases) auto
  have "set (drop_entry i xs) = set xs - {xs ! i} \<and> distinct (drop_entry i xs)"
  proof (cases "i < length ys")
    case True
    have "distinct ys" "y \<notin> set ys" using assms(2) xs by auto
    then have "set (ys[i := y]) = insert y (set ys - {ys ! i})" "distinct (ys[i := y])"
      using True by (auto simp: set_update_distinct distinct_list_update)
    moreover have "ys ! i \<noteq> y" using True \<open>y \<notin> set ys\<close> nth_mem by blast
    ultimately show ?thesis using True xs by (auto simp: drop_entry_def list_update_append nth_append)
  next
    case False
    then have "i = length ys" using assms(1) xs by simp
    then show ?thesis using assms(2) xs by (auto simp: drop_entry_def)
  qed
  then show "set (drop_entry i xs) = set xs - {xs ! i}" and "distinct (drop_entry i xs)" by simp_all
qed

lemma Poll_remove_run:
  assumes inv: "pl_inv s ps" and i: "i < length ps" "pl_chans s (ps ! i) = Some c" "isNoneEvent c"
    and masked: "pf_fd (pl_pollfds s ! i) = - 1" "pf_events (pl_pollfds s ! i) = short_events c" and room: "length ps < 2 ^ 31"
  shows "Poll_removeChannel (ps ! i) s =
    (let chans = filter (\<lambda>e. fst e \<noteq> ch_fd c) (pl_channels s); pfds = pl_pollfds s
     in if i = length ps - 1 then Inr (s\<lparr>pl_channels := chans, pl_pollfds := butlast pfds\<rparr>)
        else case map_of chans (if pf_fd (last pfds) < 0 then 0 else pf_fd (last pfds)) of
            None \<Rightarrow> Inl NullDeref
          | Some q \<Rightarrow> bind_res (pl_chan_at q s) (\<lambda>d. Inr (s\<lparr>pl_channels := chans,
              pl_chans := (pl_chans s)(q \<mapsto> d\<lparr>ch_index := int i\<rparr>), pl_pollfds := drop_entry i pfds\<rparr>)))"
proof -
  have c: "ch_index c = int i" "map_of (pl_channels s) (ch_fd c) = Some (ps ! i)" using pl_inv_entry [OF inv i(1)] i(2) by auto
  have len: "length (pl_pollfds s) = length ps" and wf: "omap_wf (pl_channels s)" using inv by (simp_all add: pl_inv_def)
  have n: "length (pl_channels s) = length (filter (\<lambda>e. fst e \<noteq> ch_fd c) (pl_channels s)) + 1" using filter_omap(2) [OF wf c(2)] by simp
  have "last (pl_pollfds s) \<in> set (pl_pollfds s)" using i(1) len by (intro last_in_set) auto
  then obtain j where j: "j < length ps" "last (pl_pollfds s) = pl_pollfds s ! j" using len by (auto simp: in_set_conv_nth)
  have e: "(if pf_fd (last (pl_pollfds s)) < 0 then - pf_fd (last (pl_pollfds s)) - 1 else pf_fd (last (pl_pollfds s))) =
      (if pf_fd (last (pl_pollfds s)) < 0 then 0 else pf_fd (last (pl_pollfds s)))" using pl_inv_entry [OF inv j(1)] j(2) by auto
  have last: "int_of_size (length (pl_pollfds s) - 1) = ch_index c \<longleftrightarrow> i = length ps - 1" using c(1) len room i(1) by auto
  have at: "pl_chan_at (ps ! i) s = Inr c" using i(2) by (simp add: pl_chan_at_def)
  have idx: "0 \<le> int i \<and> int i < int_of_size (length (pl_pollfds s))" using i(1) len room by simp
  have swap: "butlast ((pl_pollfds s)[i := last (pl_pollfds s), length (pl_pollfds s) - 1 := y]) = drop_entry i (pl_pollfds s)" for y
    using drop_entry_swap [of i "pl_pollfds s"] i(1) len by simp
  show ?thesis
    unfolding Poll_removeChannel_def Let_def at bind_res_simps(2) e last unfolding c masked nat_int swap n
    using i(3) idx by simp
qed

text \<open>The last channel takes over the entry \<open>i\<close>.\<close>

lemma drop_inv:
  assumes inv: "pl_inv s ps" and i: "i < length ps" "pl_chans s (ps ! i) = Some c" and e: "pl_chans s (last ps) = Some e"
  shows "pl_inv (s\<lparr>pl_channels := filter (\<lambda>e. fst e \<noteq> ch_fd c) (pl_channels s),
      pl_chans := (if i = length ps - 1 then pl_chans s else (pl_chans s)(last ps \<mapsto> e\<lparr>ch_index := int i\<rparr>)),
      pl_pollfds := drop_entry i (pl_pollfds s)\<rparr>) (drop_entry i ps)" (is "pl_inv ?s _")
proof (rule pl_invI)
  have len: "length (pl_pollfds s) = length ps" and wf: "omap_wf (pl_channels s)" and d: "distinct ps" using inv by (simp_all add: pl_inv_def)
  note chans = filter_omap(1) [OF wf, of "ch_fd c"]
  have ne: "ps \<noteq> []" "pl_pollfds s \<noteq> []" using i(1) len by auto
  then have lst: "last ps = ps ! (length ps - 1)" "last (pl_pollfds s) = pl_pollfds s ! (length ps - 1)" using len by (simp_all add: last_conv_nth)
  have own: "map_of (pl_channels s) (ch_fd c) = Some (ps ! i)" using pl_inv_entry [OF inv i(1)] i(2) by auto
  show "omap_wf (pl_channels ?s)" using wf by (simp add: sorted_wrt_map sorted_wrt_filter)
  show "length (pl_pollfds ?s) = length (drop_entry i ps)" using len by (simp add: drop_entry_def)
  show "distinct (drop_entry i ps)" by (rule drop_entry_set(2) [OF i(1) d])
  show "entry_of ?s j (drop_entry i ps ! j)" if "j < length (drop_entry i ps)" for j
  proof -
    have j: "j < length ps - 1" using that by (simp add: drop_entry_def)
    define k where "k = (if j = i then length ps - 1 else j)"
    have k: "k < length ps" "k \<noteq> i" using j by (auto simp: k_def)
    obtain b where b: "pl_chans s (ps ! k) = Some b" "ch_index b = int k" "0 \<le> ch_fd b"
        "map_of (pl_channels s) (ch_fd b) = Some (ps ! k)" "pf_fd (pl_pollfds s ! k) \<in> {ch_fd b, - 1}"
      using pl_inv_entry [OF inv k(1)] by blast
    have nth: "drop_entry i ps ! j = ps ! k" "drop_entry i (pl_pollfds s) ! j = pl_pollfds s ! k"
      using drop_entry_nth [of i ps j] drop_entry_nth [of i "pl_pollfds s" j] i(1) j len lst by (simp_all add: k_def)
    have "ps ! k \<noteq> ps ! i" using d k i(1) by (simp add: nth_eq_iff_index_eq)
    then have "ch_fd b \<noteq> ch_fd c" using b(4) own by auto
    then have m: "map_of (pl_channels ?s) (ch_fd b) = Some (ps ! k)" using b(4) chans by simp
    have f: "pf_fd (pl_pollfds ?s ! j) \<in> {ch_fd b, - 1}" using b(5) nth(2) by simp
    have "pl_chans ?s (ps ! k) = Some (b\<lparr>ch_index := int j\<rparr>)"
    proof (cases "j = i")
      case True
      then have "ps ! k = last ps" "i \<noteq> length ps - 1" using lst(1) j by (simp_all add: k_def)
      then show ?thesis using b(1) e True by simp
    next
      case False
      then have "ps ! j \<noteq> last ps" using d j lst(1) by (simp add: nth_eq_iff_index_eq)
      then show ?thesis using b(1,2) False by (simp add: k_def)
    qed
    moreover have "ch_index (b\<lparr>ch_index := int j\<rparr>) = int j" "ch_fd (b\<lparr>ch_index := int j\<rparr>) = ch_fd b" by simp_all
    ultimately show ?thesis unfolding entry_of_def nth(1) using m f b(3) by (intro exI [of _ "b\<lparr>ch_index := int j\<rparr>"]) (simp only: simp_thms)
  qed
  show "p \<in> set (drop_entry i ps) \<and> (\<exists>b. pl_chans ?s p = Some b \<and> ch_fd b = fd)" if "map_of (pl_channels ?s) fd = Some p" for fd p
  proof -
    have fd: "fd \<noteq> ch_fd c" "map_of (pl_channels s) fd = Some p" using that chans by (auto split: if_splits)
    then obtain b where b: "p \<in> set ps" "pl_chans s p = Some b" "ch_fd b = fd" using inv unfolding pl_inv_def by blast
    then have "p \<noteq> ps ! i" using fd(1) i(2) by auto
    then have "p \<in> set (drop_entry i ps)" using b(1) drop_entry_set(1) [OF i(1) d] by simp
    moreover have "\<exists>b. pl_chans ?s p = Some b \<and> ch_fd b = fd" using b(2,3) e by (cases "p = last ps") simp_all
    ultimately show ?thesis by blast
  qed
qed

text \<open>Removing a masked channel from the \<open>poll(2)\<close> poller. When its entry is the last, or the last entry is not masked, the
  channel is removed, its entry is filled by the last one and the poller stays consistent. But the mask is \<open>-1\<close>
  for every descriptor, while the code reads it as \<open>-fd-1\<close>: when the last entry is another masked one, the
  channel looked up is that of descriptor 0, and without such a channel a null pointer is followed.\<close>

theorem poll2_remove:
  assumes "pl_inv s ps" and "i < length ps" and "pl_chans s (ps ! i) = Some c" and "isNoneEvent c"
    and "pf_fd (pl_pollfds s ! i) = - 1" and "pf_events (pl_pollfds s ! i) = short_events c" and "length ps < 2 ^ 31"
  shows "(i = length ps - 1 \<or> pf_fd (last (pl_pollfds s)) \<noteq> - 1 \<longrightarrow>
      (\<exists>s'. Poll_removeChannel (ps ! i) s = Inr s' \<and> pl_inv s' (drop_entry i ps) \<and> pl_pollfds s' = drop_entry i (pl_pollfds s) \<and>
        map_of (pl_channels s') = (map_of (pl_channels s))(ch_fd c := None))) \<and>
    (i \<noteq> length ps - 1 \<and> pf_fd (last (pl_pollfds s)) = - 1 \<and> map_of (pl_channels s) 0 = None \<longrightarrow>
      Poll_removeChannel (ps ! i) s = Inl NullDeref)"
proof -
  let ?chans = "filter (\<lambda>e. fst e \<noteq> ch_fd c) (pl_channels s)"
  note run = Poll_remove_run [OF assms, unfolded Let_def]
  have len: "length (pl_pollfds s) = length ps" and wf: "omap_wf (pl_channels s)" and d: "distinct ps"
    using assms(1) by (simp_all add: pl_inv_def)
  note chans = filter_omap(1) [OF wf, of "ch_fd c"]
  have "Poll_removeChannel (ps ! i) s = Inl NullDeref"
    if "i \<noteq> length ps - 1" "pf_fd (last (pl_pollfds s)) = - 1" "map_of (pl_channels s) 0 = None"
    using that by (simp add: run chans)
  moreover have "\<exists>s'. Poll_removeChannel (ps ! i) s = Inr s' \<and> pl_inv s' (drop_entry i ps) \<and> pl_pollfds s' = drop_entry i (pl_pollfds s) \<and>
      map_of (pl_channels s') = (map_of (pl_channels s))(ch_fd c := None)"
    if l: "i = length ps - 1 \<or> pf_fd (last (pl_pollfds s)) \<noteq> - 1"
  proof -
    have ne: "ps \<noteq> []" "pl_pollfds s \<noteq> []" using assms(2) len by auto
    then have lst: "last ps = ps ! (length ps - 1)" "last (pl_pollfds s) = pl_pollfds s ! (length ps - 1)" using len by (simp_all add: last_conv_nth)
    obtain e where e: "pl_chans s (last ps) = Some e" "map_of (pl_channels s) (ch_fd e) = Some (last ps)"
        "pf_fd (last (pl_pollfds s)) \<in> {ch_fd e, - 1}" "0 \<le> ch_fd e"
      using pl_inv_entry [OF assms(1), of "length ps - 1"] ne lst by auto
    let ?s = "s\<lparr>pl_channels := ?chans, pl_chans := (if i = length ps - 1 then pl_chans s else (pl_chans s)(last ps \<mapsto> e\<lparr>ch_index := int i\<rparr>)),
      pl_pollfds := drop_entry i (pl_pollfds s)\<rparr>"
    have "Poll_removeChannel (ps ! i) s = Inr ?s"
    proof (cases "i = length ps - 1")
      case True
      then show ?thesis using run drop_entry_last [of "pl_pollfds s"] len by simp
    next
      case False
      then have "ps ! i \<noteq> last ps" using d assms(2) lst(1) by (simp add: nth_eq_iff_index_eq)
      then have "ch_fd e \<noteq> ch_fd c" using e(2) pl_inv_entry [OF assms(1,2)] assms(3) by auto
      then have "map_of ?chans (ch_fd e) = Some (last ps)" using chans e(2) by simp
      moreover have "pf_fd (last (pl_pollfds s)) = ch_fd e" using l False e(3) by auto
      ultimately show ?thesis using run False e(1,4) by (simp add: pl_chan_at_def)
    qed
    then show ?thesis using drop_inv [OF assms(1-3) e(1)] chans by auto
  qed
  ultimately show ?thesis by blast
qed

theorem poll2_remove_witness:
  "Poll_removeChannel 1 (two_entries (- 1) (- 1)) = Inl NullDeref \<and>
   (\<exists>s'. Poll_removeChannel 1 (two_entries (- 1) 7) = Inr s' \<and> pl_inv s' [2])"
  using poll2_remove [OF two_entries_inv [of "- 1" "- 1"], of 0 "(Channel_ctor 5)\<lparr>ch_index := 0\<rparr>"]
    poll2_remove [OF two_entries_inv [of "- 1" 7], of 0 "(Channel_ctor 5)\<lparr>ch_index := 0\<rparr>"]
  by (auto simp: isNoneEvent_def Channel_ctor_def kNoneEvent_def short_events_def drop_entry_def)

text \<open>A channel that was masked is never watched again: changing its events again leaves the descriptor of its entry at
  \<open>-1\<close>, which \<open>poll(2)\<close> ignores.\<close>

theorem poll2_masked_stays_masked:
  assumes "pl_inv s ps" and "i < length ps" and "pf_fd (pl_pollfds s ! i) = - 1" and "pl_chans s (ps ! i) = Some c" and "length ps < 2 ^ 31"
  shows "\<exists>s'. Poll_updateChannel (ps ! i) (s\<lparr>pl_chans := (pl_chans s)(ps ! i \<mapsto> c\<lparr>ch_events := ev\<rparr>)\<rparr>) = Inr s' \<and>
    pl_inv s' ps \<and> pf_fd (pl_pollfds s' ! i) = - 1"
proof -
  let ?s = "s\<lparr>pl_chans := (pl_chans s)(ps ! i \<mapsto> c\<lparr>ch_events := ev\<rparr>)\<rparr>"
  have "pl_inv ?s ps" by (rule pl_inv_put [OF assms(1,4)]) simp_all
  from Poll_update_old [OF this assms(2), of "c\<lparr>ch_events := ev\<rparr>"] assms show ?thesis by (auto simp: pl_inv_def)
qed

end
