(* ===== verification/TA_Node.thy ===== *)
theory TA_Node
  imports TA_Prelude
begin

text \<open>
  The linked-list node template of the cache (\<open>Node\<close> in \<open>src/cache/LFUCache.h\<close>) on an explicit heap, and
  the theory of doubly linked lists that the cache's proofs use. An address is an index into the heap,
  \<open>0\<close> is NULL; \<open>new\<close> appends a node, \<open>delete\<close> leaves a hole, and following a pointer to a hole is the
  fault \<open>Dangling\<close>.
\<close>

section \<open>Nodes\<close>

record 't node =
  nd_value :: 't
  nd_pre :: nat
  nd_next :: nat

type_synonym 't heap = "'t node option list"

definition nd_at :: "'t heap \<Rightarrow> nat \<Rightarrow> 't node res" where
  "nd_at h a =
     (if a = 0 then Inl NullDeref
      else if a < length h then (case h ! a of Some n \<Rightarrow> Inr n | None \<Rightarrow> Inl Dangling) else Inl Dangling)"

definition nd_new :: "'t \<Rightarrow> 't heap \<Rightarrow> nat \<times> 't heap" where
  "nd_new v h = (length h, h @ [Some \<lparr>nd_value = v, nd_pre = 0, nd_next = 0\<rparr>])"

definition nd_delete :: "nat \<Rightarrow> 't heap \<Rightarrow> 't heap res" where
  "nd_delete a h = bind_res (nd_at h a) (\<lambda>n. Inr (h[a := None]))"

definition setPre :: "nat \<Rightarrow> nat \<Rightarrow> 't heap \<Rightarrow> 't heap res" where
  "setPre a p h = bind_res (nd_at h a) (\<lambda>n. Inr (h[a := Some (n\<lparr>nd_pre := p\<rparr>)]))"

definition setNext :: "nat \<Rightarrow> nat \<Rightarrow> 't heap \<Rightarrow> 't heap res" where
  "setNext a x h = bind_res (nd_at h a) (\<lambda>n. Inr (h[a := Some (n\<lparr>nd_next := x\<rparr>)]))"

text \<open>Assigning through the reference that \<open>getValue()\<close> returns.\<close>

definition setValue :: "nat \<Rightarrow> 't \<Rightarrow> 't heap \<Rightarrow> 't heap res" where
  "setValue a v h = bind_res (nd_at h a) (\<lambda>n. Inr (h[a := Some (n\<lparr>nd_value := v\<rparr>)]))"

section \<open>The heap as a map\<close>

definition mem :: "'t heap \<Rightarrow> nat \<rightharpoonup> 't node" where
  "mem h a = (if a \<noteq> 0 \<and> a < length h then h ! a else None)"

lemma nd_at_Some: "nd_at h a = Inr n \<longleftrightarrow> mem h a = Some n"
  by (auto simp: nd_at_def mem_def split: option.splits)

lemma nd_at_mem [simp]: "mem h a = Some n \<Longrightarrow> nd_at h a = Inr n"
  by (simp add: nd_at_Some)

lemma mem_SomeD: "mem h a = Some n \<Longrightarrow> a \<noteq> 0 \<and> a < length h"
  by (simp add: mem_def split: if_splits)

lemma mem_update: "mem h a = Some n \<Longrightarrow> mem (h[a := x]) = (mem h)(a := x)"
  by (rule ext) (auto simp: mem_def split: if_splits)

lemma mem_append: "h \<noteq> [] \<Longrightarrow> mem (h @ [x]) = (mem h)(length h := x)"
  by (rule ext) (auto simp: mem_def nth_append)

lemma mem_length: "mem h (length h) = None"
  by (simp add: mem_def)

text \<open>What each operation does to the links and to the values.\<close>

definition nx :: "'t heap \<Rightarrow> nat \<rightharpoonup> nat" where "nx h a = map_option nd_next (mem h a)"
definition pv :: "'t heap \<Rightarrow> nat \<rightharpoonup> nat" where "pv h a = map_option nd_pre (mem h a)"
definition vl :: "'t heap \<Rightarrow> nat \<rightharpoonup> 't" where "vl h a = map_option nd_value (mem h a)"

lemmas link_defs = nx_def pv_def vl_def

lemma nx_SomeD: "nx h a = Some x \<Longrightarrow> \<exists>n. mem h a = Some n \<and> nd_next n = x"
  by (auto simp: nx_def)

lemma setPre_ok:
  assumes "mem h a = Some n"
  shows "\<exists>h1. setPre a p h = Inr h1 \<and> nx h1 = nx h \<and> pv h1 = (pv h)(a \<mapsto> p) \<and> vl h1 = vl h \<and> length h1 = length h"
  using assms by (auto simp: setPre_def link_defs mem_update fun_eq_iff)

lemma setNext_ok:
  assumes "mem h a = Some n"
  shows "\<exists>h1. setNext a x h = Inr h1 \<and> nx h1 = (nx h)(a \<mapsto> x) \<and> pv h1 = pv h \<and> vl h1 = vl h \<and> length h1 = length h"
  using assms by (auto simp: setNext_def link_defs mem_update fun_eq_iff)

lemma setValue_ok:
  assumes "mem h a = Some n"
  shows "\<exists>h1. setValue a v h = Inr h1 \<and> nx h1 = nx h \<and> pv h1 = pv h \<and> vl h1 = (vl h)(a \<mapsto> v) \<and> length h1 = length h"
  using assms by (auto simp: setValue_def link_defs mem_update fun_eq_iff)

lemma nd_delete_ok:
  assumes "mem h a = Some n"
  shows "\<exists>h1. nd_delete a h = Inr h1 \<and> nx h1 = (nx h)(a := None) \<and> pv h1 = (pv h)(a := None) \<and> vl h1 = (vl h)(a := None) \<and>
    length h1 = length h"
  using assms by (auto simp: nd_delete_def link_defs mem_update fun_eq_iff)

lemma nd_new_ok:
  assumes "h \<noteq> []"
  shows "\<exists>h1. nd_new v h = (length h, h1) \<and> nx h1 = (nx h)(length h \<mapsto> 0) \<and> pv h1 = (pv h)(length h \<mapsto> 0) \<and>
    vl h1 = (vl h)(length h \<mapsto> v) \<and> length h1 = Suc (length h)"
  using assms by (auto simp: nd_new_def link_defs mem_append fun_eq_iff)

lemma mem_of:
  "nx h a = Some x \<Longrightarrow> \<exists>n. mem h a = Some n"
  "pv h a = Some x \<Longrightarrow> \<exists>n. mem h a = Some n"
  "vl h a = Some v \<Longrightarrow> \<exists>n. mem h a = Some n"
  by (auto simp: link_defs)

lemma mem_links:
  assumes "nx h a = Some x" and "pv h a = Some p" and "vl h a = Some v"
  shows "mem h a = Some \<lparr>nd_value = v, nd_pre = p, nd_next = x\<rparr>"
  using assms by (auto simp: link_defs)

section \<open>Doubly linked lists\<close>

text \<open>The nodes \<open>xs\<close> follow \<open>p\<close>, linked both ways; \<open>N\<close> and \<open>P\<close> give the next and previous pointers.\<close>

fun linked :: "(nat \<rightharpoonup> nat) \<Rightarrow> (nat \<rightharpoonup> nat) \<Rightarrow> nat \<Rightarrow> nat list \<Rightarrow> bool" where
  "linked N P p [] = True"
| "linked N P p (x # xs) = (N p = Some x \<and> P x = Some p \<and> x \<noteq> 0 \<and> linked N P x xs)"

definition dll :: "(nat \<rightharpoonup> nat) \<Rightarrow> (nat \<rightharpoonup> nat) \<Rightarrow> nat \<Rightarrow> nat list \<Rightarrow> bool" where
  "dll N P p xs \<longleftrightarrow> linked N P p xs \<and> N (last (p # xs)) = Some 0"

lemma linked_append: "linked N P p (xs @ ys) \<longleftrightarrow> linked N P p xs \<and> linked N P (last (p # xs)) ys"
  by (induction xs arbitrary: p) auto

lemma dll_append: "dll N P p (xs @ ys) \<longleftrightarrow> linked N P p xs \<and> dll N P (last (p # xs)) ys"
  by (cases ys) (auto simp: dll_def linked_append)

lemma linked_frame:
  "linked N P p xs \<Longrightarrow> (\<And>a. a \<in> set (butlast (p # xs)) \<Longrightarrow> N' a = N a) \<Longrightarrow> (\<And>a. a \<in> set xs \<Longrightarrow> P' a = P a) \<Longrightarrow> linked N' P' p xs"
proof (induction xs arbitrary: p)
  case Nil
  then show ?case by simp
next
  case (Cons x xs)
  have "linked N' P' x xs" by (rule Cons.IH) (use Cons.prems in auto)
  then show ?case using Cons.prems by simp
qed

lemma linked_frame_all:
  "linked N P p xs \<Longrightarrow> (\<And>a. a \<in> set (p # xs) \<Longrightarrow> N' a = N a) \<Longrightarrow> (\<And>a. a \<in> set xs \<Longrightarrow> P' a = P a) \<Longrightarrow> linked N' P' p xs"
  by (induction xs arbitrary: p) auto

lemma dll_frame:
  assumes "dll N P p xs" and "\<And>a. a \<in> set (p # xs) \<Longrightarrow> N' a = N a" and "\<And>a. a \<in> set xs \<Longrightarrow> P' a = P a"
  shows "dll N' P' p xs"
proof -
  have "linked N' P' p xs"
    by (rule linked_frame_all) (use assms in \<open>auto simp: dll_def\<close>)
  moreover have "N' (last (p # xs)) = N (last (p # xs))" by (rule assms(2)) (rule last_in_set, simp)
  ultimately show ?thesis using assms(1) unfolding dll_def by metis
qed

lemma linked_dom: "linked N P p xs \<Longrightarrow> a \<in> set xs \<Longrightarrow> a \<noteq> 0 \<and> P a \<noteq> None"
  by (induction xs arbitrary: p) auto

lemma dll_next:
  assumes "dll N P p (xs @ ys)"
  shows "N (last (p # xs)) = Some (case ys of [] \<Rightarrow> 0 | y # _ \<Rightarrow> y)"
  using assms by (cases ys) (auto simp: dll_def linked_append)

lemma dll_next_of: "dll N P p (xs @ x # ys) \<Longrightarrow> N x = Some (case ys of [] \<Rightarrow> 0 | y # _ \<Rightarrow> y)"
  using dll_next [of N P p "xs @ [x]" ys] by simp

lemma dll_pre_of: "dll N P p (xs @ x # ys) \<Longrightarrow> P x = Some (last (p # xs)) \<and> x \<noteq> 0"
  by (simp add: dll_def linked_append)

text \<open>Putting \<open>n\<close> behind \<open>xs\<close>.\<close>

lemma dll_insert:
  assumes "dll N P p (xs @ ys)" and "distinct (p # xs @ ys)" and "n \<notin> set (p # xs @ ys)" and "n \<noteq> 0"
    and N': "N' = N(n := N (last (p # xs)), last (p # xs) := Some n)"
    and P': "P' = (case ys of [] \<Rightarrow> P | y # _ \<Rightarrow> P(y \<mapsto> n))(n \<mapsto> last (p # xs))"
  shows "dll N' P' p (xs @ n # ys)"
proof -
  let ?q = "last (p # xs)"
  have q: "?q \<in> set (p # xs)" by (rule last_in_set) simp
  have nq: "n \<noteq> ?q" using q assms(3) by auto
  have e: "butlast (p # xs) @ [?q] = p # xs" by (rule append_butlast_last_id) simp
  have "distinct ((butlast (p # xs) @ [?q]) @ ys)" unfolding e using assms(2) by simp
  then have qx: "?q \<notin> set (butlast (p # xs))" and qy: "?q \<notin> set ys" by auto
  have l: "linked N P p xs" "linked N P ?q ys" using assms(1) by (auto simp: dll_def linked_append)
  have 1: "linked N' P' p xs"
    by (rule linked_frame [OF l(1)]) (use assms(2,3) qx in \<open>auto simp: N' P' dest: in_set_butlastD split: list.splits\<close>)
  have 2: "N' ?q = Some n" "P' n = Some ?q" by (simp_all add: N' P')
  have 3: "dll N' P' n ys"
  proof (cases ys)
    case Nil
    then show ?thesis using assms(1) nq by (simp add: dll_def N' split: if_splits)
  next
    case (Cons y zs)
    then have y: "N ?q = Some y" "linked N P y zs" "y \<noteq> 0" "N (last ys) = Some 0"
      using assms(1) l(2) by (auto simp: dll_def)
    have "linked N' P' y zs"
      by (rule linked_frame_all [OF y(2)]) (use assms(2,3) qy Cons in \<open>auto simp: N' P'\<close>)
    moreover have "last ys \<in> set ys" using Cons by simp
    then have "N' (last ys) = Some 0" using y(4) qy assms(3) by (auto simp: N')
    moreover have "N' n = Some y" "P' y = Some n" using y(1) nq assms(3) Cons by (auto simp: N' P')
    ultimately show ?thesis using Cons y(3) by (simp add: dll_def)
  qed
  have "dll N' P' ?q (n # ys)" using 2 3 assms(4) by (simp add: dll_def)
  with 1 show ?thesis unfolding dll_append by blast
qed

text \<open>Taking \<open>n\<close> out.\<close>

lemma dll_delete:
  assumes "dll N P p (xs @ n # ys)" and "distinct (p # xs @ n # ys)"
    and N': "\<And>a. a \<in> set (p # xs @ ys) \<Longrightarrow> N' a = (N(last (p # xs) := N n)) a"
    and P': "\<And>a. a \<in> set (xs @ ys) \<Longrightarrow> P' a = (case ys of [] \<Rightarrow> P | y # _ \<Rightarrow> P(y \<mapsto> last (p # xs))) a"
  shows "dll N' P' p (xs @ ys)"
proof -
  let ?q = "last (p # xs)"
  have q: "?q \<in> set (p # xs)" by (rule last_in_set) simp
  have e: "butlast (p # xs) @ [?q] = p # xs" by (rule append_butlast_last_id) simp
  have "distinct ((butlast (p # xs) @ [?q]) @ n # ys)" unfolding e using assms(2) by simp
  then have qx: "?q \<notin> set (butlast (p # xs))" and qy: "?q \<notin> set ys" by auto
  have l: "linked N P p xs" "linked N P n ys" "N (last (n # ys)) = Some 0" using assms(1) by (auto simp: dll_def linked_append)
  have 1: "linked N' P' p xs"
  proof (rule linked_frame [OF l(1)])
    fix a assume "a \<in> set (butlast (p # xs))"
    then show "N' a = N a" using N' [of a] qx in_set_butlastD [of a "p # xs"] by auto
  next
    fix a assume "a \<in> set xs"
    then show "P' a = P a" using P' [of a] assms(2) by (auto split: list.splits)
  qed
  have Nq: "N' ?q = N n" using N' [of ?q] q by auto
  have 2: "dll N' P' ?q ys"
  proof (cases ys)
    case Nil
    then show ?thesis using l(3) Nq by (simp add: dll_def)
  next
    case (Cons y zs)
    then have y: "N n = Some y" "linked N P y zs" "y \<noteq> 0" using l(2) by auto
    have "linked N' P' y zs"
      by (rule linked_frame_all [OF y(2)]) (use N' P' qy Cons assms(2) in auto)
    moreover have "P' y = Some ?q" using P' [of y] Cons by simp
    moreover have "last ys \<in> set ys" using Cons by simp
    then have "N' (last ys) = Some 0" using l(3) N' [of "last ys"] qy Cons by auto
    ultimately show ?thesis using Cons y Nq by (simp add: dll_def)
  qed
  show ?thesis using 1 2 unfolding dll_append by blast
qed

text \<open>The same for a list that includes its first node.\<close>

fun dlls :: "(nat \<rightharpoonup> nat) \<Rightarrow> (nat \<rightharpoonup> nat) \<Rightarrow> nat list \<Rightarrow> bool" where
  "dlls N P [] = False"
| "dlls N P (p # xs) = dll N P p xs"

lemma dlls_next: "dlls N P (as @ f # bs) \<Longrightarrow> N f = Some (case bs of [] \<Rightarrow> 0 | b # _ \<Rightarrow> b)"
proof (cases as)
  case Nil
  assume "dlls N P (as @ f # bs)"
  with Nil show ?thesis using dll_next [of N P f "[]" bs] by simp
next
  case (Cons a as')
  assume "dlls N P (as @ f # bs)"
  with Cons show ?thesis using dll_next_of [of N P a as' f bs] by simp
qed

lemma dlls_pre: "dlls N P (as @ f # bs) \<Longrightarrow> as \<noteq> [] \<Longrightarrow> P f = Some (last as) \<and> f \<noteq> 0"
  using dll_pre_of [of N P _ _ f bs] by (cases as) auto

lemma dlls_frame:
  "dlls N P l \<Longrightarrow> (\<And>a. a \<in> set l \<Longrightarrow> N' a = N a) \<Longrightarrow> (\<And>a. a \<in> set l \<Longrightarrow> P' a = P a) \<Longrightarrow> dlls N' P' l"
  by (cases l) (auto intro: dll_frame)

lemma dlls_insert:
  assumes "dlls N P (as @ f # bs)" and "distinct (as @ f # bs)" and "n \<notin> set (as @ f # bs)" and "n \<noteq> 0"
    and "N' = N(n := N f, f := Some n)" and "P' = (case bs of [] \<Rightarrow> P | b # _ \<Rightarrow> P(b \<mapsto> n))(n \<mapsto> f)"
  shows "dlls N' P' (as @ f # n # bs)"
proof (cases as)
  case Nil
  then show ?thesis using dll_insert [of N P f "[]" bs n N' P'] assms by simp
next
  case (Cons a as')
  then show ?thesis using dll_insert [of N P a "as' @ [f]" bs n N' P'] assms by simp
qed

lemma dlls_delete:
  assumes "dlls N P (as @ f # bs)" and "distinct (as @ f # bs)" and "as \<noteq> []"
    and "\<And>a. a \<in> set (as @ bs) \<Longrightarrow> N' a = (N(last as := N f)) a"
    and "\<And>a. a \<in> set (as @ bs) \<Longrightarrow> P' a = (case bs of [] \<Rightarrow> P | b # _ \<Rightarrow> P(b \<mapsto> last as)) a"
  shows "dlls N' P' (as @ bs)"
proof (cases as)
  case Nil
  with assms(3) show ?thesis by simp
next
  case (Cons a as')
  have "dll N' P' a (as' @ bs)"
    by (rule dll_delete [of N P a as' f bs]) (use assms in \<open>simp_all only: Cons dlls.simps append_Cons list.set\<close>, auto)
  then show ?thesis using Cons by simp
qed

end
