(* ===== verification/TA_LFUCache.thy ===== *)
theory TA_LFUCache
  imports TA_Node "HOL-Library.AList"
begin

text \<open>
  The least-frequently-used cache (\<open>src/cache/LFUCache.h\<close>, \<open>LFUCache.cpp\<close>): a doubly linked list of
  frequency nodes, each with a doubly linked list of key nodes behind a sentinel, and two hash maps from
  keys to nodes. The nodes are on the explicit heap of \<open>TA_Node\<close>, one per instance of the template; a
  hash map is an association list with distinct keys. A frequency is an unbounded integer: the \<open>int\<close> of
  the source would overflow after \<open>2 ^ 31 - 1\<close> hits on one key.
\<close>

section \<open>Key lists\<close>

record key_pair =
  key_key :: string
  key_value :: string

record key_list =
  kl_freq :: int
  kl_head :: nat
  kl_last :: nat

definition KeyList_init :: "int \<Rightarrow> key_pair heap \<Rightarrow> (key_list \<times> key_pair heap) res" where
  "KeyList_init fq K =
     (case nd_new \<lparr>key_key = [], key_value = []\<rparr> K of (k, K1) \<Rightarrow>
        bind_res (setNext k 0 K1) (\<lambda>K2. Inr (\<lparr>kl_freq = fq, kl_head = k, kl_last = k\<rparr>, K2)))"

text \<open>\<open>destory()\<close>: deletes the nodes from \<open>p\<close> on. Every turn deletes a node, so the loop ends.\<close>

definition live_nodes :: "'t heap \<Rightarrow> nat" where
  "live_nodes h = length (filter (\<lambda>x. x \<noteq> None) h)"

lemma live_nodes_middle: "live_nodes (xs @ Some n # ys) = Suc (live_nodes (xs @ ys))"
  by (simp add: live_nodes_def)

lemma live_nodes_delete: "mem h a = Some n \<Longrightarrow> live_nodes (h[a := None]) < live_nodes h"
proof -
  assume "mem h a = Some n"
  then have a: "a < length h" "h ! a = Some n" by (auto simp: mem_def split: if_splits)
  then have "h = take a h @ Some n # drop (Suc a) h" by (metis id_take_nth_drop)
  then have "live_nodes h = Suc (live_nodes (take a h @ drop (Suc a) h))" 
    using live_nodes_middle [of "take a h" n] by metis
  moreover have "live_nodes (h[a := None]) = live_nodes (take a h @ drop (Suc a) h)"
    using a(1) by (simp add: live_nodes_def upd_conv_take_nth_drop)
  ultimately show ?thesis by simp
qed

lemma bind_res_cong [fundef_cong]:
  "m = m' \<Longrightarrow> (\<And>x. m' = Inr x \<Longrightarrow> k x = k' x) \<Longrightarrow> bind_res m k = bind_res m' k'"
  by (cases m') auto

function KeyList_destory :: "nat \<Rightarrow> key_pair heap \<Rightarrow> key_pair heap res" where
  "KeyList_destory p K = (if p = 0 then Inr K else bind_res (nd_at K p) (\<lambda>n. KeyList_destory (nd_next n) (K[p := None])))"
  by pat_completeness auto
termination
  by (relation "measure (\<lambda>(p, K). live_nodes K)") (auto simp: nd_at_Some intro: live_nodes_delete)

declare KeyList_destory.simps [simp del]

definition KeyList_add :: "nat \<Rightarrow> key_list \<times> key_pair heap \<Rightarrow> (key_list \<times> key_pair heap) res" where
  "KeyList_add n = (\<lambda>(kl, K).
     bind_res (nd_at K (kl_head kl)) (\<lambda>h.
     bind_res (if nd_next h \<noteq> 0 then bind_res (setPre (nd_next h) n K) (\<lambda>K1. Inr (kl, K1))
               else Inr (kl\<lparr>kl_last := n\<rparr>, K)) (\<lambda>(kl1, K1).
     bind_res (nd_at K1 (kl_head kl1)) (\<lambda>h1.
     bind_res (setNext n (nd_next h1) K1) (\<lambda>K2.
     bind_res (setPre n (kl_head kl1) K2) (\<lambda>K3.
     bind_res (setNext (kl_head kl1) n K3) (\<lambda>K4. Inr (kl1, K4))))))))"

definition KeyList_del :: "nat \<Rightarrow> key_list \<times> key_pair heap \<Rightarrow> (key_list \<times> key_pair heap) res" where
  "KeyList_del n = (\<lambda>(kl, K).
     bind_res (nd_at K n) (\<lambda>nd.
     bind_res (setNext (nd_pre nd) (nd_next nd) K) (\<lambda>K1.
     bind_res (nd_at K1 n) (\<lambda>nd1.
       if nd_next nd1 \<noteq> 0 then bind_res (setPre (nd_next nd1) (nd_pre nd1) K1) (\<lambda>K2. Inr (kl, K2))
       else Inr (kl\<lparr>kl_last := nd_pre nd1\<rparr>, K1)))))"

definition KeyList_isEmpty :: "key_list \<Rightarrow> bool" where
  "KeyList_isEmpty kl \<longleftrightarrow> kl_head kl = kl_last kl"

section \<open>The cache\<close>

record lfu =
  lf_keys :: "key_pair heap"
  lf_freqs :: "key_list heap"
  lf_head :: nat
  lf_capacity :: nat
  lf_kmap :: "(string \<times> nat) list"
  lf_fmap :: "(string \<times> nat) list"

definition new_freq :: "int \<Rightarrow> lfu \<Rightarrow> (nat \<times> lfu) res" where
  "new_freq fq s =
     (case nd_new \<lparr>kl_freq = 0, kl_head = 0, kl_last = 0\<rparr> (lf_freqs s) of (f, F1) \<Rightarrow>
        bind_res (KeyList_init fq (lf_keys s)) (\<lambda>(kl, K1).
        bind_res (setValue f kl F1) (\<lambda>F2. Inr (f, s\<lparr>lf_keys := K1, lf_freqs := F2\<rparr>))))"

text \<open>\<open>init()\<close> with the capacity as an argument; both heaps start with the slot of NULL. The code's capacity is 100.\<close>

definition init_with :: "nat \<Rightarrow> lfu res" where
  "init_with capacity =
     bind_res (new_freq 0 \<lparr>lf_keys = [None], lf_freqs = [None], lf_head = 0, lf_capacity = capacity, lf_kmap = [], lf_fmap = []\<rparr>)
       (\<lambda>(f, s). bind_res (setNext f 0 (lf_freqs s)) (\<lambda>F. Inr (s\<lparr>lf_freqs := F, lf_head := f\<rparr>)))"

definition LFUCache_init :: "lfu res" where
  "LFUCache_init = init_with 100"

text \<open>An operation on the key list inside a frequency node.\<close>

definition on_list :: "nat \<Rightarrow> (key_list \<times> key_pair heap \<Rightarrow> (key_list \<times> key_pair heap) res) \<Rightarrow> lfu \<Rightarrow> lfu res" where
  "on_list f op s =
     bind_res (nd_at (lf_freqs s) f) (\<lambda>nd.
     bind_res (op (nd_value nd, lf_keys s)) (\<lambda>(kl, K).
     bind_res (setValue f kl (lf_freqs s)) (\<lambda>F. Inr (s\<lparr>lf_keys := K, lf_freqs := F\<rparr>))))"

definition LFUCache_del :: "nat \<Rightarrow> lfu \<Rightarrow> lfu res" where
  "LFUCache_del f s =
     bind_res (nd_at (lf_freqs s) f) (\<lambda>nd.
     bind_res (setNext (nd_pre nd) (nd_next nd) (lf_freqs s)) (\<lambda>F1.
     bind_res (nd_at F1 f) (\<lambda>nd1.
     bind_res (if nd_next nd1 \<noteq> 0 then setPre (nd_next nd1) (nd_pre nd1) F1 else Inr F1) (\<lambda>F2.
     bind_res (KeyList_destory (kl_head (nd_value nd1)) (lf_keys s)) (\<lambda>K.
     bind_res (nd_delete f F2) (\<lambda>F3. Inr (s\<lparr>lf_keys := K, lf_freqs := F3\<rparr>)))))))"

text \<open>The first half of \<open>addfreq\<close>: the node of the next frequency, created when it is not there.\<close>

definition next_freq :: "nat \<Rightarrow> lfu \<Rightarrow> (nat \<times> lfu) res" where
  "next_freq nowf s =
     bind_res (nd_at (lf_freqs s) nowf) (\<lambda>nf.
     bind_res (if nd_next nf = 0 then Inr True
               else bind_res (nd_at (lf_freqs s) (nd_next nf)) (\<lambda>nn. Inr (kl_freq (nd_value nn) \<noteq> kl_freq (nd_value nf) + 1)))
       (\<lambda>missing.
          if missing
          then bind_res (new_freq (kl_freq (nd_value nf) + 1) s) (\<lambda>(nxt, s1).
               bind_res (nd_at (lf_freqs s1) nowf) (\<lambda>nf1.
               bind_res (if nd_next nf1 \<noteq> 0 then setPre (nd_next nf1) nxt (lf_freqs s1) else Inr (lf_freqs s1)) (\<lambda>F1.
               bind_res (setNext nxt (nd_next nf1) F1) (\<lambda>F2.
               bind_res (setNext nowf nxt F2) (\<lambda>F3.
               bind_res (setPre nxt nowf F3) (\<lambda>F4. Inr (nxt, s1\<lparr>lf_freqs := F4\<rparr>)))))))
          else Inr (nd_next nf, s)))"

definition addfreq :: "nat \<Rightarrow> nat \<Rightarrow> lfu \<Rightarrow> lfu res" where
  "addfreq nowk nowf s =
     bind_res (next_freq nowf s) (\<lambda>(nxt, s1).
     bind_res (nd_at (lf_keys s1) nowk) (\<lambda>kn.
     bind_res (let s2 = s1\<lparr>lf_fmap := AList.update (key_key (nd_value kn)) nxt (lf_fmap s1)\<rparr>
               in if nowf \<noteq> lf_head s2 then on_list nowf (KeyList_del nowk) s2 else Inr s2) (\<lambda>s3.
     bind_res (on_list nxt (KeyList_add nowk) s3) (\<lambda>s4.
       if nowf \<noteq> lf_head s4
       then bind_res (nd_at (lf_freqs s4) nowf) (\<lambda>nf. if KeyList_isEmpty (nd_value nf) then LFUCache_del nowf s4 else Inr s4)
       else Inr s4))))"

text \<open>\<open>get\<close> appends the value to the string it is given. \<open>kmap[key]\<close> on a missing key would be NULL.\<close>

definition LFUCache_get :: "string \<Rightarrow> string \<Rightarrow> lfu \<Rightarrow> (bool \<times> string \<times> lfu) res" where
  "LFUCache_get key v s =
     (if lf_capacity s = 0 then Inr (False, v, s)
      else case map_of (lf_fmap s) key of
          None \<Rightarrow> Inr (False, v, s)
        | Some nowf \<Rightarrow>
            bind_res (case map_of (lf_kmap s) key of Some nowk \<Rightarrow> Inr nowk | None \<Rightarrow> Inl NullDeref) (\<lambda>nowk.
            bind_res (nd_at (lf_keys s) nowk) (\<lambda>kn.
            bind_res (addfreq nowk nowf s) (\<lambda>s1. Inr (True, v @ key_value (nd_value kn), s1)))))"

definition evict :: "lfu \<Rightarrow> lfu res" where
  "evict s =
     bind_res (nd_at (lf_freqs s) (lf_head s)) (\<lambda>h.
     bind_res (nd_at (lf_freqs s) (nd_next h)) (\<lambda>hn.
       let lastk = kl_last (nd_value hn)
       in bind_res (on_list (nd_next h) (KeyList_del lastk) s) (\<lambda>s1.
          bind_res (nd_at (lf_keys s1) lastk) (\<lambda>kn.
            let k = key_key (nd_value kn);
                s2 = s1\<lparr>lf_kmap := AList.delete k (lf_kmap s1), lf_fmap := AList.delete k (lf_fmap s1)\<rparr>
            in bind_res (nd_delete lastk (lf_keys s2)) (\<lambda>K.
               bind_res (nd_at (lf_freqs s2) (nd_next h)) (\<lambda>hn1.
                 let s3 = s2\<lparr>lf_keys := K\<rparr>
                 in if KeyList_isEmpty (nd_value hn1) then LFUCache_del (nd_next h) s3 else Inr s3))))))"

definition LFUCache_set :: "string \<Rightarrow> string \<Rightarrow> lfu \<Rightarrow> lfu res" where
  "LFUCache_set key v s =
     (if lf_capacity s = 0 then Inr s
      else bind_res (if length (lf_kmap s) = lf_capacity s then evict s else Inr s) (\<lambda>s1.
        case nd_new \<lparr>key_key = key, key_value = v\<rparr> (lf_keys s1) of (nowk, K) \<Rightarrow>
        bind_res (addfreq nowk (lf_head s1) (s1\<lparr>lf_keys := K\<rparr>)) (\<lambda>s2.
          Inr (s2\<lparr>lf_kmap := AList.update key nowk (lf_kmap s2)\<rparr>))))"

text \<open>The destructor, from the frequency node \<open>h\<close> on.\<close>

function LFUCache_dtor :: "nat \<Rightarrow> lfu \<Rightarrow> lfu res" where
  "LFUCache_dtor h s =
     (if h = 0 then Inr s
      else bind_res (nd_at (lf_freqs s) h) (\<lambda>n.
        bind_res (KeyList_destory (kl_head (nd_value n)) (lf_keys s)) (\<lambda>K.
          LFUCache_dtor (nd_next n) (s\<lparr>lf_keys := K, lf_freqs := (lf_freqs s)[h := None]\<rparr>))))"
  by pat_completeness auto
termination
  by (relation "measure (\<lambda>(h, s). live_nodes (lf_freqs s))") (auto simp: nd_at_Some intro: live_nodes_delete)

declare LFUCache_dtor.simps [simp del]

section \<open>Key lists on the heap\<close>

definition klist :: "key_pair heap \<Rightarrow> key_list \<Rightarrow> nat list \<Rightarrow> bool" where
  "klist K kl ns \<longleftrightarrow> dll (nx K) (pv K) (kl_head kl) ns \<and> kl_last kl = last (kl_head kl # ns) \<and> distinct (kl_head kl # ns)"

lemma klist_frame:
  "klist K kl ns \<Longrightarrow> (\<And>a. a \<in> set (kl_head kl # ns) \<Longrightarrow> nx K' a = nx K a \<and> pv K' a = pv K a) \<Longrightarrow> klist K' kl ns"
  unfolding klist_def by (metis dll_frame list.set_intros(2))

lemma klist_mem:
  assumes "klist K kl ns" and "a \<in> set (kl_head kl # ns)"
  shows "\<exists>n. mem K a = Some n"
proof (cases "a = kl_head kl")
  case True
  with assms(1) dll_next [of "nx K" "pv K" "kl_head kl" "[]" ns] show ?thesis by (auto simp: klist_def intro: mem_of)
next
  case False
  with assms obtain x where "pv K a = Some x" by (auto simp: klist_def dll_def dest: linked_dom)
  then show ?thesis by (rule mem_of)
qed

lemma klist_isEmpty: "klist K kl ns \<Longrightarrow> KeyList_isEmpty kl \<longleftrightarrow> ns = []"
  by (auto simp: klist_def KeyList_isEmpty_def)

lemma KeyList_init_ok:
  assumes "K \<noteq> []"
  shows "\<exists>kl K1. KeyList_init fq K = Inr (kl, K1) \<and> klist K1 kl [] \<and> kl_freq kl = fq \<and> kl_head kl = length K \<and>
    nx K1 = (nx K)(length K \<mapsto> 0) \<and> pv K1 = (pv K)(length K \<mapsto> 0) \<and>
    vl K1 = (vl K)(length K \<mapsto> \<lparr>key_key = [], key_value = []\<rparr>) \<and> length K1 = Suc (length K)"
proof -
  obtain K0 where k: "nd_new \<lparr>key_key = [], key_value = []\<rparr> K = (length K, K0)" "nx K0 = (nx K)(length K \<mapsto> 0)"
      "pv K0 = (pv K)(length K \<mapsto> 0)" "vl K0 = (vl K)(length K \<mapsto> \<lparr>key_key = [], key_value = []\<rparr>)" "length K0 = Suc (length K)"
    using nd_new_ok [OF assms] by blast
  then obtain n where "mem K0 (length K) = Some n" using mem_of(1) [of K0 "length K" 0] by auto
  from setNext_ok [OF this, of 0] obtain K1 where "setNext (length K) 0 K0 = Inr K1" "nx K1 = nx K0" "pv K1 = pv K0"
      "vl K1 = vl K0" "length K1 = length K0"
    using k(2) by (auto simp: fun_upd_idem)
  with k show ?thesis by (simp add: KeyList_init_def klist_def dll_def)
qed

text \<open>What an operation on key lists leaves alone: the values, and the links of the nodes outside.\<close>

definition keeps :: "'t heap \<Rightarrow> nat set \<Rightarrow> 't heap \<Rightarrow> bool" where
  "keeps K A K1 \<longleftrightarrow> vl K1 = vl K \<and> length K1 = length K \<and> (\<forall>a. a \<notin> A \<longrightarrow> nx K1 a = nx K a \<and> pv K1 a = pv K a)"

lemma KeyList_add_ok:
  assumes k: "klist K kl ns" and n: "mem K n = Some nd" and out: "n \<notin> set (kl_head kl # ns)"
  shows "\<exists>kl1 K1. KeyList_add n (kl, K) = Inr (kl1, K1) \<and> klist K1 kl1 (n # ns) \<and> kl_freq kl1 = kl_freq kl \<and>
    kl_head kl1 = kl_head kl \<and> keeps K (set (kl_head kl # n # ns)) K1"
proof -
  let ?h = "kl_head kl" and ?x = "case ns of [] \<Rightarrow> 0 | y # _ \<Rightarrow> y"
  have n0: "n \<noteq> 0" using n by (auto dest: mem_SomeD)
  obtain hd where h: "mem K ?h = Some hd" using klist_mem [OF k, of ?h] by auto
  have hx: "nx K ?h = Some ?x" using k dll_next [of "nx K" "pv K" ?h "[]" ns] by (simp add: klist_def)
  with h have hx': "nd_next hd = ?x" by (simp add: nx_def)
  have y0: "ns = y # ys \<Longrightarrow> y \<noteq> 0" for y ys using k by (auto simp: klist_def dll_def)
  define kl1 where "kl1 = (if ns = [] then kl\<lparr>kl_last := n\<rparr> else kl)"
  have hk1: "kl_head kl1 = ?h" "kl_freq kl1 = kl_freq kl" by (simp_all add: kl1_def)
  obtain K1 where K1: "(if nd_next hd \<noteq> 0 then bind_res (setPre (nd_next hd) n K) (\<lambda>K1. Inr (kl, K1)) else Inr (kl\<lparr>kl_last := n\<rparr>, K)) = Inr (kl1, K1)"
      "nx K1 = nx K" "pv K1 = (case ns of [] \<Rightarrow> pv K | y # _ \<Rightarrow> (pv K)(y \<mapsto> n))" "vl K1 = vl K" "length K1 = length K"
  proof (cases ns)
    case Nil
    then show ?thesis using that [of K] hx' by (simp add: kl1_def)
  next
    case (Cons y ys)
    obtain yd where "mem K y = Some yd" using klist_mem [OF k, of y] Cons by auto
    from setPre_ok [OF this, of n] show ?thesis using that hx' y0 [OF Cons] Cons by (auto simp: kl1_def)
  qed
  obtain h1 where h1: "mem K1 ?h = Some h1" "nd_next h1 = ?x" using hx K1(2) by (metis nx_SomeD)
  obtain n1 where "mem K1 n = Some n1" using n K1(4) by (metis mem_of(3) vl_def option.simps(9))
  from setNext_ok [OF this, of ?x] obtain K2 where K2: "setNext n ?x K1 = Inr K2" "nx K2 = (nx K1)(n \<mapsto> ?x)" "pv K2 = pv K1"
      "vl K2 = vl K1" "length K2 = length K1" by blast
  obtain n2 where "mem K2 n = Some n2" using mem_of(1) [of K2 n] K2(2) by auto
  from setPre_ok [OF this, of ?h] obtain K3 where K3: "setPre n ?h K2 = Inr K3" "nx K3 = nx K2" "pv K3 = (pv K2)(n \<mapsto> ?h)"
      "vl K3 = vl K2" "length K3 = length K2" by blast
  obtain h3 where "mem K3 ?h = Some h3" using mem_of(1) [of K3 ?h ?x] hx K1(2) K2(2) K3(2) out by auto
  from setNext_ok [OF this, of n] obtain K4 where K4: "setNext ?h n K3 = Inr K4" "nx K4 = (nx K3)(?h \<mapsto> n)" "pv K4 = pv K3"
      "vl K4 = vl K3" "length K4 = length K3" by blast
  have run: "KeyList_add n (kl, K) = Inr (kl1, K4)"
    using h K1(1) h1 K2(1) K3(1) K4(1) hk1(1) by (simp add: KeyList_add_def split del: if_split)
  have nxK4: "nx K4 = (nx K)(n := nx K ?h, ?h := Some n)" using K1(2) K2(2) K3(2) K4(2) hx by simp
  have pvK4: "pv K4 = (case ns of [] \<Rightarrow> pv K | y # _ \<Rightarrow> (pv K)(y \<mapsto> n))(n \<mapsto> ?h)" using K1(3) K2(3) K3(3) K4(3) by simp
  have "dll (nx K4) (pv K4) ?h (n # ns)"
    using dll_insert [of "nx K" "pv K" ?h "[]" ns n, OF _ _ _ n0 refl refl] k out unfolding nxK4 pvK4 by (simp add: klist_def)
  then have "klist K4 kl1 (n # ns)" using k out hk1 by (auto simp: klist_def kl1_def)
  moreover have "keeps K (set (?h # n # ns)) K4"
    using K1(4,5) K2(4,5) K3(4,5) K4(4,5) unfolding keeps_def nxK4 pvK4 by (auto split: list.splits)
  ultimately show ?thesis using run hk1 by blast
qed

lemma KeyList_del_ok:
  assumes k: "klist K kl (xs @ n # ys)"
  shows "\<exists>kl1 K1. KeyList_del n (kl, K) = Inr (kl1, K1) \<and> klist K1 kl1 (xs @ ys) \<and> kl_freq kl1 = kl_freq kl \<and>
    kl_head kl1 = kl_head kl \<and> keeps K (set (kl_head kl # xs @ ys)) K1"
proof -
  let ?h = "kl_head kl" and ?x = "case ys of [] \<Rightarrow> 0 | y # _ \<Rightarrow> y"
  let ?q = "last (?h # xs)"
  have d: "dll (nx K) (pv K) ?h (xs @ n # ys)" "distinct (?h # xs @ n # ys)" using k by (simp_all add: klist_def)
  have q: "?q \<in> set (?h # xs)" by (rule last_in_set) simp
  have qn: "?q \<noteq> n" using q d(2) by auto
  have nxn: "nx K n = Some ?x" and pvn: "pv K n = Some ?q" using dll_next_of [OF d(1)] dll_pre_of [OF d(1)] by auto
  have y0: "ys = y # zs \<Longrightarrow> y \<noteq> 0" for y zs using d(1) by (auto simp: dll_def linked_append)
  obtain nd where nd: "mem K n = Some nd" "nd_next nd = ?x" "nd_pre nd = ?q" using nxn pvn by (auto simp: link_defs)
  obtain qd where "mem K ?q = Some qd" using klist_mem [OF k, of ?q] q by auto
  from setNext_ok [OF this, of ?x] obtain K1 where K1: "setNext ?q ?x K = Inr K1" "nx K1 = (nx K)(?q \<mapsto> ?x)" "pv K1 = pv K"
      "vl K1 = vl K" "length K1 = length K" by blast
  have "nx K1 n = Some ?x" "pv K1 n = Some ?q" using K1 nxn pvn qn by simp_all
  then obtain nd1 where nd1: "mem K1 n = Some nd1" "nd_next nd1 = ?x" "nd_pre nd1 = ?q" by (auto simp: link_defs)
  define kl1 where "kl1 = (if ys = [] then kl\<lparr>kl_last := ?q\<rparr> else kl)"
  have hk1: "kl_head kl1 = ?h" "kl_freq kl1 = kl_freq kl" by (simp_all add: kl1_def)
  obtain K2 where K2: "(if nd_next nd1 \<noteq> 0 then bind_res (setPre (nd_next nd1) (nd_pre nd1) K1) (\<lambda>K2. Inr (kl, K2))
        else Inr (kl\<lparr>kl_last := nd_pre nd1\<rparr>, K1)) = Inr (kl1, K2)"
      "nx K2 = nx K1" "pv K2 = (case ys of [] \<Rightarrow> pv K | y # _ \<Rightarrow> (pv K)(y \<mapsto> ?q))" "vl K2 = vl K" "length K2 = length K"
  proof (cases ys)
    case Nil
    then show ?thesis using that [of K1] K1 nd1 by (simp add: kl1_def)
  next
    case (Cons y zs)
    have "\<exists>yd. mem K y = Some yd" using klist_mem [OF k, of y] Cons by auto
    then obtain yd where "mem K1 y = Some yd" using K1(4) by (metis mem_of(3) vl_def option.simps(9))
    from setPre_ok [OF this, of ?q] show ?thesis using that y0 [OF Cons] Cons K1 nd1 by (auto simp: kl1_def)
  qed
  have run: "KeyList_del n (kl, K) = Inr (kl1, K2)"
    unfolding KeyList_del_def using nd K1(1) nd1(1) K2(1) by (simp split del: if_split)
  have "dll (nx K2) (pv K2) ?h (xs @ ys)"
    by (rule dll_delete [OF d]) (use K1(2) K2(2,3) nxn in \<open>simp_all\<close>)
  moreover have "kl_last kl1 = last (?h # xs @ ys)" using k by (cases ys) (auto simp: klist_def kl1_def)
  ultimately have "klist K2 kl1 (xs @ ys)" using d(2) hk1 by (simp add: klist_def)
  moreover have "keeps K (set (?h # xs @ ys)) K2"
    using K1 K2 q unfolding keeps_def by (auto split: list.splits)
  ultimately show ?thesis using run hk1 by blast
qed

lemma KeyList_destory_sentinel:
  assumes "klist K kl []"
  shows "\<exists>K1. KeyList_destory (kl_head kl) K = Inr K1 \<and> nx K1 = (nx K)(kl_head kl := None) \<and> pv K1 = (pv K)(kl_head kl := None) \<and>
    vl K1 = (vl K)(kl_head kl := None) \<and> length K1 = length K"
proof -
  have x: "nx K (kl_head kl) = Some 0" using assms by (simp add: klist_def dll_def)
  then obtain n where n: "mem K (kl_head kl) = Some n" "nd_next n = 0" by (metis nx_SomeD)
  have "KeyList_destory (kl_head kl) K = Inr (K[kl_head kl := None])"
    using n mem_SomeD [OF n(1)] by (subst KeyList_destory.simps) (simp add: KeyList_destory.simps [of 0])
  then show ?thesis using n(1) by (auto simp: link_defs mem_update fun_eq_iff)
qed

section \<open>The lists of the cache on the heap\<close>

text \<open>\<open>L\<close> lists the frequency nodes, the head included, each with its key nodes.\<close>

definition sent :: "key_list heap \<Rightarrow> nat \<Rightarrow> nat" where "sent F f = kl_head (the (vl F f))"
definition frq :: "key_list heap \<Rightarrow> nat \<Rightarrow> int" where "frq F f = kl_freq (the (vl F f))"

definition nodes :: "key_list heap \<Rightarrow> (nat \<times> nat list) list \<Rightarrow> nat list" where
  "nodes F L = concat (map (\<lambda>(f, ns). sent F f # ns) L)"

definition lists_ok :: "key_pair heap \<Rightarrow> key_list heap \<Rightarrow> (nat \<times> nat list) list \<Rightarrow> bool" where
  "lists_ok K F L \<longleftrightarrow> K \<noteq> [] \<and> F \<noteq> [] \<and> dlls (nx F) (pv F) (map fst L) \<and> distinct (map fst L) \<and>
     (\<forall>(f, ns) \<in> set L. \<exists>kl. vl F f = Some kl \<and> klist K kl ns) \<and> distinct (nodes F L) \<and>
     sorted_wrt (<) (map (\<lambda>(f, ns). frq F f) L)"

lemma nodes_simps [simp]:
  "nodes F [] = []"
  "nodes F ((f, ns) # L) = sent F f # ns @ nodes F L"
  "nodes F (A @ B) = nodes F A @ nodes F B"
  by (simp_all add: nodes_def)

lemma nodes_iff: "a \<in> set (nodes F L) \<longleftrightarrow> (\<exists>f ns. (f, ns) \<in> set L \<and> a \<in> set (sent F f # ns))"
  by (force simp: nodes_def)

lemma lists_ok_at:
  assumes "lists_ok K F L" and "(f, ns) \<in> set L"
  shows "\<exists>kl. vl F f = Some kl \<and> klist K kl ns \<and> kl_head kl = sent F f \<and> kl_freq kl = frq F f"
  using assms by (fastforce simp: lists_ok_def sent_def frq_def)

lemma lists_ok_mem:
  assumes "lists_ok K F L" and "a \<in> set (nodes F L)"
  shows "\<exists>n. mem K a = Some n"
proof -
  obtain f ns where f: "(f, ns) \<in> set L" "a \<in> set (sent F f # ns)" using assms(2) by (auto simp: nodes_iff)
  obtain kl where "klist K kl ns" "kl_head kl = sent F f" using lists_ok_at [OF assms(1) f(1)] by blast
  with klist_mem [of K kl ns a] f(2) show ?thesis by simp
qed

lemma nodes_cong: "(\<And>f. f \<in> fst ` set L \<Longrightarrow> sent F' f = sent F f) \<Longrightarrow> nodes F' L = nodes F L"
  by (induction L) auto

text \<open>Changing the key list of one frequency node; the links touched are those of its nodes and of \<open>n\<close>.\<close>

lemma lists_ok_replace:
  assumes ok: "lists_ok K F (A @ (f, ns) # B)" and kl: "vl F f = Some kl" "klist K kl ns"
    and kl1: "klist K1 kl1 ns1" "kl_head kl1 = kl_head kl" "kl_freq kl1 = kl_freq kl"
    and keeps: "keeps K (set (kl_head kl # n # ns)) K1"
    and F1: "nx F1 = nx F" "pv F1 = pv F" "vl F1 = (vl F)(f \<mapsto> kl1)" "length F1 = length F"
    and ns1: "set ns1 \<subseteq> insert n (set ns)" and n: "n \<notin> set (nodes F (A @ B))" "n \<noteq> kl_head kl"
  shows "lists_ok K1 F1 (A @ (f, ns1) # B)" and "sent F1 = sent F" and "frq F1 = frq F"
proof -
  show s: "sent F1 = sent F" and q: "frq F1 = frq F" using F1(3) kl(1) kl1(2,3) by (auto simp: sent_def frq_def fun_eq_iff)
  have sf: "sent F f = kl_head kl" using kl(1) by (simp add: sent_def)
  have nd: "nodes F1 L = nodes F L" for L using s by (intro nodes_cong) simp
  have dist: "distinct (nodes F (A @ (f, ns) # B))" "f \<notin> fst ` set (A @ B)" using ok by (auto simp: lists_ok_def)
  have out: "a \<notin> set (kl_head kl # n # ns)" if "a \<in> set (nodes F (A @ B))" for a
    using that dist(1) n(1) sf by auto
  have "distinct (nodes F1 (A @ (f, ns1) # B))"
    using dist(1) n kl1(1,2) ns1 sf unfolding nd by (auto simp: klist_def)
  moreover have "\<exists>kl'. vl F1 g = Some kl' \<and> klist K1 kl' ms" if g: "(g, ms) \<in> set (A @ (f, ns1) # B)" for g ms
  proof (cases "(g, ms) \<in> set (A @ B)")
    case True
    then have "g \<noteq> f" using dist(2) by force
    moreover obtain kl' where kl': "vl F g = Some kl'" "klist K kl' ms" "kl_head kl' = sent F g"
      using lists_ok_at [OF ok, of g ms] True by auto
    moreover have "klist K1 kl' ms"
    proof (rule klist_frame [OF kl'(2)])
      fix a assume "a \<in> set (kl_head kl' # ms)"
      then have "a \<in> set (nodes F (A @ B))" unfolding nodes_iff using True kl'(3) by auto
      from out [OF this] keeps show "nx K1 a = nx K a \<and> pv K1 a = pv K a" by (simp add: keeps_def)
    qed
    ultimately show ?thesis using F1(3) by simp
  next
    case False
    with g have "g = f" "ms = ns1" by auto
    then show ?thesis using kl1(1) F1(3) by simp
  qed
  moreover have "K1 \<noteq> []" "F1 \<noteq> []" using ok keeps F1(4) by (auto simp: lists_ok_def keeps_def)
  ultimately show "lists_ok K1 F1 (A @ (f, ns1) # B)"
    using ok F1(1,2) q unfolding lists_ok_def by auto
qed

text \<open>Taking a key node out of its list, and putting one in front.\<close>

lemma on_list_del:
  assumes ok: "lists_ok (lf_keys s) (lf_freqs s) (A @ (f, xs @ n # ys) # B)"
  shows "\<exists>K F. on_list f (KeyList_del n) s = Inr (s\<lparr>lf_keys := K, lf_freqs := F\<rparr>) \<and> lists_ok K F (A @ (f, xs @ ys) # B) \<and>
    vl K = vl (lf_keys s) \<and> sent F = sent (lf_freqs s) \<and> frq F = frq (lf_freqs s)"
proof -
  let ?K = "lf_keys s" and ?F = "lf_freqs s"
  obtain kl where kl: "vl ?F f = Some kl" "klist ?K kl (xs @ n # ys)" "kl_head kl = sent ?F f"
    using lists_ok_at [OF ok, of f "xs @ n # ys"] by auto
  obtain kl1 K where k1: "KeyList_del n (kl, ?K) = Inr (kl1, K)" "klist K kl1 (xs @ ys)" "kl_freq kl1 = kl_freq kl"
      "kl_head kl1 = kl_head kl" "keeps ?K (set (kl_head kl # xs @ ys)) K"
    using KeyList_del_ok [OF kl(2)] by blast
  obtain nd where nd: "mem ?F f = Some nd" "nd_value nd = kl" using kl(1) by (auto simp: vl_def)
  from setValue_ok [OF nd(1), of kl1] obtain F where F: "setValue f kl1 ?F = Inr F" "nx F = nx ?F" "pv F = pv ?F"
      "vl F = (vl ?F)(f \<mapsto> kl1)" "length F = length ?F" by blast
  have run: "on_list f (KeyList_del n) s = Inr (s\<lparr>lf_keys := K, lf_freqs := F\<rparr>)"
    using nd k1(1) F(1) by (simp add: on_list_def)
  have keeps: "keeps ?K (set (kl_head kl # n # xs @ n # ys)) K" using k1(5) by (auto simp: keeps_def)
  have n: "n \<notin> set (nodes ?F (A @ B))" "n \<noteq> kl_head kl" using ok kl(3) by (auto simp: lists_ok_def)
  note r = lists_ok_replace [OF ok kl(1,2) k1(2,4,3) keeps F(2-5) _ n]
  show ?thesis using run r k1(5) by (auto simp: keeps_def)
qed

lemma on_list_add:
  assumes ok: "lists_ok (lf_keys s) (lf_freqs s) (A @ (f, ns) # B)" and n: "mem (lf_keys s) n = Some nd"
    "n \<notin> set (nodes (lf_freqs s) (A @ (f, ns) # B))"
  shows "\<exists>K F. on_list f (KeyList_add n) s = Inr (s\<lparr>lf_keys := K, lf_freqs := F\<rparr>) \<and> lists_ok K F (A @ (f, n # ns) # B) \<and>
    vl K = vl (lf_keys s) \<and> sent F = sent (lf_freqs s) \<and> frq F = frq (lf_freqs s)"
proof -
  let ?K = "lf_keys s" and ?F = "lf_freqs s"
  obtain kl where kl: "vl ?F f = Some kl" "klist ?K kl ns" "kl_head kl = sent ?F f"
    using lists_ok_at [OF ok, of f ns] by auto
  have out: "n \<notin> set (kl_head kl # ns)" using n(2) kl(3) by auto
  obtain kl1 K where k1: "KeyList_add n (kl, ?K) = Inr (kl1, K)" "klist K kl1 (n # ns)" "kl_freq kl1 = kl_freq kl"
      "kl_head kl1 = kl_head kl" "keeps ?K (set (kl_head kl # n # ns)) K"
    using KeyList_add_ok [OF kl(2) n(1) out] by blast
  obtain fd where fd: "mem ?F f = Some fd" "nd_value fd = kl" using kl(1) by (auto simp: vl_def)
  from setValue_ok [OF fd(1), of kl1] obtain F where F: "setValue f kl1 ?F = Inr F" "nx F = nx ?F" "pv F = pv ?F"
      "vl F = (vl ?F)(f \<mapsto> kl1)" "length F = length ?F" by blast
  have run: "on_list f (KeyList_add n) s = Inr (s\<lparr>lf_keys := K, lf_freqs := F\<rparr>)"
    using fd k1(1) F(1) by (simp add: on_list_def)
  have n': "n \<notin> set (nodes ?F (A @ B))" "n \<noteq> kl_head kl" using n(2) kl(3) by auto
  note r = lists_ok_replace [OF ok kl(1,2) k1(2,4,3,5) F(2-5) _ n']
  show ?thesis using run r k1(5) by (auto simp: keeps_def)
qed

text \<open>A frequency node and a sentinel that do not exist yet.\<close>

lemma new_freq_ok:
  assumes "lf_keys s \<noteq> []" and "lf_freqs s \<noteq> []"
  shows "\<exists>kl K F. new_freq fq s = Inr (length (lf_freqs s), s\<lparr>lf_keys := K, lf_freqs := F\<rparr>) \<and> klist K kl [] \<and> kl_freq kl = fq \<and>
    kl_head kl = length (lf_keys s) \<and> nx K = (nx (lf_keys s))(length (lf_keys s) \<mapsto> 0) \<and>
    pv K = (pv (lf_keys s))(length (lf_keys s) \<mapsto> 0) \<and> vl K = (vl (lf_keys s))(length (lf_keys s) \<mapsto> \<lparr>key_key = [], key_value = []\<rparr>) \<and>
    nx F = (nx (lf_freqs s))(length (lf_freqs s) \<mapsto> 0) \<and> pv F = (pv (lf_freqs s))(length (lf_freqs s) \<mapsto> 0) \<and>
    vl F = (vl (lf_freqs s))(length (lf_freqs s) \<mapsto> kl) \<and> K \<noteq> [] \<and> F \<noteq> []"
proof -
  let ?f = "length (lf_freqs s)" and ?z = "\<lparr>kl_freq = 0, kl_head = 0, kl_last = 0\<rparr> :: key_list"
  obtain F1 where F1: "nd_new ?z (lf_freqs s) = (?f, F1)" "nx F1 = (nx (lf_freqs s))(?f \<mapsto> 0)" "pv F1 = (pv (lf_freqs s))(?f \<mapsto> 0)"
      "vl F1 = (vl (lf_freqs s))(?f \<mapsto> ?z)" "length F1 = Suc ?f"
    using nd_new_ok [OF assms(2), of ?z] by blast
  obtain kl K where K: "KeyList_init fq (lf_keys s) = Inr (kl, K)" "klist K kl []" "kl_freq kl = fq" "kl_head kl = length (lf_keys s)"
      "nx K = (nx (lf_keys s))(length (lf_keys s) \<mapsto> 0)" "pv K = (pv (lf_keys s))(length (lf_keys s) \<mapsto> 0)"
      "vl K = (vl (lf_keys s))(length (lf_keys s) \<mapsto> \<lparr>key_key = [], key_value = []\<rparr>)" "length K = Suc (length (lf_keys s))"
    using KeyList_init_ok [OF assms(1)] by blast
  obtain n where "mem F1 ?f = Some n" using mem_of(1) [of F1 ?f 0] F1(2) by auto
  from setValue_ok [OF this, of kl] obtain F where F: "setValue ?f kl F1 = Inr F" "nx F = nx F1" "pv F = pv F1"
      "vl F = (vl F1)(?f \<mapsto> kl)" "length F = length F1" by blast
  have ne: "K \<noteq> []" "F \<noteq> []" using K(8) F(5) F1(5) by auto
  have "new_freq fq s = Inr (?f, s\<lparr>lf_keys := K, lf_freqs := F\<rparr>)" using F1(1) K(1) F(1) by (simp add: new_freq_def)
  moreover have "vl F = (vl (lf_freqs s))(?f \<mapsto> kl)" using F(4) F1(4) by simp
  ultimately show ?thesis using K F F1 ne by auto
qed

lemma fresh_address: "vl h (length h) = None" "nx h (length h) = None" "pv h (length h) = None"
  by (simp_all add: link_defs mem_length)

lemma lists_ok_vl_node: "lists_ok K F L \<Longrightarrow> a \<in> set (nodes F L) \<Longrightarrow> vl K a \<noteq> None"
  using lists_ok_mem [of K F L a] by (auto simp: vl_def)

lemma lists_ok_vl_freq: "lists_ok K F L \<Longrightarrow> f \<in> fst ` set L \<Longrightarrow> vl F f \<noteq> None"
  by (force dest: lists_ok_at)

lemma sorted_insert_middle:
  fixes b :: "'a::linorder"
  shows "sorted_wrt (<) (xs @ a # ys) \<Longrightarrow> a < b \<Longrightarrow> (\<And>y. y \<in> set ys \<Longrightarrow> b < y) \<Longrightarrow> sorted_wrt (<) (xs @ a # b # ys)"
  by (auto simp: sorted_wrt_append dest: less_trans)

text \<open>Putting a new frequency node with an empty key list behind \<open>f\<close>.\<close>

lemma lists_ok_insert:
  assumes ok: "lists_ok K F (A @ (f, ns) # B)"
    and K1: "nx K1 = (nx K)(length K \<mapsto> 0)" "pv K1 = (pv K)(length K \<mapsto> 0)" "K1 \<noteq> []" "klist K1 kl []" "kl_head kl = length K"
    and F1: "vl F1 = (vl F)(length F \<mapsto> kl)" "nx F1 = (nx F)(length F := nx F f, f := Some (length F))" "F1 \<noteq> []"
      "pv F1 = (case map fst B of [] \<Rightarrow> pv F | b # _ \<Rightarrow> (pv F)(b \<mapsto> length F))(length F \<mapsto> f)"
    and fq: "frq F f < kl_freq kl" "\<And>g. g \<in> fst ` set B \<Longrightarrow> kl_freq kl < frq F g"
  shows "lists_ok K1 F1 (A @ (f, ns) # (length F, []) # B)"
    and "\<And>g. g \<noteq> length F \<Longrightarrow> sent F1 g = sent F g \<and> frq F1 g = frq F g"
proof -
  let ?L = "A @ (f, ns) # B" and ?g = "length F"
  show same: "g \<noteq> ?g \<Longrightarrow> sent F1 g = sent F g \<and> frq F1 g = frq F g" for g using F1(1) by (simp add: sent_def frq_def)
  have g: "sent F1 ?g = length K" "frq F1 ?g = kl_freq kl" using F1(1) K1(5) by (simp_all add: sent_def frq_def)
  have out: "?g \<notin> fst ` set ?L" using lists_ok_vl_freq [OF ok] fresh_address(1) [of F] by metis
  have outK: "length K \<notin> set (nodes F ?L)" using lists_ok_vl_node [OF ok] fresh_address(1) [of K] by metis
  have nd: "nodes F1 M = nodes F M" if "set M \<subseteq> set ?L" for M
    by (rule nodes_cong) (use same out that in \<open>metis image_mono subsetD\<close>)
  have nd_AB: "nodes F1 A = nodes F A" "nodes F1 B = nodes F B" by (rule nd, auto)+
  have "dlls (nx F1) (pv F1) (map fst A @ f # ?g # map fst B)"
    by (rule dlls_insert [of "nx F" "pv F"]) (use ok out F1 in \<open>auto simp: lists_ok_def\<close>)
  moreover have "distinct (nodes F1 (A @ (f, ns) # (?g, []) # B))"
  proof -
    have "nodes F1 (A @ (f, ns) # (?g, []) # B) = nodes F A @ (sent F f # ns) @ length K # nodes F B"
      using nd_AB g(1) same [of f] out by simp
    then show ?thesis using ok outK by (auto simp: lists_ok_def)
  qed
  moreover have "\<exists>kl'. vl F1 h = Some kl' \<and> klist K1 kl' ms" if h: "(h, ms) \<in> set (A @ (f, ns) # (?g, []) # B)" for h ms
  proof (cases "(h, ms) \<in> set ?L")
    case True
    then have "h \<noteq> ?g" using out by force
    moreover obtain kl' where kl': "vl F h = Some kl'" "klist K kl' ms" "kl_head kl' = sent F h"
      using lists_ok_at [OF ok True] by blast
    moreover have "klist K1 kl' ms"
    proof (rule klist_frame [OF kl'(2)])
      fix a assume "a \<in> set (kl_head kl' # ms)"
      then have "a \<in> set (nodes F ?L)" unfolding nodes_iff using True kl'(3) by auto
      then have "a \<noteq> length K" using outK by blast
      then show "nx K1 a = nx K a \<and> pv K1 a = pv K a" using K1(1,2) by simp
    qed
    ultimately show ?thesis using F1(1) by simp
  next
    case False
    with h have "h = ?g" "ms = []" by auto
    then show ?thesis using K1(4) F1(1) by simp
  qed
  moreover have "sorted_wrt (<) (map (\<lambda>(f, ns). frq F1 f) (A @ (f, ns) # (?g, []) # B))"
  proof -
    have same_frq: "map (\<lambda>(f, ns). frq F1 f) M = map (\<lambda>(f, ns). frq F f) M" if "set M \<subseteq> set ?L" for M
    proof (rule map_cong [OF refl])
      fix x assume "x \<in> set M"
      with that have "x \<in> set ?L" by (rule subsetD)
      then have "fst x \<in> fst ` set ?L" by (rule imageI)
      then have "fst x \<noteq> ?g" using out by metis
      then show "(case x of (f, ns) \<Rightarrow> frq F1 f) = (case x of (f, ns) \<Rightarrow> frq F f)" using same by (simp add: case_prod_beta)
    qed
    have AB: "map (\<lambda>(f, ns). frq F1 f) A = map (\<lambda>(f, ns). frq F f) A" "map (\<lambda>(f, ns). frq F1 f) B = map (\<lambda>(f, ns). frq F f) B"
      by (rule same_frq, simp, blast)+
    have "sorted_wrt (<) (map (\<lambda>(f, ns). frq F f) A @ frq F f # kl_freq kl # map (\<lambda>(f, ns). frq F f) B)"
    proof (rule sorted_insert_middle)
      fix y assume "y \<in> set (map (\<lambda>(f, ns). frq F f) B)"
      then obtain h ms where "(h, ms) \<in> set B" "y = frq F h" by auto
      then show "kl_freq kl < y" using fq(2) [of h] by force
    qed (use ok fq(1) in \<open>simp_all add: lists_ok_def\<close>)
    then show ?thesis using g(2) same [of f] out by (simp add: AB)
  qed
  ultimately show "lists_ok K1 F1 (A @ (f, ns) # (?g, []) # B)"
    using ok out K1(3) F1(3) unfolding lists_ok_def by auto
qed

text \<open>How the lists look after \<open>next_freq\<close>: the node of the next frequency, old or new, is right behind \<open>f\<close>.\<close>

definition grown :: "lfu \<Rightarrow> nat \<Rightarrow> (nat \<times> nat list) list \<Rightarrow> nat \<Rightarrow> nat list \<Rightarrow> (nat \<times> nat list) list \<Rightarrow> lfu \<Rightarrow> bool" where
  "grown s f B g ms B1 s1 \<longleftrightarrow>
     lf_head s1 = lf_head s \<and> lf_capacity s1 = lf_capacity s \<and> lf_kmap s1 = lf_kmap s \<and> lf_fmap s1 = lf_fmap s \<and>
     frq (lf_freqs s1) g = frq (lf_freqs s) f + 1 \<and>
     (\<forall>h. vl (lf_freqs s) h \<noteq> None \<longrightarrow> frq (lf_freqs s1) h = frq (lf_freqs s) h \<and> sent (lf_freqs s1) h = sent (lf_freqs s) h) \<and>
     (\<forall>a. vl (lf_keys s) a \<noteq> None \<longrightarrow> vl (lf_keys s1) a = vl (lf_keys s) a) \<and>
     (B = (g, ms) # B1 \<and> s1 = s \<or>
      ms = [] \<and> B1 = B \<and> vl (lf_freqs s) g = None \<and> vl (lf_keys s) (sent (lf_freqs s1) g) = None \<and>
      (\<forall>h ns. (h, ns) \<in> set B \<longrightarrow> frq (lf_freqs s) f + 1 < frq (lf_freqs s) h))"

lemma next_is:
  assumes "lists_ok K F (A @ (f, ns) # B)"
  shows "\<exists>nf. mem F f = Some nf \<and> kl_freq (nd_value nf) = frq F f \<and> nd_next nf = (case map fst B of [] \<Rightarrow> 0 | b # _ \<Rightarrow> b)"
proof -
  have "dlls (nx F) (pv F) (map fst A @ f # map fst B)" using assms by (simp add: lists_ok_def)
  from dlls_next [OF this] obtain nf where "mem F f = Some nf" "nd_next nf = (case map fst B of [] \<Rightarrow> 0 | b # _ \<Rightarrow> b)"
    by (auto dest: nx_SomeD)
  then show ?thesis by (simp add: frq_def vl_def)
qed

lemma next_nonzero: "lists_ok K F (A @ (f, ns) # (g, ms) # B) \<Longrightarrow> g \<noteq> 0"
  using dlls_pre [of "nx F" "pv F" "map fst A @ [f]" g "map fst B"] by (simp add: lists_ok_def)

lemma next_freq_new:
  assumes ok: "lists_ok (lf_keys s) (lf_freqs s) (A @ (f, ns) # B)"
    and gap: "\<And>h ms. (h, ms) \<in> set B \<Longrightarrow> frq (lf_freqs s) f + 1 < frq (lf_freqs s) h"
  shows "\<exists>s1. next_freq f s = Inr (length (lf_freqs s), s1) \<and>
    lists_ok (lf_keys s1) (lf_freqs s1) (A @ (f, ns) # (length (lf_freqs s), []) # B) \<and> grown s f B (length (lf_freqs s)) [] B s1"
proof -
  let ?K = "lf_keys s" and ?F = "lf_freqs s" and ?x = "case map fst B of [] \<Rightarrow> 0 | b # _ \<Rightarrow> b"
  let ?g = "length ?F"
  have ne: "?K \<noteq> []" "?F \<noteq> []" using ok by (simp_all add: lists_ok_def)
  obtain nf where nf: "mem ?F f = Some nf" "kl_freq (nd_value nf) = frq ?F f" "nd_next nf = ?x" using next_is [OF ok] by blast
  have fg: "f \<noteq> ?g" using nf(1) by (auto dest: mem_SomeD)
  have x0: "?x \<noteq> 0 \<Longrightarrow> \<exists>b B'. B = b # B' \<and> fst b = ?x" by (cases B) auto
  have g0: "(h, ms) \<in> set B \<Longrightarrow> h \<noteq> ?g" for h ms
    using lists_ok_vl_freq [OF ok, of h] fresh_address(1) [of ?F] by force
  have missing: "(if nd_next nf = 0 then Inr True
      else bind_res (nd_at ?F (nd_next nf)) (\<lambda>nn. Inr (kl_freq (nd_value nn) \<noteq> kl_freq (nd_value nf) + 1))) = Inr True"
  proof (cases B)
    case Nil
    then show ?thesis using nf by simp
  next
    case (Cons b B')
    obtain h ms where b: "b = (h, ms)" by (cases b)
    then obtain kl where "vl ?F h = Some kl" "kl_freq kl = frq ?F h" using lists_ok_at [OF ok, of h ms] Cons by auto
    then obtain nn where "mem ?F h = Some nn" "kl_freq (nd_value nn) = frq ?F h" by (auto simp: vl_def)
    then show ?thesis using nf gap [of h ms] Cons b by simp
  qed
  obtain kl K F where N: "new_freq (frq ?F f + 1) s = Inr (?g, s\<lparr>lf_keys := K, lf_freqs := F\<rparr>)" "klist K kl []" "kl_freq kl = frq ?F f + 1"
      "kl_head kl = length ?K" "nx K = (nx ?K)(length ?K \<mapsto> 0)" "pv K = (pv ?K)(length ?K \<mapsto> 0)"
      "vl K = (vl ?K)(length ?K \<mapsto> \<lparr>key_key = [], key_value = []\<rparr>)" "nx F = (nx ?F)(?g \<mapsto> 0)" "pv F = (pv ?F)(?g \<mapsto> 0)"
      "vl F = (vl ?F)(?g \<mapsto> kl)" "K \<noteq> []" "F \<noteq> []"
    using new_freq_ok [OF ne] by blast
  have nxf: "nx ?F f = Some ?x" using nf by (simp add: nx_def)
  then obtain nf1 where nf1: "mem F f = Some nf1" "nd_next nf1 = ?x" using N(8) fg nx_SomeD [of F f ?x] by auto
  obtain F1 where F1: "(if nd_next nf1 \<noteq> 0 then setPre (nd_next nf1) ?g F else Inr F) = Inr F1" "nx F1 = nx F"
      "pv F1 = (case map fst B of [] \<Rightarrow> pv F | b # _ \<Rightarrow> (pv F)(b \<mapsto> ?g))" "vl F1 = vl F" "length F1 = length F"
  proof (cases B)
    case Nil
    then show ?thesis using that [of F] nf1 by simp
  next
    case (Cons b B')
    obtain h ms where b: "b = (h, ms)" by (cases b)
    have h0: "h \<noteq> 0" using next_nonzero [of ?K ?F A f ns h ms B'] ok Cons b by simp
    obtain kl' where "vl F h = Some kl'" using lists_ok_at [OF ok, of h ms] N(10) g0 [of h ms] Cons b by auto
    from mem_of(3) [OF this] obtain hd where "mem F h = Some hd" by blast
    from setPre_ok [OF this, of ?g] show ?thesis using that nf1 Cons b h0 by auto
  qed
  obtain g1 where "mem F1 ?g = Some g1" using mem_of(1) [of F1 ?g 0] F1(2) N(8) by auto
  from setNext_ok [OF this, of ?x] obtain F2 where F2: "setNext ?g ?x F1 = Inr F2" "nx F2 = (nx F1)(?g \<mapsto> ?x)" "pv F2 = pv F1"
      "vl F2 = vl F1" "length F2 = length F1" by blast
  obtain f2 where "mem F2 f = Some f2" using mem_of(1) [of F2 f ?x] F2(2) F1(2) N(8) nxf fg by auto
  from setNext_ok [OF this, of ?g] obtain F3 where F3: "setNext f ?g F2 = Inr F3" "nx F3 = (nx F2)(f \<mapsto> ?g)" "pv F3 = pv F2"
      "vl F3 = vl F2" "length F3 = length F2" by blast
  obtain g3 where "mem F3 ?g = Some g3" using mem_of(1) [of F3 ?g ?x] F3(2) F2(2) fg by auto
  from setPre_ok [OF this, of f] obtain F4 where F4: "setPre ?g f F3 = Inr F4" "nx F4 = nx F3" "pv F4 = (pv F3)(?g \<mapsto> f)"
      "vl F4 = vl F3" "length F4 = length F3" by blast
  let ?s1 = "s\<lparr>lf_keys := K, lf_freqs := F4\<rparr>"
  have run: "next_freq f s = Inr (?g, ?s1)"
    unfolding next_freq_def using missing F1(1) F2(1) [folded nf1(2)] F3(1) F4(1)
    by (simp add: nf(1,2) N(1) nf1(1) del: neq0_conv split del: if_split cong del: if_weak_cong)
  have nx4: "nx F4 = (nx ?F)(?g := nx ?F f, f := Some ?g)" using F4(2) F3(2) F2(2) F1(2) N(8) nxf fg by auto
  have pv4: "pv F4 = (case map fst B of [] \<Rightarrow> pv ?F | b # _ \<Rightarrow> (pv ?F)(b \<mapsto> ?g))(?g \<mapsto> f)"
    using F4(3) F3(3) F2(3) F1(3) N(9) g0 by (cases B) (auto simp: fun_eq_iff)
  have vl4: "vl F4 = (vl ?F)(?g \<mapsto> kl)" using F4(4) F3(4) F2(4) F1(4) N(10) by simp
  have ne4: "F4 \<noteq> []" using F4(5) F3(5) F2(5) F1(5) N(12) by (metis length_0_conv)
  have fq: "frq ?F f < kl_freq kl" "\<And>h. h \<in> fst ` set B \<Longrightarrow> kl_freq kl < frq ?F h" using N(3) gap by auto
  note ins = lists_ok_insert [OF ok N(5,6,11,2,4) vl4 nx4 ne4 pv4 fq]
  have "frq F4 ?g = frq ?F f + 1" "sent F4 ?g = length ?K" using vl4 N(3,4) by (simp_all add: frq_def sent_def)
  moreover have "vl ?F h \<noteq> None \<Longrightarrow> h \<noteq> ?g" for h using fresh_address(1) [of ?F] by metis
  moreover have "vl ?K a \<noteq> None \<Longrightarrow> a \<noteq> length ?K" for a using fresh_address(1) [of ?K] by metis
  ultimately have "grown s f B ?g [] B ?s1"
    using ins(2) gap N(7) fresh_address(1) [of ?F] fresh_address(1) [of ?K] by (auto simp: grown_def)
  then show ?thesis using run ins(1) by simp
qed

lemma next_freq_ok:
  assumes ok: "lists_ok (lf_keys s) (lf_freqs s) (A @ (f, ns) # B)"
  shows "\<exists>g ms B1 s1. next_freq f s = Inr (g, s1) \<and> lists_ok (lf_keys s1) (lf_freqs s1) (A @ (f, ns) # (g, ms) # B1) \<and> grown s f B g ms B1 s1"
proof (cases "\<exists>g ms B1. B = (g, ms) # B1 \<and> frq (lf_freqs s) g = frq (lf_freqs s) f + 1")
  case True
  then obtain g ms B1 where B: "B = (g, ms) # B1" "frq (lf_freqs s) g = frq (lf_freqs s) f + 1" by blast
  obtain nf where nf: "mem (lf_freqs s) f = Some nf" "kl_freq (nd_value nf) = frq (lf_freqs s) f" "nd_next nf = g"
    using next_is [OF ok] B(1) by auto
  have g0: "g \<noteq> 0" using next_nonzero ok B(1) by blast
  obtain kl where "vl (lf_freqs s) g = Some kl" "kl_freq kl = frq (lf_freqs s) g" using lists_ok_at [OF ok, of g ms] B(1) by auto
  then obtain nn where "mem (lf_freqs s) g = Some nn" "kl_freq (nd_value nn) = frq (lf_freqs s) g" by (auto simp: vl_def)
  then have "next_freq f s = Inr (g, s)" using nf B(2) g0 by (simp add: next_freq_def)
  moreover have "grown s f B g ms B1 s" using B by (simp add: grown_def)
  ultimately show ?thesis using ok B(1) by blast
next
  case False
  have gap: "frq (lf_freqs s) f + 1 < frq (lf_freqs s) h" if h: "(h, ms) \<in> set B" for h ms
  proof -
    obtain g' ms' B' where B: "B = (g', ms') # B'" using h by (cases B) auto
    have "sorted_wrt (<) (map (\<lambda>(f, ns). frq (lf_freqs s) f) (A @ (f, ns) # B))" using ok by (simp add: lists_ok_def)
    then have "frq (lf_freqs s) f < frq (lf_freqs s) g'" "frq (lf_freqs s) g' \<le> frq (lf_freqs s) h"
      using B h by (auto simp: sorted_wrt_append less_le)
    moreover have "frq (lf_freqs s) g' \<noteq> frq (lf_freqs s) f + 1" using False B by blast
    ultimately show ?thesis by linarith
  qed
  have "\<exists>s1. next_freq f s = Inr (length (lf_freqs s), s1) \<and>
      lists_ok (lf_keys s1) (lf_freqs s1) (A @ (f, ns) # (length (lf_freqs s), []) # B) \<and> grown s f B (length (lf_freqs s)) [] B s1"
    by (rule next_freq_new [OF ok]) (rule gap)
  then show ?thesis by blast
qed

text \<open>Deleting an emptied frequency node, with its sentinel.\<close>

lemma lists_ok_remove:
  assumes ok: "lists_ok K F (A @ (f, []) # B)" and A: "A \<noteq> []"
    and K1: "nx K1 = (nx K)(sent F f := None)" "pv K1 = (pv K)(sent F f := None)" "K1 \<noteq> []"
    and F1: "nx F1 = (nx F)(last (map fst A) := nx F f, f := None)"
      "pv F1 = (case map fst B of [] \<Rightarrow> pv F | b # _ \<Rightarrow> (pv F)(b \<mapsto> last (map fst A)))(f := None)"
      "vl F1 = (vl F)(f := None)" "F1 \<noteq> []"
  shows "lists_ok K1 F1 (A @ B)" and "\<And>h. h \<noteq> f \<Longrightarrow> frq F1 h = frq F h \<and> sent F1 h = sent F h"
proof -
  show same: "h \<noteq> f \<Longrightarrow> frq F1 h = frq F h \<and> sent F1 h = sent F h" for h using F1(3) by (simp add: frq_def sent_def)
  have dist: "distinct (map fst A @ f # map fst B)" "distinct (nodes F (A @ (f, []) # B))" using ok by (simp_all add: lists_ok_def)
  have out: "f \<notin> fst ` set (A @ B)" using dist(1) by auto
  have nd: "nodes F1 (A @ B) = nodes F (A @ B)" by (rule nodes_cong) (use same out in metis)
  have "dlls (nx F1) (pv F1) (map fst A @ map fst B)"
    by (rule dlls_delete [of "nx F" "pv F" _ f]) (use ok dist(1) A out F1 in \<open>auto simp: lists_ok_def split: list.splits\<close>)
  moreover have "\<exists>kl. vl F1 h = Some kl \<and> klist K1 kl ms" if h: "(h, ms) \<in> set (A @ B)" for h ms
  proof -
    have "h \<noteq> f" using h out by force
    moreover obtain kl where kl: "vl F h = Some kl" "klist K kl ms" "kl_head kl = sent F h"
      using lists_ok_at [OF ok, of h ms] h by auto
    moreover have "klist K1 kl ms"
    proof (rule klist_frame [OF kl(2)])
      fix a assume "a \<in> set (kl_head kl # ms)"
      then have "a \<in> set (nodes F (A @ B))" unfolding nodes_iff using h kl(3) by auto
      then have "a \<noteq> sent F f" using dist(2) by auto
      then show "nx K1 a = nx K a \<and> pv K1 a = pv K a" using K1 by simp
    qed
    ultimately show ?thesis using F1(3) by simp
  qed
  moreover have "map (\<lambda>(f, ns). frq F1 f) (A @ B) = map (\<lambda>(f, ns). frq F f) (A @ B)"
  proof (rule map_cong [OF refl])
    fix x assume "x \<in> set (A @ B)"
    then have "fst x \<in> fst ` set (A @ B)" by (rule imageI)
    then have "fst x \<noteq> f" using out by metis
    then show "(case x of (f, ns) \<Rightarrow> frq F1 f) = (case x of (f, ns) \<Rightarrow> frq F f)" using same by (simp add: case_prod_beta)
  qed
  moreover have "sorted_wrt (<) (map (\<lambda>(f, ns). frq F f) (A @ B))" using ok by (auto simp: lists_ok_def sorted_wrt_append)
  ultimately show "lists_ok K1 F1 (A @ B)"
    using dist K1(3) F1(4) unfolding lists_ok_def nd by (simp only: map_append) auto
qed

lemma LFUCache_del_ok:
  assumes ok: "lists_ok (lf_keys s) (lf_freqs s) (A @ (f, []) # B)" and A: "A \<noteq> []"
  shows "\<exists>K F. LFUCache_del f s = Inr (s\<lparr>lf_keys := K, lf_freqs := F\<rparr>) \<and> lists_ok K F (A @ B) \<and>
    vl K = (vl (lf_keys s))(sent (lf_freqs s) f := None) \<and>
    (\<forall>h. h \<noteq> f \<longrightarrow> frq F h = frq (lf_freqs s) h \<and> sent F h = sent (lf_freqs s) h)"
proof -
  let ?K = "lf_keys s" and ?F = "lf_freqs s" and ?x = "case map fst B of [] \<Rightarrow> 0 | b # _ \<Rightarrow> b" and ?q = "last (map fst A)"
  have d: "dlls (nx ?F) (pv ?F) (map fst A @ f # map fst B)" "distinct (map fst A @ f # map fst B)" using ok by (simp_all add: lists_ok_def)
  have nxf: "nx ?F f = Some ?x" by (rule dlls_next [OF d(1)])
  have pvf: "pv ?F f = Some ?q" using dlls_pre [OF d(1)] A by simp
  have qA: "?q \<in> set (map fst A)" using A by (intro last_in_set) simp
  have qf: "?q \<noteq> f" using qA d(2) by auto
  obtain kl where kl: "vl ?F f = Some kl" "klist ?K kl []" "kl_head kl = sent ?F f" using lists_ok_at [OF ok, of f "[]"] by auto
  have memf: "mem ?F f = Some \<lparr>nd_value = kl, nd_pre = ?q, nd_next = ?x\<rparr>" by (rule mem_links [OF nxf pvf kl(1)])
  obtain qd where "mem ?F ?q = Some qd" using lists_ok_vl_freq [OF ok, of ?q] qA mem_of(3) [of ?F ?q] by auto
  from setNext_ok [OF this, of ?x] obtain F1 where F1: "setNext ?q ?x ?F = Inr F1" "nx F1 = (nx ?F)(?q \<mapsto> ?x)" "pv F1 = pv ?F"
      "vl F1 = vl ?F" "length F1 = length ?F" by blast
  have memf1: "mem F1 f = Some \<lparr>nd_value = kl, nd_pre = ?q, nd_next = ?x\<rparr>"
    by (rule mem_links) (use F1 nxf pvf kl(1) qf in auto)
  obtain F2 where F2: "(if ?x \<noteq> 0 then setPre ?x ?q F1 else Inr F1) = Inr F2" "nx F2 = nx F1"
      "pv F2 = (case map fst B of [] \<Rightarrow> pv ?F | b # _ \<Rightarrow> (pv ?F)(b \<mapsto> ?q))" "vl F2 = vl ?F" "length F2 = length ?F"
  proof (cases B)
    case Nil
    then show ?thesis using that [of F1] F1 by simp
  next
    case (Cons b B')
    obtain h ms where b: "b = (h, ms)" by (cases b)
    have h0: "h \<noteq> 0" using next_nonzero [of ?K ?F A f "[]" h ms B'] ok Cons b by simp
    obtain kl' where "vl F1 h = Some kl'" using lists_ok_at [OF ok, of h ms] F1(4) Cons b by auto
    from mem_of(3) [OF this] obtain hd where "mem F1 h = Some hd" by blast
    from setPre_ok [OF this, of ?q] show ?thesis using that F1 Cons b h0 by auto
  qed
  obtain K where K: "KeyList_destory (kl_head kl) ?K = Inr K" "nx K = (nx ?K)(sent ?F f := None)" "pv K = (pv ?K)(sent ?F f := None)"
      "vl K = (vl ?K)(sent ?F f := None)" "length K = length ?K"
    using KeyList_destory_sentinel [OF kl(2)] kl(3) by auto
  obtain fd where "mem F2 f = Some fd" using mem_of(3) [of F2 f kl] F2(4) kl(1) by auto
  from nd_delete_ok [OF this] obtain F3 where F3: "nd_delete f F2 = Inr F3" "nx F3 = (nx F2)(f := None)" "pv F3 = (pv F2)(f := None)"
      "vl F3 = (vl F2)(f := None)" "length F3 = length F2" by blast
  have run: "LFUCache_del f s = Inr (s\<lparr>lf_keys := K, lf_freqs := F3\<rparr>)"
    unfolding LFUCache_del_def using F2(1) F3(1) K(1)
    by (simp add: memf F1(1) memf1 del: neq0_conv split del: if_split cong del: if_weak_cong)
  have ne: "K \<noteq> []" "F3 \<noteq> []" using ok K(5) F3(5) F2(5) by (auto simp: lists_ok_def)
  have "nx F3 = (nx ?F)(?q := nx ?F f, f := None)" "vl F3 = (vl ?F)(f := None)"
    using F3(2,4) F2(2,4) F1(2) nxf by simp_all
  moreover have "pv F3 = (case map fst B of [] \<Rightarrow> pv ?F | b # _ \<Rightarrow> (pv ?F)(b \<mapsto> ?q))(f := None)" using F3(3) F2(3) by simp
  ultimately have "lists_ok K F3 (A @ B)" and "\<And>h. h \<noteq> f \<Longrightarrow> frq F3 h = frq ?F h \<and> sent F3 h = sent ?F h"
    using lists_ok_remove [OF ok A K(2,3) ne(1)] ne(2) by blast+
  then show ?thesis using run K(4) by blast
qed

section \<open>Moving a key node\<close>

text \<open>What \<open>addfreq\<close> leaves alone: the values of the key nodes in \<open>N\<close>, the sentinels and the frequencies in \<open>H\<close>.\<close>

definition same_parts :: "lfu \<Rightarrow> nat set \<Rightarrow> nat set \<Rightarrow> lfu \<Rightarrow> bool" where
  "same_parts s N H s1 \<longleftrightarrow>
     (\<forall>a \<in> N. vl (lf_keys s1) a = vl (lf_keys s) a) \<and>
     (\<forall>h \<in> H. frq (lf_freqs s1) h = frq (lf_freqs s) h \<and> sent (lf_freqs s1) h = sent (lf_freqs s) h) \<and>
     lf_head s1 = lf_head s \<and> lf_capacity s1 = lf_capacity s \<and> lf_kmap s1 = lf_kmap s"

text \<open>A new key node, that is in no list yet: it goes to frequency one.\<close>

lemma addfreq_new:
  assumes ok: "lists_ok (lf_keys s) (lf_freqs s) ((f, []) # B)" and f: "f = lf_head s"
    and n: "vl (lf_keys s) n = Some kp" "n \<notin> set (nodes (lf_freqs s) ((f, []) # B))"
  shows "\<exists>g ms B1 s1. addfreq n f s = Inr s1 \<and> lists_ok (lf_keys s1) (lf_freqs s1) ((f, []) # (g, n # ms) # B1) \<and>
    (B = (g, ms) # B1 \<or> ms = [] \<and> B1 = B \<and> g \<notin> fst ` set B \<and> (\<forall>h ns. (h, ns) \<in> set B \<longrightarrow> frq (lf_freqs s) f + 1 < frq (lf_freqs s) h)) \<and>
    frq (lf_freqs s1) g = frq (lf_freqs s) f + 1 \<and> lf_fmap s1 = AList.update (key_key kp) g (lf_fmap s) \<and>
    same_parts s {a. vl (lf_keys s) a \<noteq> None} (fst ` set ((f, []) # B)) s1"
proof -
  obtain g ms B1 s1 where g: "next_freq f s = Inr (g, s1)" "lists_ok (lf_keys s1) (lf_freqs s1) ([] @ (f, []) # (g, ms) # B1)"
      "grown s f B g ms B1 s1"
    using next_freq_ok [of s "[]" f "[]" B] ok by auto
  have s1: "lf_head s1 = lf_head s" "lf_capacity s1 = lf_capacity s" "lf_kmap s1 = lf_kmap s" "lf_fmap s1 = lf_fmap s"
    using g(3) by (simp_all add: grown_def)
  have vn: "vl (lf_keys s1) n = Some kp" using g(3) n(1) by (simp add: grown_def)
  then obtain kn where kn: "mem (lf_keys s1) n = Some kn" "nd_value kn = kp" by (auto simp: vl_def)
  let ?s2 = "s1\<lparr>lf_fmap := AList.update (key_key kp) g (lf_fmap s1)\<rparr>"
  have vF: "h \<in> fst ` set ((f, []) # B) \<Longrightarrow> vl (lf_freqs s) h \<noteq> None" for h using lists_ok_vl_freq [OF ok] by blast
  have ng: "g \<notin> fst ` set B" if "vl (lf_freqs s) g = None"
  proof
    assume "g \<in> fst ` set B"
    then have "g \<in> fst ` set ((f, []) # B)" by simp
    from vF [OF this] that show False by simp
  qed
  have gB: "B = (g, ms) # B1 \<or> ms = [] \<and> B1 = B \<and> g \<notin> fst ` set B \<and> (\<forall>h ns. (h, ns) \<in> set B \<longrightarrow> frq (lf_freqs s) f + 1 < frq (lf_freqs s) h)"
    using g(3) ng unfolding grown_def by blast
  have out: "n \<notin> set (nodes (lf_freqs ?s2) ([(f, [])] @ (g, ms) # B1))"
  proof
    assume "n \<in> set (nodes (lf_freqs ?s2) ([(f, [])] @ (g, ms) # B1))"
    then obtain h ns where h: "(h, ns) \<in> set ([(f, [])] @ (g, ms) # B1)" "n \<in> set (sent (lf_freqs s1) h # ns)" by (auto simp: nodes_iff)
    show False
    proof (cases "(h, ns) \<in> set ((f, []) # B)")
      case True
      then have "h \<in> fst ` set ((f, []) # B)" by force
      then have "sent (lf_freqs s1) h = sent (lf_freqs s) h" using g(3) vF [of h] unfolding grown_def by blast
      then show False using n(2) True h(2) by (auto simp: nodes_iff)
    next
      case False
      with h(1) gB have "h = g" "ns = []" "B \<noteq> (g, ms) # B1" by auto
      then have "n = sent (lf_freqs s1) g" "vl (lf_keys s) (sent (lf_freqs s1) g) = None" using g(3) h(2) unfolding grown_def by simp_all
      then have "vl (lf_keys s) n = None" by simp
      with n(1) show False by simp
    qed
  qed
  obtain K F where KF: "on_list g (KeyList_add n) ?s2 = Inr (?s2\<lparr>lf_keys := K, lf_freqs := F\<rparr>)"
      "lists_ok K F ([(f, [])] @ (g, n # ms) # B1)" "vl K = vl (lf_keys s1)" "sent F = sent (lf_freqs s1)" "frq F = frq (lf_freqs s1)"
    using on_list_add [of ?s2 "[(f, [])]" g ms B1 n kn] g(2) kn(1) out by auto
  let ?s4 = "?s2\<lparr>lf_keys := K, lf_freqs := F\<rparr>"
  have "addfreq n f s = Inr ?s4"
    using g(1) kn KF(1) f s1(1) by (simp add: addfreq_def Let_def)
  moreover have "same_parts s {a. vl (lf_keys s) a \<noteq> None} (fst ` set ((f, []) # B)) ?s4"
    using g(3) KF(3-5) s1 vF unfolding same_parts_def grown_def by simp
  moreover have "frq F g = frq (lf_freqs s) f + 1" using g(3) KF(5) by (simp add: grown_def)
  ultimately show ?thesis using KF(2) gB s1(4) by (intro exI [of _ g] exI [of _ ms] exI [of _ B1] exI [of _ ?s4]) simp
qed

text \<open>A key node that is in the list of \<open>f\<close>: it goes to the next frequency, and \<open>f\<close> goes when that was its last one.\<close>

lemma addfreq_move:
  assumes ok: "lists_ok (lf_keys s) (lf_freqs s) (A @ (f, xs @ n # ys) # B)" and A: "A \<noteq> []" and f: "f \<noteq> lf_head s"
    and n: "vl (lf_keys s) n = Some kp"
  shows "\<exists>g ms B1 s1. addfreq n f s = Inr s1 \<and>
    lists_ok (lf_keys s1) (lf_freqs s1) (A @ (if xs @ ys = [] then [] else [(f, xs @ ys)]) @ (g, n # ms) # B1) \<and>
    (B = (g, ms) # B1 \<or> ms = [] \<and> B1 = B \<and> (\<forall>h ns. (h, ns) \<in> set B \<longrightarrow> frq (lf_freqs s) f + 1 < frq (lf_freqs s) h)) \<and>
    frq (lf_freqs s1) g = frq (lf_freqs s) f + 1 \<and> lf_fmap s1 = AList.update (key_key kp) g (lf_fmap s) \<and>
    (xs @ ys \<noteq> [] \<longrightarrow> frq (lf_freqs s1) f = frq (lf_freqs s) f) \<and>
    same_parts s ({a. vl (lf_keys s) a \<noteq> None} - {sent (lf_freqs s) f}) (fst ` set (A @ B)) s1"
proof -
  obtain g ms B1 s1 where g: "next_freq f s = Inr (g, s1)" "lists_ok (lf_keys s1) (lf_freqs s1) (A @ (f, xs @ n # ys) # (g, ms) # B1)"
      "grown s f B g ms B1 s1"
    using next_freq_ok [OF ok] by blast
  have gB: "B = (g, ms) # B1 \<or> ms = [] \<and> B1 = B \<and> (\<forall>h ns. (h, ns) \<in> set B \<longrightarrow> frq (lf_freqs s) f + 1 < frq (lf_freqs s) h)"
    and gq: "frq (lf_freqs s1) g = frq (lf_freqs s) f + 1"
    and s1: "lf_head s1 = lf_head s" "lf_capacity s1 = lf_capacity s" "lf_kmap s1 = lf_kmap s" "lf_fmap s1 = lf_fmap s"
    using g(3) unfolding grown_def by blast+
  have vlK: "vl (lf_keys s) a \<noteq> None \<Longrightarrow> vl (lf_keys s1) a = vl (lf_keys s) a" for a using g(3) unfolding grown_def by blast
  have part: "frq (lf_freqs s1) h = frq (lf_freqs s) h \<and> sent (lf_freqs s1) h = sent (lf_freqs s) h"
    if "h \<in> fst ` set (A @ (f, xs @ n # ys) # B)" for h
    using g(3) lists_ok_vl_freq [OF ok that] unfolding grown_def by blast
  have hf: "f \<in> fst ` set (A @ (f, xs @ n # ys) # B)" and hAB: "h \<in> fst ` set (A @ B) \<Longrightarrow> h \<in> fst ` set (A @ (f, xs @ n # ys) # B)" for h by auto
  have vn: "vl (lf_keys s1) n = Some kp" using vlK [of n] n by simp
  then obtain kn where kn: "mem (lf_keys s1) n = Some kn" "nd_value kn = kp" by (auto simp: vl_def)
  let ?s2 = "s1\<lparr>lf_fmap := AList.update (key_key kp) g (lf_fmap s1)\<rparr>"
  obtain K3 F3 where K3: "on_list f (KeyList_del n) ?s2 = Inr (?s2\<lparr>lf_keys := K3, lf_freqs := F3\<rparr>)"
      "lists_ok K3 F3 (A @ (f, xs @ ys) # (g, ms) # B1)" "vl K3 = vl (lf_keys s1)" "sent F3 = sent (lf_freqs s1)" "frq F3 = frq (lf_freqs s1)"
    using on_list_del [of ?s2 A f xs n ys "(g, ms) # B1"] g(2) by auto
  let ?s3 = "?s2\<lparr>lf_keys := K3, lf_freqs := F3\<rparr>"
  obtain kn3 where kn3: "mem K3 n = Some kn3" using mem_of(3) [of K3 n kp] K3(3) vn by auto
  have "distinct (nodes (lf_freqs s1) (A @ (f, xs @ n # ys) # (g, ms) # B1))" using g(2) unfolding lists_ok_def by blast
  moreover have "nodes F3 M = nodes (lf_freqs s1) M" for M using K3(4) by (intro nodes_cong) simp
  ultimately have out: "n \<notin> set (nodes F3 ((A @ [(f, xs @ ys)]) @ (g, ms) # B1))" using K3(4) by auto
  obtain K4 F4 where K4: "on_list g (KeyList_add n) ?s3 = Inr (?s3\<lparr>lf_keys := K4, lf_freqs := F4\<rparr>)"
      "lists_ok K4 F4 (A @ (f, xs @ ys) # (g, n # ms) # B1)" "vl K4 = vl K3" "sent F4 = sent F3" "frq F4 = frq F3"
    using on_list_add [of ?s3 "A @ [(f, xs @ ys)]" g ms B1 n kn3] K3(2) kn3 out by auto
  let ?s4 = "?s3\<lparr>lf_keys := K4, lf_freqs := F4\<rparr>"
  obtain kl where kl: "vl F4 f = Some kl" "klist K4 kl (xs @ ys)" using lists_ok_at [OF K4(2), of f "xs @ ys"] by auto
  then obtain fd where fd: "mem F4 f = Some fd" "nd_value fd = kl" by (auto simp: vl_def)
  have run: "addfreq n f s = (if xs @ ys = [] then LFUCache_del f ?s4 else Inr ?s4)"
    using g(1) kn K3(1) K4(1) fd klist_isEmpty [OF kl(2)] f s1(1) by (simp add: addfreq_def Let_def)
  show ?thesis
  proof (cases "xs @ ys = []")
    case False
    have "same_parts s ({a. vl (lf_keys s) a \<noteq> None} - {sent (lf_freqs s) f}) (fst ` set (A @ B)) ?s4"
      unfolding same_parts_def using s1 vlK part hAB K3(3-5) K4(3-5) by simp
    moreover have "addfreq n f s = Inr ?s4" using run False by (simp only: if_False)
    moreover have "lists_ok (lf_keys ?s4) (lf_freqs ?s4) (A @ (if xs @ ys = [] then [] else [(f, xs @ ys)]) @ (g, n # ms) # B1)"
      using K4(2) False by auto
    ultimately show ?thesis
      using K4(5) K3(5) gB gq s1(4) part [OF hf]
      by (intro exI [of _ g] exI [of _ ms] exI [of _ B1] exI [of _ ?s4]) (simp split del: if_split)
  next
    case True
    then have "lists_ok (lf_keys ?s4) (lf_freqs ?s4) (A @ (f, []) # (g, n # ms) # B1)" using K4(2) by simp
    from LFUCache_del_ok [OF this A] obtain K5 F5 where K5: "LFUCache_del f ?s4 = Inr (?s4\<lparr>lf_keys := K5, lf_freqs := F5\<rparr>)"
        "lists_ok K5 F5 (A @ (g, n # ms) # B1)" "vl K5 = (vl K4)(sent F4 f := None)"
        "\<And>h. h \<noteq> f \<Longrightarrow> frq F5 h = frq F4 h \<and> sent F5 h = sent F4 h"
      by auto
    let ?s5 = "?s4\<lparr>lf_keys := K5, lf_freqs := F5\<rparr>"
    have sf: "sent F4 f = sent (lf_freqs s) f" using K4(4) K3(4) part [OF hf] by simp
    have gf: "g \<noteq> f" and fAB: "f \<notin> fst ` set (A @ B)" using g(2) ok by (auto simp: lists_ok_def)
    have "same_parts s ({a. vl (lf_keys s) a \<noteq> None} - {sent (lf_freqs s) f}) (fst ` set (A @ B)) ?s5"
      unfolding same_parts_def
    proof (intro conjI ballI)
      fix a assume "a \<in> {a. vl (lf_keys s) a \<noteq> None} - {sent (lf_freqs s) f}"
      then show "vl (lf_keys ?s5) a = vl (lf_keys s) a" using K5(3) sf K4(3) K3(3) vlK [of a] by simp
    next
      fix h assume h: "h \<in> fst ` set (A @ B)"
      then have "h \<noteq> f" using fAB by metis
      from K5(4) [OF this] part [OF hAB [OF h]] show "frq (lf_freqs ?s5) h = frq (lf_freqs s) h" "sent (lf_freqs ?s5) h = sent (lf_freqs s) h"
        using K4(4,5) K3(4,5) by simp_all
    qed (use s1 in simp_all)
    then show ?thesis
      using run True K5(1,2) K5(4) [OF gf] K4(5) K3(5) gB gq s1(4)
      by (intro exI [of _ g] exI [of _ ms] exI [of _ B1] exI [of _ ?s5]) simp
  qed
qed

end
