(* ===== verification/TA_LFUSpec.thy ===== *)
theory TA_LFUSpec
  imports TA_LFUCache
begin

text \<open>
  What the cache of \<open>TA_LFUCache\<close> promises, and that the linked lists and hash maps implement it. The
  specification has buckets of entries in the order of their frequencies, the most recently arrived entry
  of a bucket first, and the map from keys to the entry a lookup finds. An entry is its node's address
  with the key and the value.
\<close>

section \<open>Specification\<close>

type_synonym entry = "nat \<times> string \<times> string"
type_synonym buckets = "(int \<times> entry list) list"

fun add_to :: "int \<Rightarrow> entry \<Rightarrow> buckets \<Rightarrow> buckets" where
  "add_to q e [] = [(q, [e])]"
| "add_to q e ((r, es) # bs) =
     (if q < r then (q, [e]) # (r, es) # bs else if q = r then (r, e # es) # bs else (r, es) # add_to q e bs)"

fun take_from :: "int \<Rightarrow> entry \<Rightarrow> buckets \<Rightarrow> buckets" where
  "take_from q e [] = []"
| "take_from q e ((r, es) # bs) =
     (if r = q then (if removeAll e es = [] then bs else (r, removeAll e es) # bs) else (r, es) # take_from q e bs)"

fun locate :: "nat \<Rightarrow> buckets \<Rightarrow> (int \<times> entry) option" where
  "locate n [] = None"
| "locate n ((q, es) # bs) = (case find (\<lambda>e. fst e = n) es of Some e \<Rightarrow> Some (q, e) | None \<Rightarrow> locate n bs)"

record lfu_spec =
  sp_capacity :: nat
  sp_buckets :: buckets
  sp_live :: "(string \<times> nat) list"

definition spec_get :: "string \<Rightarrow> lfu_spec \<Rightarrow> string option \<times> lfu_spec" where
  "spec_get key sp =
     (case map_of (sp_live sp) key of
        None \<Rightarrow> (None, sp)
      | Some n \<Rightarrow>
          (case locate n (sp_buckets sp) of
             None \<Rightarrow> (None, sp)
           | Some (q, e) \<Rightarrow> (Some (snd (snd e)), sp\<lparr>sp_buckets := take_from q e (add_to (q + 1) e (sp_buckets sp))\<rparr>)))"

definition spec_evict :: "lfu_spec \<Rightarrow> lfu_spec" where
  "spec_evict sp =
     (case sp_buckets sp of
        [] \<Rightarrow> sp
      | (q, es) # bs \<Rightarrow>
          sp\<lparr>sp_buckets := take_from q (last es) (sp_buckets sp), sp_live := AList.delete (fst (snd (last es))) (sp_live sp)\<rparr>)"

definition spec_room :: "lfu_spec \<Rightarrow> lfu_spec" where
  "spec_room sp = (if length (sp_live sp) = sp_capacity sp then spec_evict sp else sp)"

definition spec_store :: "nat \<Rightarrow> string \<Rightarrow> string \<Rightarrow> lfu_spec \<Rightarrow> lfu_spec" where
  "spec_store n key v sp =
     sp\<lparr>sp_buckets := add_to 1 (n, key, v) (sp_buckets sp), sp_live := AList.update key n (sp_live sp)\<rparr>"

section \<open>Representation\<close>

definition ent :: "key_pair heap \<Rightarrow> nat \<Rightarrow> entry" where
  "ent K n = (n, key_key (the (vl K n)), key_value (the (vl K n)))"

definition bks :: "key_pair heap \<Rightarrow> key_list heap \<Rightarrow> (nat \<times> nat list) list \<Rightarrow> buckets" where
  "bks K F M = map (\<lambda>(f, ns). (frq F f, map (ent K) ns)) M"

text \<open>Both maps have the same keys, and lead to a key node of that key in the list of that frequency node.\<close>

definition maps_ok :: "key_pair heap \<Rightarrow> (nat \<times> nat list) list \<Rightarrow> (string \<times> nat) list \<Rightarrow> (string \<times> nat) list \<Rightarrow> bool" where
  "maps_ok K M kmap fmap \<longleftrightarrow> distinct (map fst kmap) \<and> dom (map_of fmap) = dom (map_of kmap) \<and>
     (\<forall>k n. map_of kmap k = Some n \<longrightarrow>
        (\<exists>f ns kp. map_of fmap k = Some f \<and> (f, ns) \<in> set M \<and> n \<in> set ns \<and> vl K n = Some kp \<and> key_key kp = k))"

definition lfu_rep :: "lfu \<Rightarrow> (nat \<times> nat list) list \<Rightarrow> bool" where
  "lfu_rep s M \<longleftrightarrow> lists_ok (lf_keys s) (lf_freqs s) ((lf_head s, []) # M) \<and> frq (lf_freqs s) (lf_head s) = 0 \<and>
     (\<forall>(f, ns) \<in> set M. ns \<noteq> []) \<and> (\<forall>(f, ns) \<in> set M. \<forall>n \<in> set ns. vl (lf_keys s) n \<noteq> None) \<and>
     maps_ok (lf_keys s) M (lf_kmap s) (lf_fmap s)"

definition lfu_abs :: "lfu \<Rightarrow> (nat \<times> nat list) list \<Rightarrow> lfu_spec" where
  "lfu_abs s M = \<lparr>sp_capacity = lf_capacity s, sp_buckets = bks (lf_keys s) (lf_freqs s) M, sp_live = lf_kmap s\<rparr>"

section \<open>Lemmas on buckets\<close>

lemma bks_simps [simp]:
  "bks K F [] = []"
  "bks K F ((f, ns) # M) = (frq F f, map (ent K) ns) # bks K F M"
  "bks K F (A @ B) = bks K F A @ bks K F B"
  by (simp_all add: bks_def)

lemma bks_cong:
  "(\<And>f ns. (f, ns) \<in> set M \<Longrightarrow> frq F' f = frq F f \<and> (\<forall>n \<in> set ns. vl K' n = vl K n)) \<Longrightarrow> bks K' F' M = bks K F M"
  by (auto simp: bks_def ent_def)

lemma add_to_skip: "(\<And>r es. (r, es) \<in> set xs \<Longrightarrow> r < q) \<Longrightarrow> add_to q e (xs @ ys) = xs @ add_to q e ys"
proof (induction xs)
  case (Cons x xs)
  obtain r es where x: "x = (r, es)" by (cases x)
  have "r < q" using Cons.prems [of r es] x by simp
  moreover have "add_to q e (xs @ ys) = xs @ add_to q e ys" by (rule Cons.IH) (use Cons.prems in auto)
  ultimately show ?case using x by simp
qed simp

lemma take_from_skip: "(\<And>r es. (r, es) \<in> set xs \<Longrightarrow> r \<noteq> q) \<Longrightarrow> take_from q e (xs @ ys) = xs @ take_from q e ys"
proof (induction xs)
  case (Cons x xs)
  obtain r es where x: "x = (r, es)" by (cases x)
  have "r \<noteq> q" using Cons.prems [of r es] x by simp
  moreover have "take_from q e (xs @ ys) = xs @ take_from q e ys" by (rule Cons.IH) (use Cons.prems in auto)
  ultimately show ?case using x by simp
qed simp

lemma add_to_front: "(\<And>r es. (r, es) \<in> set ys \<Longrightarrow> q < r) \<Longrightarrow> add_to q e ys = (q, [e]) # ys"
  by (cases ys) force+

lemma find_ent: "distinct ns \<Longrightarrow> n \<in> set ns \<Longrightarrow> find (\<lambda>e. fst e = n) (map (ent K) ns) = Some (ent K n)"
  by (induction ns) (auto simp: ent_def)

lemma find_ent_none: "n \<notin> set ns \<Longrightarrow> find (\<lambda>e. fst e = n) (map (ent K) ns) = None"
  by (induction ns) (auto simp: ent_def)

lemma remove_ent: "n \<notin> set ns \<Longrightarrow> removeAll (ent K n) (map (ent K) ns) = map (ent K) ns"
  by (induction ns) (auto simp: ent_def)

lemma locate_bks:
  assumes "n \<notin> set (nodes F A)" and "distinct ns" and "n \<in> set ns"
  shows "locate n (bks K F (A @ (f, ns) # B)) = Some (frq F f, ent K n)"
  using assms(1)
proof (induction A)
  case Nil
  then show ?case using find_ent [OF assms(2,3)] by simp
next
  case (Cons a A)
  then show ?case by (cases a) (simp add: find_ent_none)
qed

lemma bks_freq: "(r, es) \<in> set (bks K F M) \<Longrightarrow> \<exists>f ns. (f, ns) \<in> set M \<and> r = frq F f"
  by (auto simp: bks_def)

text \<open>The frequencies before and behind a frequency node.\<close>

lemma freq_order:
  assumes "lists_ok K F (A @ (f, ns) # B)"
  shows "(r, es) \<in> set (bks K F A) \<Longrightarrow> r < frq F f" and "(r, es) \<in> set (bks K F B) \<Longrightarrow> frq F f < r"
  using assms by (force simp: lists_ok_def sorted_wrt_append dest!: bks_freq)+

text \<open>Moving an entry to the next bucket, as lists of nodes and in the specification.\<close>

lemma move_refines:
  assumes ok: "lists_ok K F (A @ (f, xs @ n # ys) # B)"
    and B: "B = (g, ms) # B1 \<or> ms = [] \<and> B1 = B \<and> (\<forall>h ns. (h, ns) \<in> set B \<longrightarrow> frq F f + 1 < frq F h)"
    and g: "B = (g, ms) # B1 \<Longrightarrow> frq F g = frq F f + 1"
  shows "take_from (frq F f) (ent K n) (add_to (frq F f + 1) (ent K n) (bks K F (A @ (f, xs @ n # ys) # B))) =
    bks K F A @ (if xs @ ys = [] then [] else [(frq F f, map (ent K) (xs @ ys))]) @
      (frq F f + 1, map (ent K) (n # ms)) # bks K F B1"
proof -
  let ?q = "frq F f" and ?e = "ent K n"
  have "distinct (nodes F (A @ (f, xs @ n # ys) # B))" using ok unfolding lists_ok_def by blast
  then have n: "n \<notin> set (xs @ ys)" by auto
  have add: "add_to (?q + 1) ?e (bks K F B) = (?q + 1, map (ent K) (n # ms)) # bks K F B1"
  proof (cases "B = (g, ms) # B1")
    case True
    then show ?thesis using g by simp
  next
    case False
    with B have "ms = []" "B1 = B" "\<And>r es. (r, es) \<in> set (bks K F B) \<Longrightarrow> ?q + 1 < r" by (auto dest!: bks_freq)
    then show ?thesis using add_to_front [of "bks K F B" "?q + 1" ?e] by simp
  qed
  have "add_to (?q + 1) ?e (bks K F (A @ (f, xs @ n # ys) # B)) =
      bks K F A @ (?q, map (ent K) (xs @ n # ys)) # (?q + 1, map (ent K) (n # ms)) # bks K F B1"
  proof -
    have "add_to (?q + 1) ?e ((bks K F A @ [(?q, map (ent K) (xs @ n # ys))]) @ bks K F B) =
        (bks K F A @ [(?q, map (ent K) (xs @ n # ys))]) @ add_to (?q + 1) ?e (bks K F B)"
      by (rule add_to_skip) (use freq_order(1) [OF ok] in force)
    then show ?thesis by (simp add: add)
  qed
  moreover have "removeAll ?e (map (ent K) (xs @ n # ys)) = map (ent K) (xs @ ys)" using n remove_ent [of n _ K] by simp
  moreover have "take_from ?q ?e (bks K F A @ Z) = bks K F A @ take_from ?q ?e Z" for Z
    by (rule take_from_skip) (use freq_order(1) [OF ok] in force)
  ultimately show ?thesis by simp
qed

section \<open>Looking a key up\<close>

lemma in_split_lists:
  assumes "(f, ns) \<in> set M" and "n \<in> set ns"
  shows "\<exists>A xs ys B. M = A @ (f, xs @ n # ys) # B"
  using assms by (metis in_set_conv_decomp)

text \<open>The maps when a node moves from \<open>f\<close> to \<open>g\<close>.\<close>

lemma maps_ok_move:
  assumes m: "maps_ok K (A @ (f, xs @ n # ys) # B) kmap fmap" and key: "map_of kmap key = Some n" "vl K n = Some kp" "key_key kp = key"
    and dist: "distinct (map fst (A @ (f, xs @ n # ys) # B))"
    and B: "B = (g, ms) # B1 \<or> ms = [] \<and> B1 = B"
    and vl1: "\<And>h ns a. (h, ns) \<in> set (A @ (f, xs @ n # ys) # B) \<Longrightarrow> a \<in> set ns \<Longrightarrow> vl K1 a = vl K a"
  shows "maps_ok K1 (A @ (if xs @ ys = [] then [] else [(f, xs @ ys)]) @ (g, n # ms) # B1) kmap (AList.update key g fmap)"
proof -
  let ?M = "A @ (f, xs @ n # ys) # B" and ?M1 = "A @ (if xs @ ys = [] then [] else [(f, xs @ ys)]) @ (g, n # ms) # B1"
  have "\<exists>h ns kp. map_of (AList.update key g fmap) k = Some h \<and> (h, ns) \<in> set ?M1 \<and> a \<in> set ns \<and> vl K1 a = Some kp \<and> key_key kp = k"
    if a: "map_of kmap k = Some a" for k a
  proof (cases "k = key")
    case True
    with a key have "a = n" by simp
    moreover have "vl K1 n = Some kp" using vl1 [of f "xs @ n # ys" n] key(2) by simp
    ultimately show ?thesis using True key(3) by (intro exI [of _ g] exI [of _ "n # ms"] exI [of _ kp]) (auto simp: update_conv)
  next
    case False
    from m a obtain h ns kp' where h: "map_of fmap k = Some h" "(h, ns) \<in> set ?M" "a \<in> set ns" "vl K a = Some kp'" "key_key kp' = k"
      unfolding maps_ok_def by blast
    have an: "a \<noteq> n" using h(4,5) key(2,3) False by auto
    have v: "vl K1 a = Some kp'" using vl1 [OF h(2,3)] h(4) by simp
    have "\<exists>ns1. (h, ns1) \<in> set ?M1 \<and> a \<in> set ns1"
    proof (cases "h = f")
      case True
      have "(f, xs @ n # ys) \<in> set ?M" by simp
      with h(2) True dist have "ns = xs @ n # ys" by (metis eq_key_imp_eq_value)
      then have "a \<in> set (xs @ ys)" using h(3) an by auto
      then show ?thesis using True by (intro exI [of _ "xs @ ys"]) auto
    next
      case hf: False
      then consider "(h, ns) \<in> set A \<or> (h, ns) \<in> set B1" | "(h, ns) = (g, ms)" using h(2) B by auto
      then show ?thesis
      proof cases
        case 1
        then show ?thesis using h(3) by (intro exI [of _ ns]) auto
      next
        case 2
        then show ?thesis using h(3) by (intro exI [of _ "n # ms"]) auto
      qed
    qed
    then show ?thesis using h(1,5) v False by (auto simp: update_conv)
  qed
  moreover have "key \<in> dom (map_of kmap)" using key(1) by blast
  then have "dom (map_of (AList.update key g fmap)) = dom (map_of kmap)"
    using m by (simp add: maps_ok_def update_conv' insert_absorb)
  ultimately show ?thesis using m unfolding maps_ok_def by blast
qed

lemma key_node_not_sentinel:
  assumes "lists_ok K F L" and "(f, ns) \<in> set L" and "(h, ms) \<in> set L" and "a \<in> set ns"
  shows "a \<noteq> sent F h"
proof
  assume e: "a = sent F h"
  have d: "distinct (nodes F L)" using assms(1) unfolding lists_ok_def by blast
  obtain A B where L: "L = A @ (f, ns) # B" using assms(2) by (meson split_list)
  from assms(3) have "(h, ms) = (f, ns) \<or> (h, ms) \<in> set (A @ B)" by (auto simp: L)
  moreover have "sent F f \<notin> set ns" using d by (auto simp: L)
  moreover have "(h, ms) \<in> set (A @ B) \<Longrightarrow> sent F h \<in> set (nodes F (A @ B))" unfolding nodes_iff by auto
  ultimately show False using d e assms(4) by (auto simp: L)
qed

lemma moved_lists:
  assumes "B = (g, ms) # B1 \<or> ms = [] \<and> B1 = B" and "(h, ns) \<in> set (A @ (if xs @ ys = [] then [] else [(f, xs @ ys)]) @ (g, n # ms) # B1)"
  shows "(h, ns) \<in> set (A @ B) \<or> (h = f \<and> ns = xs @ ys \<and> ns \<noteq> []) \<or> (h = g \<and> ns = n # ms \<and> (ms = [] \<or> (g, ms) \<in> set B))"
  using assms by (auto split: if_splits)

text \<open>After the move the lists have no other key nodes than before, and none is empty.\<close>

lemma moved_nodes:
  assumes "B = (g, ms) # B1 \<or> ms = [] \<and> B1 = B" and "(h, ns) \<in> set (A @ (if xs @ ys = [] then [] else [(f, xs @ ys)]) @ (g, n # ms) # B1)"
    and "b \<in> set ns"
  shows "\<exists>h' ns'. (h', ns') \<in> set (A @ (f, xs @ n # ys) # B) \<and> b \<in> set ns'"
  using moved_lists [OF assms(1,2)] assms(3)
proof (elim disjE conjE)
  assume "(h, ns) \<in> set (A @ B)" "b \<in> set ns"
  then show ?thesis by (intro exI [of _ h] exI [of _ ns]) auto
next
  assume "ns = xs @ ys" "b \<in> set ns"
  then show ?thesis by (intro exI [of _ f] exI [of _ "xs @ n # ys"]) auto
next
  assume "ns = n # ms" "b \<in> set ns" "ms = []"
  then show ?thesis by (intro exI [of _ f] exI [of _ "xs @ n # ys"]) auto
next
  assume a: "ns = n # ms" "b \<in> set ns" "(g, ms) \<in> set B"
  show ?thesis
  proof (cases "b = n")
    case True
    then show ?thesis by (intro exI [of _ f] exI [of _ "xs @ n # ys"]) auto
  next
    case False
    then show ?thesis using a by (intro exI [of _ g] exI [of _ ms]) auto
  qed
qed

lemma lfu_rep_vl: "lfu_rep s M \<Longrightarrow> (f, ns) \<in> set M \<Longrightarrow> b \<in> set ns \<Longrightarrow> vl (lf_keys s) b \<noteq> None"
  unfolding lfu_rep_def by blast

lemma lfu_repI:
  assumes "lists_ok (lf_keys s) (lf_freqs s) ((lf_head s, []) # M)" and "frq (lf_freqs s) (lf_head s) = 0"
    and "\<And>f ns. (f, ns) \<in> set M \<Longrightarrow> ns \<noteq> []"
    and "\<And>f ns a. (f, ns) \<in> set M \<Longrightarrow> a \<in> set ns \<Longrightarrow> vl (lf_keys s) a \<noteq> None"
    and "maps_ok (lf_keys s) M (lf_kmap s) (lf_fmap s)"
  shows "lfu_rep s M"
  unfolding lfu_rep_def using assms by blast

lemma lfu_rep_move:
  assumes rep: "lfu_rep s (A @ (f, xs @ n # ys) # B)"
    and key: "map_of (lf_kmap s) key = Some n" "vl (lf_keys s) n = Some kp" "key_key kp = key"
  shows "\<exists>s1 M1. addfreq n f s = Inr s1 \<and> lfu_rep s1 M1 \<and>
    lfu_abs s1 M1 = (lfu_abs s (A @ (f, xs @ n # ys) # B))\<lparr>sp_buckets := take_from (frq (lf_freqs s) f) (ent (lf_keys s) n)
      (add_to (frq (lf_freqs s) f + 1) (ent (lf_keys s) n) (bks (lf_keys s) (lf_freqs s) (A @ (f, xs @ n # ys) # B)))\<rparr>"
proof -
  let ?h = "lf_head s" and ?M = "A @ (f, xs @ n # ys) # B" and ?K = "lf_keys s" and ?F = "lf_freqs s"
  have ok: "lists_ok ?K ?F (((?h, []) # A) @ (f, xs @ n # ys) # B)" using rep by (simp add: lfu_rep_def)
  have dist: "distinct (map fst ((?h, []) # ?M))" using ok by (simp add: lists_ok_def)
  have hf: "f \<noteq> lf_head s" using dist by auto
  obtain g ms B1 s1 where a: "addfreq n f s = Inr s1"
      "lists_ok (lf_keys s1) (lf_freqs s1) (((?h, []) # A) @ (if xs @ ys = [] then [] else [(f, xs @ ys)]) @ (g, n # ms) # B1)"
      "B = (g, ms) # B1 \<or> ms = [] \<and> B1 = B \<and> (\<forall>h ns. (h, ns) \<in> set B \<longrightarrow> frq ?F f + 1 < frq ?F h)"
      "frq (lf_freqs s1) g = frq ?F f + 1" "lf_fmap s1 = AList.update key g (lf_fmap s)"
      "xs @ ys \<noteq> [] \<longrightarrow> frq (lf_freqs s1) f = frq ?F f"
      "same_parts s ({a. vl ?K a \<noteq> None} - {sent ?F f}) (fst ` set (((?h, []) # A) @ B)) s1"
    using addfreq_move [OF ok list.distinct(2) hf key(2)] unfolding key(3) by blast
  let ?M1 = "A @ (if xs @ ys = [] then [] else [(f, xs @ ys)]) @ (g, n # ms) # B1"
  have sp: "lf_head s1 = ?h" "lf_capacity s1 = lf_capacity s" "lf_kmap s1 = lf_kmap s" using a(7) by (simp_all add: same_parts_def)
  have fr: "h \<in> fst ` set (((?h, []) # A) @ B) \<Longrightarrow> frq (lf_freqs s1) h = frq ?F h" for h using a(7) unfolding same_parts_def by blast
  have vl1: "vl (lf_keys s1) b = vl ?K b" if "(h, ns) \<in> set ?M" "b \<in> set ns" for h ns b
  proof -
    have "vl ?K b \<noteq> None" by (rule lfu_rep_vl [OF rep that])
    moreover have "b \<noteq> sent ?F f" using key_node_not_sentinel [OF ok, of h ns f "xs @ n # ys" b] that by auto
    ultimately show ?thesis using a(7) unfolding same_parts_def by blast
  qed
  have gB: "B = (g, ms) # B1 \<or> ms = [] \<and> B1 = B" using a(3) by blast
  have ne': "ns \<noteq> []" if "(h, ns) \<in> set ?M1" for h ns
  proof
    assume e: "ns = []"
    with moved_lists [OF gB that] have "(h, []) \<in> set ?M" by auto
    then show False using rep unfolding lfu_rep_def by blast
  qed
  have vd': "vl (lf_keys s1) b \<noteq> None" if b: "(h, ns) \<in> set ?M1" "b \<in> set ns" for h ns b
  proof -
    obtain h' ns' where h': "(h', ns') \<in> set ?M" "b \<in> set ns'" using moved_nodes [OF gB b] by blast
    from vl1 [OF h'] lfu_rep_vl [OF rep h'] show ?thesis by simp
  qed
  have ne: "\<forall>(h, ns) \<in> set ?M1. ns \<noteq> []" using ne' by blast
  have vd: "\<forall>(h, ns) \<in> set ?M1. \<forall>b \<in> set ns. vl (lf_keys s1) b \<noteq> None" using vd' by blast
  have mo: "maps_ok (lf_keys s1) ?M1 (lf_kmap s) (AList.update key g (lf_fmap s))"
  proof (rule maps_ok_move [OF _ key _ gB])
    show "maps_ok ?K ?M (lf_kmap s) (lf_fmap s)" using rep unfolding lfu_rep_def by blast
    show "distinct (map fst ?M)" using dist by simp
    show "\<And>h ns b. (h, ns) \<in> set ?M \<Longrightarrow> b \<in> set ns \<Longrightarrow> vl (lf_keys s1) b = vl ?K b" by (rule vl1)
  qed
  have "lfu_rep s1 ?M1"
    using a(2,5) sp ne vd mo fr [of ?h] rep by (simp add: lfu_rep_def)
  moreover have "bks (lf_keys s1) (lf_freqs s1) ?M1 =
      take_from (frq ?F f) (ent ?K n) (add_to (frq ?F f + 1) (ent ?K n) (bks ?K ?F ?M))"
  proof -
    have g: "B = (g, ms) # B1 \<Longrightarrow> frq ?F g = frq ?F f + 1" using fr [of g] a(4) by simp
    have okM: "bks (lf_keys s1) (lf_freqs s1) Z = bks ?K ?F Z" if Z: "set Z \<subseteq> set (A @ B)" for Z
    proof (rule bks_cong)
      fix h ns assume "(h, ns) \<in> set Z"
      then have h: "(h, ns) \<in> set (A @ B)" using Z by (rule rev_subsetD)
      then have "h \<in> fst ` set (A @ B)" by (metis fst_conv imageI)
      then have "frq (lf_freqs s1) h = frq ?F h" using fr [of h] by simp
      moreover have "\<forall>b \<in> set ns. vl (lf_keys s1) b = vl ?K b" using vl1 [of h ns] h by simp
      ultimately show "frq (lf_freqs s1) h = frq ?F h \<and> (\<forall>b \<in> set ns. vl (lf_keys s1) b = vl ?K b)" by blast
    qed
    have e: "map (ent (lf_keys s1)) ns = map (ent ?K) ns" if "(h, ns) \<in> set ?M1" for h ns
    proof (rule map_cong [OF refl])
      fix b assume "b \<in> set ns"
      from moved_nodes [OF gB that this] obtain h' ns' where "(h', ns') \<in> set ?M" "b \<in> set ns'" by blast
      from vl1 [OF this] show "ent (lf_keys s1) b = ent ?K b" by (simp add: ent_def)
    qed
    have M1: "set A \<subseteq> set (A @ B)" "set B1 \<subseteq> set (A @ B)" using gB by auto
    have "map (ent (lf_keys s1)) (n # ms) = map (ent ?K) (n # ms)" by (rule e [of g]) simp
    moreover have "xs @ ys \<noteq> [] \<Longrightarrow> map (ent (lf_keys s1)) (xs @ ys) = map (ent ?K) (xs @ ys)" by (rule e [of f]) auto
    moreover have okB: "lists_ok ?K ?F (((?h, []) # A) @ (f, xs @ n # ys) # B)" by (rule ok)
    ultimately have "bks (lf_keys s1) (lf_freqs s1) ?M1 = bks ?K ?F A @
        (if xs @ ys = [] then [] else [(frq ?F f, map (ent ?K) (xs @ ys))]) @ (frq ?F f + 1, map (ent ?K) (n # ms)) # bks ?K ?F B1"
      using okM [OF M1(1)] okM [OF M1(2)] a(4,6) by simp
    moreover have "take_from (frq ?F f) (ent ?K n) (add_to (frq ?F f + 1) (ent ?K n) ((frq ?F ?h, []) # bks ?K ?F ?M)) =
        (frq ?F ?h, []) # (bks ?K ?F A @ (if xs @ ys = [] then [] else [(frq ?F f, map (ent ?K) (xs @ ys))]) @
          (frq ?F f + 1, map (ent ?K) (n # ms)) # bks ?K ?F B1)"
      using move_refines [OF ok a(3) g] by simp
    moreover have "frq ?F ?h < frq ?F f" using freq_order(1) [OF ok, of "frq ?F ?h" "[]"] by simp
    ultimately show ?thesis by (simp split: if_splits)
  qed
  ultimately show ?thesis using a(1) sp by (intro exI [of _ s1] exI [of _ ?M1]) (simp add: lfu_abs_def)
qed

lemma lfu_get_refines:
  assumes rep: "lfu_rep s M" and cap: "lf_capacity s \<noteq> 0"
  shows "\<exists>s1 M1. LFUCache_get key v s = Inr (case fst (spec_get key (lfu_abs s M)) of
      None \<Rightarrow> (False, v, s1) | Some x \<Rightarrow> (True, v @ x, s1)) \<and>
    lfu_rep s1 M1 \<and> lfu_abs s1 M1 = snd (spec_get key (lfu_abs s M))"
proof (cases "map_of (lf_kmap s) key")
  case None
  have "map_of (lf_fmap s) key = None" using rep None unfolding lfu_rep_def maps_ok_def by (metis domIff)
  then have "LFUCache_get key v s = Inr (False, v, s)" using cap by (simp add: LFUCache_get_def)
  moreover have "spec_get key (lfu_abs s M) = (None, lfu_abs s M)" using None by (simp add: spec_get_def lfu_abs_def)
  ultimately show ?thesis using rep by auto
next
  case (Some n)
  from rep Some obtain f ns kp where f: "map_of (lf_fmap s) key = Some f" "(f, ns) \<in> set M" "n \<in> set ns"
      "vl (lf_keys s) n = Some kp" "key_key kp = key"
    unfolding lfu_rep_def maps_ok_def by blast
  from in_split_lists [OF f(2,3)] obtain A xs ys B where M: "M = A @ (f, xs @ n # ys) # B" by blast
  from lfu_rep_move [OF rep [unfolded M] Some f(4,5)] obtain s1 M1 where m: "addfreq n f s = Inr s1" "lfu_rep s1 M1"
      "lfu_abs s1 M1 = (lfu_abs s M)\<lparr>sp_buckets := take_from (frq (lf_freqs s) f) (ent (lf_keys s) n)
        (add_to (frq (lf_freqs s) f + 1) (ent (lf_keys s) n) (bks (lf_keys s) (lf_freqs s) M))\<rparr>"
    unfolding M by blast
  have "distinct (nodes (lf_freqs s) ((lf_head s, []) # M))" using rep unfolding lfu_rep_def lists_ok_def by blast
  then have "locate n (bks (lf_keys s) (lf_freqs s) M) = Some (frq (lf_freqs s) f, ent (lf_keys s) n)"
    unfolding M by (intro locate_bks) auto
  moreover obtain kn where "mem (lf_keys s) n = Some kn" "nd_value kn = kp" using f(4) by (auto simp: vl_def)
  ultimately show ?thesis
    using Some f m cap by (intro exI [of _ s1] exI [of _ M1])
      (simp add: LFUCache_get_def spec_get_def lfu_abs_def ent_def)
qed

section \<open>Storing a key\<close>

text \<open>Forgetting a key node that is in no list.\<close>

lemma lists_ok_forget:
  assumes ok: "lists_ok K F L" and n: "n \<notin> set (nodes F L)" and K1: "nx K1 = (nx K)(n := x)" "pv K1 = (pv K)(n := p)" "K1 \<noteq> []"
  shows "lists_ok K1 F L"
proof -
  have "\<exists>kl. vl F f = Some kl \<and> klist K1 kl ns" if f: "(f, ns) \<in> set L" for f ns
  proof -
    obtain kl where kl: "vl F f = Some kl" "klist K kl ns" "kl_head kl = sent F f" using lists_ok_at [OF ok f] by blast
    have "klist K1 kl ns"
    proof (rule klist_frame [OF kl(2)])
      fix a assume "a \<in> set (kl_head kl # ns)"
      then have "a \<noteq> n" using n f kl(3) unfolding nodes_iff by auto
      then show "nx K1 a = nx K a \<and> pv K1 a = pv K a" using K1 by simp
    qed
    with kl(1) show ?thesis by blast
  qed
  then show ?thesis using ok K1(3) unfolding lists_ok_def by blast
qed

lemma maps_ok_delete:
  assumes m: "maps_ok K ((f, xs @ [n]) # B) kmap fmap" and n: "vl K n = Some kp"
    and dist: "distinct (map fst ((f, xs @ [n]) # B))"
    and vl1: "\<And>h ns a. (h, ns) \<in> set ((f, xs @ [n]) # B) \<Longrightarrow> a \<in> set ns \<Longrightarrow> a \<noteq> n \<Longrightarrow> vl K1 a = vl K a"
  shows "maps_ok K1 ((if xs = [] then [] else [(f, xs)]) @ B) (AList.delete (key_key kp) kmap) (AList.delete (key_key kp) fmap)"
proof -
  let ?key = "key_key kp" and ?M1 = "(if xs = [] then [] else [(f, xs)]) @ B"
  have "\<exists>h ns kp'. map_of (AList.delete ?key fmap) k = Some h \<and> (h, ns) \<in> set ?M1 \<and> a \<in> set ns \<and> vl K1 a = Some kp' \<and> key_key kp' = k"
    if a: "map_of (AList.delete ?key kmap) k = Some a" for k a
  proof -
    have k: "k \<noteq> ?key" "map_of kmap k = Some a" using a by (auto simp: delete_conv split: if_splits)
    from m k(2) obtain h ns kp' where h: "map_of fmap k = Some h" "(h, ns) \<in> set ((f, xs @ [n]) # B)" "a \<in> set ns" "vl K a = Some kp'" "key_key kp' = k"
      unfolding maps_ok_def by blast
    have an: "a \<noteq> n" using h(4,5) n k(1) by auto
    have v: "vl K1 a = Some kp'" using vl1 [OF h(2,3) an] h(4) by simp
    have "\<exists>ns1. (h, ns1) \<in> set ?M1 \<and> a \<in> set ns1"
    proof (cases "(h, ns) \<in> set B")
      case True
      then show ?thesis using h(3) by (intro exI [of _ ns]) auto
    next
      case False
      then have "h = f" "ns = xs @ [n]" using h(2) by auto
      then show ?thesis using h(3) an by (intro exI [of _ xs]) auto
    qed
    then show ?thesis using h(1,5) v k(1) by (auto simp: delete_conv)
  qed
  moreover have "distinct (map fst (AList.delete ?key kmap))" using m by (simp add: maps_ok_def distinct_delete)
  moreover have "dom (map_of (AList.delete ?key fmap)) = dom (map_of (AList.delete ?key kmap))"
    using m by (simp add: maps_ok_def delete_conv')
  ultimately show ?thesis unfolding maps_ok_def by blast
qed

text \<open>The steps of \<open>evict\<close> on the heaps.\<close>

lemma evict_run:
  assumes ok: "lists_ok (lf_keys s) (lf_freqs s) ((lf_head s, []) # (f, xs @ [n]) # B)" and kp: "vl (lf_keys s) n = Some kp"
  shows "\<exists>s1. evict s = Inr s1 \<and> lists_ok (lf_keys s1) (lf_freqs s1) ((lf_head s, []) # (if xs = [] then [] else [(f, xs)]) @ B) \<and>
    lf_head s1 = lf_head s \<and> lf_capacity s1 = lf_capacity s \<and>
    lf_kmap s1 = AList.delete (key_key kp) (lf_kmap s) \<and> lf_fmap s1 = AList.delete (key_key kp) (lf_fmap s) \<and>
    (\<forall>a. a \<noteq> n \<and> a \<noteq> sent (lf_freqs s) f \<longrightarrow> vl (lf_keys s1) a = vl (lf_keys s) a) \<and>
    (xs \<noteq> [] \<longrightarrow> frq (lf_freqs s1) f = frq (lf_freqs s) f) \<and> (\<forall>h. h \<noteq> f \<longrightarrow> frq (lf_freqs s1) h = frq (lf_freqs s) h)"
proof -
  let ?h = "lf_head s" and ?K = "lf_keys s" and ?F = "lf_freqs s"
  obtain hd where hd: "mem ?F ?h = Some hd" "nd_next hd = f" using next_is [of ?K ?F "[]" ?h "[]" "(f, xs @ [n]) # B"] ok by auto
  obtain kl where kl: "vl ?F f = Some kl" "klist ?K kl (xs @ [n])" using lists_ok_at [OF ok, of f "xs @ [n]"] by auto
  then obtain fd where fd: "mem ?F f = Some fd" "nd_value fd = kl" "kl_last kl = n" by (auto simp: vl_def klist_def)
  obtain K1 F1 where r1: "on_list f (KeyList_del n) s = Inr (s\<lparr>lf_keys := K1, lf_freqs := F1\<rparr>)"
      "lists_ok K1 F1 ([(?h, [])] @ (f, xs @ []) # B)" "vl K1 = vl ?K" "sent F1 = sent ?F" "frq F1 = frq ?F"
    using on_list_del [of s "[(?h, [])]" f xs n "[]" B] ok by auto
  have "vl K1 n = Some kp" using kp r1(3) by simp
  then obtain kn where kn: "mem K1 n = Some kn" "nd_value kn = kp" by (auto simp: vl_def)
  obtain K2 where K2: "nd_delete n K1 = Inr K2" "nx K2 = (nx K1)(n := None)" "pv K2 = (pv K1)(n := None)"
      "vl K2 = (vl K1)(n := None)" "length K2 = length K1"
    using nd_delete_ok [OF kn(1)] by blast
  have "distinct (nodes ?F ((?h, []) # (f, xs @ [n]) # B))" using ok unfolding lists_ok_def by blast
  moreover have "nodes F1 M = nodes ?F M" for M using r1(4) by (intro nodes_cong) simp
  ultimately have out: "n \<notin> set (nodes F1 ([(?h, [])] @ (f, xs) # B))" using r1(4) by auto
  have "K2 \<noteq> []" using K2(5) r1(2) by (auto simp: lists_ok_def)
  then have ok2: "lists_ok K2 F1 ([(?h, [])] @ (f, xs) # B)"
    using lists_ok_forget [OF _ out K2(2,3)] r1(2) by simp
  obtain kl1 where kl1: "vl F1 f = Some kl1" "klist K2 kl1 xs" using lists_ok_at [OF ok2, of f xs] by auto
  then obtain fd1 where fd1: "mem F1 f = Some fd1" "nd_value fd1 = kl1" by (auto simp: vl_def)
  let ?s3 = "s\<lparr>lf_freqs := F1, lf_kmap := AList.delete (key_key kp) (lf_kmap s), lf_fmap := AList.delete (key_key kp) (lf_fmap s), lf_keys := K2\<rparr>"
  have run: "evict s = (if xs = [] then LFUCache_del f ?s3 else Inr ?s3)"
    using hd fd r1(1) kn K2(1) fd1 klist_isEmpty [OF kl1(2)] by (simp add: evict_def Let_def)
  show ?thesis
  proof (cases "xs = []")
    case False
    then show ?thesis using run ok2 r1(3,5) K2(4) by (intro exI [of _ ?s3]) simp
  next
    case True
    then have "lists_ok (lf_keys ?s3) (lf_freqs ?s3) ([(?h, [])] @ (f, []) # B)" using ok2 by simp
    from LFUCache_del_ok [OF this] obtain K4 F4 where K4: "LFUCache_del f ?s3 = Inr (?s3\<lparr>lf_keys := K4, lf_freqs := F4\<rparr>)"
        "lists_ok K4 F4 ((?h, []) # B)" "vl K4 = (vl K2)(sent F1 f := None)" "\<And>h. h \<noteq> f \<Longrightarrow> frq F4 h = frq F1 h"
      by auto
    let ?s4 = "?s3\<lparr>lf_keys := K4, lf_freqs := F4\<rparr>"
    have "evict s = Inr ?s4" using True by (simp only: run K4(1) simp_thms if_True)
    moreover have "vl K4 a = vl ?K a" if "a \<noteq> n" "a \<noteq> sent ?F f" for a using that K4(3) K2(4) r1(3,4) by simp
    moreover have "frq F4 h = frq ?F h" if "h \<noteq> f" for h using that K4(4) r1(5) by simp
    ultimately show ?thesis using True K4(2) by (intro exI [of _ ?s4]) simp
  qed
qed

lemma lfu_evict_refines:
  assumes rep: "lfu_rep s ((f, xs @ [n]) # B)"
  shows "\<exists>s1 M1. evict s = Inr s1 \<and> lfu_rep s1 M1 \<and> lfu_abs s1 M1 = spec_evict (lfu_abs s ((f, xs @ [n]) # B))"
proof -
  let ?h = "lf_head s" and ?K = "lf_keys s" and ?F = "lf_freqs s" and ?M = "(f, xs @ [n]) # B"
  let ?M1 = "(if xs = [] then [] else [(f, xs)]) @ B"
  have ok: "lists_ok ?K ?F ((?h, []) # ?M)" using rep by (simp add: lfu_rep_def)
  obtain kp where kp: "vl ?K n = Some kp" using lfu_rep_vl [OF rep, of f "xs @ [n]" n] by auto
  obtain s1 where s1: "evict s = Inr s1" "lists_ok (lf_keys s1) (lf_freqs s1) ((?h, []) # ?M1)" "lf_head s1 = ?h" "lf_capacity s1 = lf_capacity s"
      "lf_kmap s1 = AList.delete (key_key kp) (lf_kmap s)" "lf_fmap s1 = AList.delete (key_key kp) (lf_fmap s)"
      "\<And>a. a \<noteq> n \<Longrightarrow> a \<noteq> sent ?F f \<Longrightarrow> vl (lf_keys s1) a = vl ?K a" "xs \<noteq> [] \<Longrightarrow> frq (lf_freqs s1) f = frq ?F f"
      "\<And>h. h \<noteq> f \<Longrightarrow> frq (lf_freqs s1) h = frq ?F h"
    using evict_run [OF ok kp] by blast
  have dist: "distinct (map fst ((?h, []) # ?M))" "distinct (nodes ?F ((?h, []) # ?M))" using ok by (simp_all add: lists_ok_def)
  have vl1: "vl (lf_keys s1) a = vl ?K a" if "(g, ns) \<in> set ?M" "a \<in> set ns" "a \<noteq> n" for g ns a
    using s1(7) [OF that(3)] key_node_not_sentinel [OF ok, of g ns f "xs @ [n]" a] that by auto
  have sub: "\<exists>ns'. (g, ns') \<in> set ?M \<and> set ns \<subseteq> set ns' \<and> n \<notin> set ns" if "(g, ns) \<in> set ?M1" for g ns
  proof (cases "(g, ns) \<in> set B")
    case True
    then have "set ns \<subseteq> set (nodes ?F B)" unfolding nodes_iff subset_iff by auto
    then have "n \<notin> set ns" using dist(2) by auto
    then show ?thesis using True by auto
  next
    case False
    then have "g = f" "ns = xs" "xs \<noteq> []" using that by (auto split: if_splits)
    then show ?thesis using dist(2) by (intro exI [of _ "xs @ [n]"]) auto
  qed
  have vlM1: "vl (lf_keys s1) a = vl ?K a \<and> vl ?K a \<noteq> None" if a: "(g, ns) \<in> set ?M1" "a \<in> set ns" for g ns a
  proof -
    obtain ns' where ns': "(g, ns') \<in> set ?M" "a \<in> set ns'" "a \<noteq> n" using sub [OF a(1)] a(2) by blast
    from vl1 [OF ns'] lfu_rep_vl [OF rep ns'(1,2)] show ?thesis by simp
  qed
  have mo: "maps_ok (lf_keys s1) ?M1 (AList.delete (key_key kp) (lf_kmap s)) (AList.delete (key_key kp) (lf_fmap s))"
  proof (rule maps_ok_delete [OF _ kp])
    show "maps_ok ?K ?M (lf_kmap s) (lf_fmap s)" using rep unfolding lfu_rep_def by blast
    show "distinct (map fst ?M)" using dist(1) by simp
    show "\<And>g ns a. (g, ns) \<in> set ?M \<Longrightarrow> a \<in> set ns \<Longrightarrow> a \<noteq> n \<Longrightarrow> vl (lf_keys s1) a = vl ?K a" by (rule vl1)
  qed
  have ne': "ns \<noteq> []" if "(g, ns) \<in> set ?M1" for g ns
  proof (cases "(g, ns) \<in> set B")
    case True
    then have "(g, ns) \<in> set ?M" by simp
    then show ?thesis using rep unfolding lfu_rep_def by blast
  qed (use that in \<open>simp split: if_splits\<close>)
  have hz: "frq ?F ?h = 0" using rep unfolding lfu_rep_def by blast
  have hf: "?h \<noteq> f" "f \<notin> fst ` set B" using dist(1) by auto
  have "lfu_rep s1 ?M1"
  proof (rule lfu_repI)
    show "frq (lf_freqs s1) (lf_head s1) = 0" using s1(3) s1(9) [OF hf(1)] hz by simp
    show "vl (lf_keys s1) a \<noteq> None" if "(g, ns) \<in> set ?M1" "a \<in> set ns" for g ns a using vlM1 [OF that] by simp
    show "ns \<noteq> []" if "(g, ns) \<in> set ?M1" for g ns using ne' [OF that] .
  qed (use s1(2,3) mo s1(5,6) in \<open>simp_all only:\<close>)
  moreover have "bks (lf_keys s1) (lf_freqs s1) ?M1 = take_from (frq ?F f) (ent ?K n) (bks ?K ?F ?M)"
  proof -
    have "bks (lf_keys s1) (lf_freqs s1) ?M1 = bks ?K ?F ?M1"
    proof (rule bks_cong)
      fix g ns assume g: "(g, ns) \<in> set ?M1"
      have "frq (lf_freqs s1) g = frq ?F g"
      proof (cases "g = f")
        case True
        then have "xs \<noteq> []" using g hf(2) by (force split: if_splits)
        then show ?thesis using True s1(8) by simp
      qed (use s1(9) in simp)
      then show "frq (lf_freqs s1) g = frq ?F g \<and> (\<forall>a \<in> set ns. vl (lf_keys s1) a = vl ?K a)" using vlM1 [OF g] by blast
    qed
    also have "\<dots> = take_from (frq ?F f) (ent ?K n) (bks ?K ?F ?M)"
      using remove_ent [of n xs ?K] dist(2) by auto
    finally show ?thesis .
  qed
  ultimately show ?thesis
    using s1(1,4,5) kp by (intro exI [of _ s1] exI [of _ ?M1]) (simp add: lfu_abs_def spec_evict_def ent_def)
qed

text \<open>The maps with a new key node.\<close>

lemma maps_ok_add:
  assumes m: "maps_ok K M kmap fmap" and kp: "vl K1 n = Some kp" and M: "M = (g, ms) # B1 \<or> ms = [] \<and> B1 = M"
    and vl1: "\<And>h ns a. (h, ns) \<in> set M \<Longrightarrow> a \<in> set ns \<Longrightarrow> vl K1 a = vl K a"
  shows "maps_ok K1 ((g, n # ms) # B1) (AList.update (key_key kp) n kmap) (AList.update (key_key kp) g fmap)"
proof -
  let ?key = "key_key kp" and ?M1 = "(g, n # ms) # B1"
  have "\<exists>h ns kp'. map_of (AList.update ?key g fmap) k = Some h \<and> (h, ns) \<in> set ?M1 \<and> a \<in> set ns \<and> vl K1 a = Some kp' \<and> key_key kp' = k"
    if a: "map_of (AList.update ?key n kmap) k = Some a" for k a
  proof (cases "k = ?key")
    case True
    with a kp show ?thesis by (intro exI [of _ g] exI [of _ "n # ms"] exI [of _ kp]) (auto simp: update_conv)
  next
    case False
    then have "map_of kmap k = Some a" using a by (simp add: update_conv)
    with m obtain h ns kp' where h: "map_of fmap k = Some h" "(h, ns) \<in> set M" "a \<in> set ns" "vl K a = Some kp'" "key_key kp' = k"
      unfolding maps_ok_def by blast
    have "\<exists>ns1. (h, ns1) \<in> set ?M1 \<and> a \<in> set ns1"
    proof (cases "(h, ns) \<in> set B1")
      case True
      then show ?thesis using h(3) by (intro exI [of _ ns]) auto
    next
      case False
      then have "h = g" "ns = ms" using h(2) M by auto
      then show ?thesis using h(3) by (intro exI [of _ "n # ms"]) auto
    qed
    then show ?thesis using h(1,4,5) vl1 [OF h(2,3)] False by (auto simp: update_conv)
  qed
  moreover have "distinct (map fst (AList.update ?key n kmap))" using m by (simp add: maps_ok_def distinct_update)
  moreover have "dom (map_of (AList.update ?key g fmap)) = dom (map_of (AList.update ?key n kmap))"
    using m by (simp add: maps_ok_def update_conv')
  ultimately show ?thesis unfolding maps_ok_def by blast
qed

text \<open>The second half of \<open>set()\<close>: a new key node at frequency one.\<close>

lemma lfu_store_refines:
  assumes rep: "lfu_rep s M" and K: "nd_new \<lparr>key_key = key, key_value = v\<rparr> (lf_keys s) = (n, K)"
  shows "\<exists>s1 M1. addfreq n (lf_head s) (s\<lparr>lf_keys := K\<rparr>) = Inr s1 \<and> lf_kmap s1 = lf_kmap s \<and>
    lfu_rep (s1\<lparr>lf_kmap := AList.update key n (lf_kmap s)\<rparr>) M1 \<and>
    lfu_abs (s1\<lparr>lf_kmap := AList.update key n (lf_kmap s)\<rparr>) M1 =
      (lfu_abs s M)\<lparr>sp_buckets := add_to 1 (n, key, v) (sp_buckets (lfu_abs s M)), sp_live := AList.update key n (lf_kmap s)\<rparr>"
proof -
  let ?h = "lf_head s" and ?F = "lf_freqs s" and ?kp = "\<lparr>key_key = key, key_value = v\<rparr>"
  have ok: "lists_ok (lf_keys s) ?F ((?h, []) # M)" and hz: "frq ?F ?h = 0" using rep by (simp_all add: lfu_rep_def)
  have "lf_keys s \<noteq> []" using ok by (simp add: lists_ok_def)
  from nd_new_ok [OF this, of ?kp] K have n: "n = length (lf_keys s)"
    and K1: "nx K = (nx (lf_keys s))(n \<mapsto> 0)" "pv K = (pv (lf_keys s))(n \<mapsto> 0)" "vl K = (vl (lf_keys s))(n \<mapsto> ?kp)" "K \<noteq> []"
    by auto
  have out: "n \<notin> set (nodes ?F ((?h, []) # M))" using lists_ok_vl_node [OF ok] fresh_address n by blast
  have ok1: "lists_ok K ?F ((?h, []) # M)" by (rule lists_ok_forget [OF ok out K1(1,2,4)])
  let ?s0 = "s\<lparr>lf_keys := K\<rparr>"
  have pre: "lists_ok (lf_keys ?s0) (lf_freqs ?s0) ((?h, []) # M)" "?h = lf_head ?s0" "vl (lf_keys ?s0) n = Some ?kp"
      "n \<notin> set (nodes (lf_freqs ?s0) ((?h, []) # M))"
    using ok1 out K1(3) by simp_all
  have eqs: "lf_keys ?s0 = K" "lf_freqs ?s0 = ?F" "lf_fmap ?s0 = lf_fmap s" "key_key ?kp = key" by simp_all
  obtain g ms B1 s1 where a: "addfreq n ?h ?s0 = Inr s1"
      "lists_ok (lf_keys s1) (lf_freqs s1) ((?h, []) # (g, n # ms) # B1)"
      "M = (g, ms) # B1 \<or> ms = [] \<and> B1 = M \<and> g \<notin> fst ` set M \<and> (\<forall>h ns. (h, ns) \<in> set M \<longrightarrow> frq ?F ?h + 1 < frq ?F h)"
      "frq (lf_freqs s1) g = frq ?F ?h + 1" "lf_fmap s1 = AList.update key g (lf_fmap s)"
      "same_parts ?s0 {a. vl K a \<noteq> None} (fst ` set ((?h, []) # M)) s1"
    using addfreq_new [OF pre] unfolding eqs by blast
  have sp: "lf_head s1 = ?h" "lf_capacity s1 = lf_capacity s" "lf_kmap s1 = lf_kmap s" using a(6) by (simp_all add: same_parts_def)
  have gB: "M = (g, ms) # B1 \<or> ms = [] \<and> B1 = M" using a(3) by blast
  have fr: "h \<in> fst ` set ((?h, []) # M) \<Longrightarrow> frq (lf_freqs s1) h = frq ?F h" for h using a(6) unfolding same_parts_def eqs by blast
  have vn: "vl (lf_keys s1) n = Some ?kp" using a(6) K1(3) unfolding same_parts_def by simp
  have vl1: "vl (lf_keys s1) b = vl (lf_keys s) b \<and> b \<noteq> n" if "(h, ns) \<in> set M" "b \<in> set ns" for h ns b
  proof -
    have "vl (lf_keys s) b \<noteq> None" by (rule lfu_rep_vl [OF rep that])
    moreover then have "b \<noteq> n" using n fresh_address by metis
    ultimately show ?thesis using a(6) K1(3) unfolding same_parts_def by simp
  qed
  have in1: "(h, ns) \<in> set M \<or> h = g \<and> ns = n # ms \<and> (ms = [] \<or> (g, ms) \<in> set M)" if "(h, ns) \<in> set ((g, n # ms) # B1)" for h ns
    using that gB by auto
  let ?s2 = "s1\<lparr>lf_kmap := AList.update key n (lf_kmap s)\<rparr>" and ?M1 = "(g, n # ms) # B1"
  have "lfu_rep ?s2 ?M1"
  proof (rule lfu_repI)
    show "lists_ok (lf_keys ?s2) (lf_freqs ?s2) ((lf_head ?s2, []) # ?M1)" using a(2) sp(1) by simp
    show "frq (lf_freqs ?s2) (lf_head ?s2) = 0" using fr [of ?h] sp(1) hz by simp
    show "ns \<noteq> []" if "(h, ns) \<in> set ?M1" for h ns using in1 [OF that] rep unfolding lfu_rep_def by blast
    show "vl (lf_keys ?s2) b \<noteq> None" if b: "(h, ns) \<in> set ?M1" "b \<in> set ns" for h ns b
    proof (cases "b = n")
      case False
      with in1 [OF b(1)] b(2) obtain h' ns' where "(h', ns') \<in> set M" "b \<in> set ns'" by auto
      from vl1 [OF this] lfu_rep_vl [OF rep this] show ?thesis by simp
    qed (use vn in simp)
    have "maps_ok (lf_keys s) M (lf_kmap s) (lf_fmap s)" using rep unfolding lfu_rep_def by blast
    from maps_ok_add [OF this vn gB] vl1
    show "maps_ok (lf_keys ?s2) ?M1 (lf_kmap ?s2) (lf_fmap ?s2)" using a(5) by simp
  qed
  moreover have "bks (lf_keys s1) (lf_freqs s1) ?M1 = add_to 1 (n, key, v) (bks (lf_keys s) ?F M)"
  proof -
    have same: "bks (lf_keys s1) (lf_freqs s1) Z = bks (lf_keys s) ?F Z" if Z: "set Z \<subseteq> set M" for Z
    proof (rule bks_cong)
      fix h ns assume "(h, ns) \<in> set Z"
      then have h: "(h, ns) \<in> set M" using Z by (rule rev_subsetD)
      then have "h \<in> fst ` set ((?h, []) # M)" by force
      with fr vl1 [OF h] show "frq (lf_freqs s1) h = frq ?F h \<and> (\<forall>b \<in> set ns. vl (lf_keys s1) b = vl (lf_keys s) b)" by simp
    qed
    have e: "ent (lf_keys s1) n = (n, key, v)" using vn by (simp add: ent_def)
    show ?thesis
    proof (cases "M = (g, ms) # B1")
      case True
      then have "set B1 \<subseteq> set M" "set [(g, ms)] \<subseteq> set M" by auto
      from this [THEN same] show ?thesis using True a(4) hz e by simp
    next
      case False
      then have M: "ms = []" "B1 = M" "\<And>r es. (r, es) \<in> set (bks (lf_keys s) ?F M) \<Longrightarrow> 1 < r" using a(3) hz by (auto dest!: bks_freq)
      then show ?thesis using same [of M] a(4) hz e add_to_front [of "bks (lf_keys s) ?F M" 1 "(n, key, v)"] by simp
    qed
  qed
  ultimately show ?thesis using a(1) sp by (intro exI [of _ s1] exI [of _ ?M1]) (simp add: lfu_abs_def)
qed

text \<open>The addresses that the specification knows; the address of a new node is none of them.\<close>

definition entries :: "buckets \<Rightarrow> entry set" where
  "entries bs = (\<Union>(q, es) \<in> set bs. set es)"

definition known :: "lfu_spec \<Rightarrow> nat set" where
  "known sp = fst ` entries (sp_buckets sp) \<union> ran (map_of (sp_live sp))"

lemma entries_simps [simp]:
  "entries [] = {}"
  "entries ((q, es) # bs) = set es \<union> entries bs"
  by (simp_all add: entries_def)

lemma entries_bks: "e \<in> entries (bks K F M) \<longleftrightarrow> (\<exists>f ns n. (f, ns) \<in> set M \<and> n \<in> set ns \<and> e = ent K n)"
  unfolding entries_def bks_def by force

lemma lfu_rep_known: "lfu_rep s M \<Longrightarrow> n \<in> known (lfu_abs s M) \<Longrightarrow> vl (lf_keys s) n \<noteq> None"
proof -
  assume rep: "lfu_rep s M" and n: "n \<in> known (lfu_abs s M)"
  have "\<exists>f ns. (f, ns) \<in> set M \<and> n \<in> set ns"
  proof (cases "n \<in> ran (map_of (lf_kmap s))")
    case True
    then show ?thesis using rep unfolding lfu_rep_def maps_ok_def ran_def by blast
  next
    case False
    then have "n \<in> fst ` entries (bks (lf_keys s) (lf_freqs s) M)" using n by (simp add: known_def lfu_abs_def)
    then show ?thesis by (force simp: entries_bks ent_def)
  qed
  then show ?thesis using lfu_rep_vl [OF rep] by blast
qed

lemma lfu_set_refines:
  assumes rep: "lfu_rep s M" and cap: "lf_capacity s \<noteq> 0"
  shows "\<exists>s1 M1 n. LFUCache_set key v s = Inr s1 \<and> lfu_rep s1 M1 \<and> n \<notin> known (spec_room (lfu_abs s M)) \<and>
    lfu_abs s1 M1 = spec_store n key v (spec_room (lfu_abs s M))"
proof -
  let ?full = "length (lf_kmap s) = lf_capacity s"
  obtain s1 M1 where s1: "(if ?full then evict s else Inr s) = Inr s1" "lfu_rep s1 M1"
      "lfu_abs s1 M1 = spec_room (lfu_abs s M)"
  proof (cases ?full)
    case True
    then have "lf_kmap s \<noteq> []" using cap by auto
    then obtain k n where "map_of (lf_kmap s) k = Some n" by (cases "lf_kmap s") fastforce+
    then obtain f ns where "(f, ns) \<in> set M" using rep unfolding lfu_rep_def maps_ok_def by blast
    then obtain g ms B where M: "M = (g, ms) # B" by (cases M) auto
    then have "ms \<noteq> []" using rep unfolding lfu_rep_def by auto
    then obtain xs m where "ms = xs @ [m]" by (metis append_butlast_last_id)
    with M rep lfu_evict_refines [of s g xs m B] obtain s1 M1 where "evict s = Inr s1" "lfu_rep s1 M1"
        "lfu_abs s1 M1 = spec_evict (lfu_abs s M)"
      by blast
    then show ?thesis using that [of s1 M1] True by (simp add: spec_room_def lfu_abs_def)
  qed (use rep that [of s M] in \<open>simp add: spec_room_def lfu_abs_def\<close>)
  obtain n K where K: "nd_new \<lparr>key_key = key, key_value = v\<rparr> (lf_keys s1) = (n, K)" by fastforce
  obtain s2 M2 where s2: "addfreq n (lf_head s1) (s1\<lparr>lf_keys := K\<rparr>) = Inr s2" "lf_kmap s2 = lf_kmap s1"
      "lfu_rep (s2\<lparr>lf_kmap := AList.update key n (lf_kmap s1)\<rparr>) M2"
      "lfu_abs (s2\<lparr>lf_kmap := AList.update key n (lf_kmap s1)\<rparr>) M2 =
        (lfu_abs s1 M1)\<lparr>sp_buckets := add_to 1 (n, key, v) (sp_buckets (lfu_abs s1 M1)), sp_live := AList.update key n (lf_kmap s1)\<rparr>"
    using lfu_store_refines [OF s1(2) K] by blast
  have "lf_keys s1 \<noteq> []" using s1(2) by (simp add: lfu_rep_def lists_ok_def)
  from nd_new_ok [OF this, of "\<lparr>key_key = key, key_value = v\<rparr>"] K have "n = length (lf_keys s1)" by auto
  then have "n \<notin> known (lfu_abs s1 M1)" using lfu_rep_known [OF s1(2)] fresh_address by blast
  moreover have "LFUCache_set key v s = Inr (s2\<lparr>lf_kmap := AList.update key n (lf_kmap s1)\<rparr>)"
    using cap s1(1) K s2(1,2) by (simp add: LFUCache_set_def)
  moreover have "lfu_abs (s2\<lparr>lf_kmap := AList.update key n (lf_kmap s1)\<rparr>) M2 = spec_store n key v (lfu_abs s1 M1)"
    unfolding s2(4) by (simp add: spec_store_def lfu_abs_def)
  ultimately show ?thesis using s2(3) s1(3) by metis
qed

lemma lfu_init_rep: "\<exists>s. init_with c = Inr s \<and> lfu_rep s [] \<and> lfu_abs s [] = \<lparr>sp_capacity = c, sp_buckets = [], sp_live = []\<rparr>"
  by (simp add: init_with_def new_freq_def KeyList_init_def nd_new_def setNext_def setValue_def nd_at_def
    lfu_rep_def lfu_abs_def lists_ok_def klist_def maps_ok_def frq_def sent_def vl_def nx_def pv_def mem_def dll_def)

end
