(* ===== verification/TA_LFURuns.thy ===== *)
theory TA_LFURuns
  imports TA_LFUSpec
begin

text \<open>
  Sequences of \<open>get()\<close> and \<open>set()\<close> on the cache of \<open>src/cache/LFUCache.cpp\<close>, from the empty cache that
  \<open>init()\<close> builds: they follow the specification of \<open>TA_LFUSpec\<close> without a fault, a hit returns the value
  stored last, and what bounds the number of keys, with the case in which nothing does.
\<close>

section \<open>Runs\<close>

datatype lfu_op = OpGet string | OpSet string string

fun lfu_run :: "lfu_op list \<Rightarrow> lfu \<Rightarrow> (string option list \<times> lfu) res" where
  "lfu_run [] s = Inr ([], s)"
| "lfu_run (OpGet k # ops) s =
     bind_res (LFUCache_get k [] s) (\<lambda>(hit, v, s1).
     bind_res (lfu_run ops s1) (\<lambda>(rs, s2). Inr ((if hit then Some v else None) # rs, s2)))"
| "lfu_run (OpSet k v # ops) s = bind_res (LFUCache_set k v s) (lfu_run ops)"

text \<open>Buckets in the order of their frequencies, none empty, no node in two places.\<close>

definition spec_ok :: "lfu_spec \<Rightarrow> bool" where
  "spec_ok sp \<longleftrightarrow> sorted_wrt (<) (map fst (sp_buckets sp)) \<and> (\<forall>(q, es) \<in> set (sp_buckets sp). es \<noteq> []) \<and>
     distinct (map fst (concat (map snd (sp_buckets sp))))"

inductive spec_run :: "lfu_spec \<Rightarrow> lfu_op list \<Rightarrow> string option list \<Rightarrow> lfu_spec \<Rightarrow> bool" where
  run_done: "spec_ok sp \<Longrightarrow> spec_run sp [] [] sp"
| run_get: "spec_ok sp \<Longrightarrow> spec_get k sp = (r, sp1) \<Longrightarrow> spec_run sp1 ops rs sp2 \<Longrightarrow> spec_run sp (OpGet k # ops) (r # rs) sp2"
| run_set: "spec_ok sp \<Longrightarrow> n \<notin> known (spec_room sp) \<Longrightarrow> spec_run (spec_store n k v (spec_room sp)) ops rs sp2 \<Longrightarrow>
    spec_run sp (OpSet k v # ops) rs sp2"

definition no_entries :: "nat \<Rightarrow> lfu_spec" where
  "no_entries c = \<lparr>sp_capacity = c, sp_buckets = [], sp_live = []\<rparr>"

lemma spec_capacity [simp]:
  "sp_capacity (snd (spec_get k sp)) = sp_capacity sp"
  "sp_capacity (spec_evict sp) = sp_capacity sp"
  "sp_capacity (spec_room sp) = sp_capacity sp"
  "sp_capacity (spec_store n k v sp) = sp_capacity sp"
  by (simp_all add: spec_get_def spec_evict_def spec_room_def spec_store_def split: option.splits prod.splits list.splits)

lemma lfu_rep_ok:
  assumes "lfu_rep s M"
  shows "spec_ok (lfu_abs s M)"
proof -
  let ?bs = "bks (lf_keys s) (lf_freqs s) M"
  have ok: "lists_ok (lf_keys s) (lf_freqs s) ((lf_head s, []) # M)" using assms by (simp add: lfu_rep_def)
  have ids: "map fst (concat (map snd (bks K F M))) = concat (map snd M)" for K F
    by (induction M) (auto simp: ent_def comp_def)
  have sub: "set (concat (map snd M)) \<subseteq> set (nodes F M)" for F M by (induction M) auto
  have dist: "distinct (nodes F M) \<Longrightarrow> distinct (concat (map snd M))" for F
  proof (induction M)
    case (Cons m M)
    then show ?case using sub [of M F] by (cases m) fastforce
  qed simp
  have "map fst ?bs = map (\<lambda>(f, ns). frq (lf_freqs s) f) M" by (auto simp: bks_def)
  then have "sorted_wrt (<) (map fst ?bs)" using ok by (simp add: lists_ok_def)
  moreover have "distinct (nodes (lf_freqs s) M)" using ok by (simp add: lists_ok_def)
  moreover have "\<forall>(q, es) \<in> set ?bs. es \<noteq> []" using assms by (fastforce simp: lfu_rep_def bks_def)
  ultimately show ?thesis using dist by (simp add: spec_ok_def lfu_abs_def ids)
qed

lemma lfu_run_refines:
  assumes "lfu_rep s M" and "lf_capacity s \<noteq> 0"
  shows "\<exists>rs s1 M1. lfu_run ops s = Inr (rs, s1) \<and> lfu_rep s1 M1 \<and> spec_run (lfu_abs s M) ops rs (lfu_abs s1 M1)"
  using assms
proof (induction ops arbitrary: s M)
  case Nil
  then show ?case using spec_run.run_done lfu_rep_ok by fastforce
next
  case (Cons op ops)
  have cap: "lf_capacity s = sp_capacity (lfu_abs s M)" for s M by (simp add: lfu_abs_def)
  show ?case
  proof (cases op)
    case (OpGet k)
    let ?r = "spec_get k (lfu_abs s M)"
    obtain s1 M1 where g: "LFUCache_get k [] s = Inr (case fst ?r of None \<Rightarrow> (False, [], s1) | Some x \<Rightarrow> (True, [] @ x, s1))"
        "lfu_rep s1 M1" "lfu_abs s1 M1 = snd ?r"
      using lfu_get_refines [OF Cons.prems] by blast
    have "lf_capacity s1 \<noteq> 0" using Cons.prems(2) g(3) cap by (metis spec_capacity(1))
    from Cons.IH [OF g(2) this] obtain rs s2 M2 where r: "lfu_run ops s1 = Inr (rs, s2)" "lfu_rep s2 M2"
        "spec_run (lfu_abs s1 M1) ops rs (lfu_abs s2 M2)"
      by blast
    have "lfu_run (op # ops) s = Inr (fst ?r # rs, s2)" using g(1) r(1) OpGet by (simp split: option.splits)
    moreover have "spec_run (lfu_abs s M) (op # ops) (fst ?r # rs) (lfu_abs s2 M2)"
      unfolding OpGet by (rule spec_run.run_get [OF lfu_rep_ok [OF Cons.prems(1)] _ r(3)]) (simp add: g(3))
    ultimately show ?thesis using r(2) by blast
  next
    case (OpSet k v)
    obtain s1 M1 n where g: "LFUCache_set k v s = Inr s1" "lfu_rep s1 M1" "n \<notin> known (spec_room (lfu_abs s M))"
        "lfu_abs s1 M1 = spec_store n k v (spec_room (lfu_abs s M))"
      using lfu_set_refines [OF Cons.prems] by blast
    have "lf_capacity s1 \<noteq> 0" using Cons.prems(2) g(4) cap by (metis spec_capacity(3,4))
    from Cons.IH [OF g(2) this] obtain rs s2 M2 where r: "lfu_run ops s1 = Inr (rs, s2)" "lfu_rep s2 M2"
        "spec_run (lfu_abs s1 M1) ops rs (lfu_abs s2 M2)"
      by blast
    have "lfu_run (op # ops) s = Inr (rs, s2)" using g(1) r(1) OpSet by simp
    moreover have "spec_run (lfu_abs s M) (op # ops) rs (lfu_abs s2 M2)"
      unfolding OpSet using lfu_rep_ok [OF Cons.prems(1)] g(3) r(3) unfolding g(4) by (rule spec_run.run_set)
    ultimately show ?thesis using r(2) by blast
  qed
qed

text \<open>C1: On a cache of any capacity but zero (the code's is 100), every sequence of lookups and stores runs to its end without
  following a null or dangling pointer; the results of the lookups are those of the specification, and the lists and hash
  maps represent the specification's state at the end.
\<close>

theorem lfu_refines_spec:
  assumes "c \<noteq> 0"
  shows "\<exists>s0 rs s M. init_with c = Inr s0 \<and> lfu_run ops s0 = Inr (rs, s) \<and> lfu_rep s M \<and>
    spec_run (no_entries c) ops rs (lfu_abs s M)"
proof -
  obtain s0 where s0: "init_with c = Inr s0" "lfu_rep s0 []" "lfu_abs s0 [] = no_entries c"
    using lfu_init_rep unfolding no_entries_def by blast
  have "lf_capacity s0 \<noteq> 0" using arg_cong [OF s0(3), of sp_capacity] assms by (simp add: lfu_abs_def no_entries_def)
  from lfu_run_refines [OF s0(2) this, of ops] s0 show ?thesis by metis
qed

theorem lfu_refines_spec_witness:
  "\<exists>rs s M. bind_res LFUCache_init (lfu_run [OpSet ''a'' ''1'', OpGet ''a'', OpGet ''b'', OpSet ''a'' ''2'', OpGet ''a'']) = Inr (rs, s) \<and>
    lfu_rep s M \<and> rs = [Some ''1'', None, Some ''2'']"
proof -
  let ?ops = "[OpSet ''a'' ''1'', OpGet ''a'', OpGet ''b'', OpSet ''a'' ''2'', OpGet ''a'']"
  obtain s0 rs s M where r: "init_with 100 = Inr s0" "lfu_run ?ops s0 = Inr (rs, s)" "lfu_rep s M"
    using lfu_refines_spec [of 100 ?ops] by auto
  have "bind_res (bind_res (init_with 100) (lfu_run ?ops)) (\<lambda>(rs, s). Inr rs) = Inr [Some ''1'', None, Some ''2'']"
    by code_simp
  then show ?thesis using r by (auto simp: LFUCache_init_def)
qed

section \<open>What a lookup returns\<close>

inductive_cases run_doneE: "spec_run sp [] rs sp2"
inductive_cases run_getE: "spec_run sp (OpGet k # ops) rs sp2"
inductive_cases run_setE: "spec_run sp (OpSet k v # ops) rs sp2"

text \<open>The value stored last under each key.\<close>

fun last_vals :: "lfu_op list \<Rightarrow> (string \<rightharpoonup> string) \<Rightarrow> string \<rightharpoonup> string" where
  "last_vals [] L = L"
| "last_vals (OpGet k # ops) L = last_vals ops L"
| "last_vals (OpSet k v # ops) L = last_vals ops (L(k \<mapsto> v))"

lemma entries_add_to [simp]: "entries (add_to q e bs) = insert e (entries bs)"
  by (induction q e bs rule: add_to.induct) auto

lemma entries_take_from: "entries (take_from q e bs) \<subseteq> entries bs"
  by (induction q e bs rule: take_from.induct) auto

lemma locate_entry: "locate n bs = Some (q, e) \<Longrightarrow> e \<in> entries bs \<and> fst e = n"
  by (induction n bs rule: locate.induct) (auto simp: find_Some_iff split: option.splits)

lemma entries_get: "entries (sp_buckets (snd (spec_get k sp))) \<subseteq> entries (sp_buckets sp)"
  using entries_take_from by (fastforce simp: spec_get_def dest: locate_entry split: option.splits)

lemma live_get [simp]: "sp_live (snd (spec_get k sp)) = sp_live sp"
  by (simp add: spec_get_def split: option.splits prod.splits)

lemma entries_room: "entries (sp_buckets (spec_room sp)) \<subseteq> entries (sp_buckets sp)"
proof (cases "sp_buckets sp")
  case (Cons b bs)
  then show ?thesis by (cases b) (auto simp: spec_room_def spec_evict_def)
qed (simp add: spec_room_def spec_evict_def)

lemma live_room: "map_of (sp_live (spec_room sp)) k = Some n \<Longrightarrow> map_of (sp_live sp) k = Some n"
  by (auto simp: spec_room_def spec_evict_def delete_conv split: list.splits if_splits)

definition holds_last :: "(string \<rightharpoonup> string) \<Rightarrow> lfu_spec \<Rightarrow> bool" where
  "holds_last L sp \<longleftrightarrow> (\<forall>k n. \<forall>e \<in> entries (sp_buckets sp). map_of (sp_live sp) k = Some n \<and> fst e = n \<longrightarrow> L k = Some (snd (snd e)))"

lemma holds_last_get: "holds_last L sp \<Longrightarrow> holds_last L (snd (spec_get k sp))"
  unfolding holds_last_def using entries_get [of k sp] by auto

lemma holds_last_set:
  assumes "holds_last L sp" and "n \<notin> known (spec_room sp)"
  shows "holds_last (L(k \<mapsto> v)) (spec_store n k v (spec_room sp))"
proof -
  have "holds_last L (spec_room sp)" using assms(1) entries_room [of sp] live_room [of sp] unfolding holds_last_def by blast
  then show ?thesis using assms(2) unfolding holds_last_def spec_store_def known_def
    by (auto simp: update_conv ran_def split: if_splits)
qed

lemma spec_run_last: "spec_run sp ops rs sp2 \<Longrightarrow> holds_last L sp \<Longrightarrow> holds_last (last_vals ops L) sp2"
proof (induction arbitrary: L rule: spec_run.induct)
  case (run_get sp k r sp1 ops rs sp2)
  then show ?case using holds_last_get [of L sp k] by simp
next
  case (run_set sp n k v ops rs sp2)
  then show ?case using holds_last_set [of L sp n k v] by simp
qed simp

lemma lfu_run_from_init:
  assumes "c \<noteq> 0" and "init_with c = Inr s0"
  shows "\<exists>rs s M. lfu_run ops s0 = Inr (rs, s) \<and> lfu_rep s M \<and> lf_capacity s = c \<and> spec_run (no_entries c) ops rs (lfu_abs s M)"
proof -
  have s0: "lfu_rep s0 []" "lfu_abs s0 [] = no_entries c" "lf_capacity s0 = c"
    using lfu_init_rep [of c] assms(2) by (auto simp: no_entries_def lfu_abs_def)
  obtain rs s M where r: "lfu_run ops s0 = Inr (rs, s)" "lfu_rep s M" "spec_run (no_entries c) ops rs (lfu_abs s M)"
    using lfu_run_refines [OF s0(1)] s0 assms(1) by metis
  have "spec_run sp ops rs sp2 \<Longrightarrow> sp_capacity sp2 = sp_capacity sp" for sp ops rs sp2
    by (induction rule: spec_run.induct) (simp_all, metis spec_capacity(1) snd_conv)
  from this [OF r(3)] have "lf_capacity s = c" by (simp add: lfu_abs_def no_entries_def)
  with r show ?thesis by blast
qed

lemma lfu_live_hits:
  assumes rep: "lfu_rep s M" and k: "map_of (lf_kmap s) k = Some n"
  shows "fst (spec_get k (lfu_abs s M)) \<noteq> None"
proof -
  obtain f ns where f: "(f, ns) \<in> set M" "n \<in> set ns" using rep k unfolding lfu_rep_def maps_ok_def by blast
  obtain A xs ys B where AB: "M = A @ (f, xs @ n # ys) # B" using in_split_lists [OF f] by blast
  have "distinct (nodes (lf_freqs s) M)" using rep by (simp add: lfu_rep_def lists_ok_def)
  then have "locate n (bks (lf_keys s) (lf_freqs s) M) \<noteq> None"
    unfolding AB by (subst locate_bks) auto
  then show ?thesis using k by (auto simp: spec_get_def lfu_abs_def)
qed

lemma spec_run_stored: "spec_run sp (ops @ [OpSet k v]) rs sp2 \<Longrightarrow> \<exists>n. map_of (sp_live sp2) k = Some n"
proof (induction ops arbitrary: sp rs)
  case Nil
  then show ?case by (auto elim!: run_setE run_doneE simp: spec_store_def update_conv)
next
  case (Cons op ops)
  then show ?case by (cases op) (auto elim!: run_setE run_getE)
qed

lemma spec_hit_value: "holds_last L sp \<Longrightarrow> fst (spec_get k sp) = Some x \<Longrightarrow> L k = Some x"
  by (auto simp: spec_get_def holds_last_def dest!: locate_entry split: option.splits)

text \<open>After any sequence of lookups and stores on an empty cache, a lookup that hits returns the value stored last under its
  key, whatever was evicted between; and the lookup right after a store of the key hits.
\<close>

theorem lfu_hit_last_value:
  assumes "c \<noteq> 0" and "init_with c = Inr s0" and "lfu_run ops s0 = Inr (rs, s)"
  shows "\<exists>hit x s1. LFUCache_get k [] s = Inr (hit, x, s1) \<and> (hit \<longrightarrow> last_vals ops Map.empty k = Some x) \<and>
    (\<forall>ops1 v. ops = ops1 @ [OpSet k v] \<longrightarrow> hit)"
proof -
  obtain M where M: "lfu_rep s M" "lf_capacity s = c" "spec_run (no_entries c) ops rs (lfu_abs s M)"
    using lfu_run_from_init [OF assms(1,2), of ops] assms(3) by auto
  let ?r = "fst (spec_get k (lfu_abs s M))"
  obtain s1 where g: "LFUCache_get k [] s = Inr (case ?r of None \<Rightarrow> (False, [], s1) | Some x \<Rightarrow> (True, [] @ x, s1))"
    using lfu_get_refines [OF M(1), of k "[]"] M(2) assms(1) by blast
  have "holds_last Map.empty (no_entries c)" by (simp add: holds_last_def no_entries_def)
  from spec_hit_value [OF spec_run_last [OF M(3) this]]
  have val: "?r = Some x \<Longrightarrow> last_vals ops Map.empty k = Some x" for x .
  have "?r \<noteq> None" if e: "ops = ops1 @ [OpSet k v]" for ops1 v
  proof -
    obtain n where "map_of (sp_live (lfu_abs s M)) k = Some n" using spec_run_stored M(3) unfolding e by blast
    then show ?thesis using lfu_live_hits [OF M(1)] by (simp add: lfu_abs_def)
  qed
  then show ?thesis using g val by (cases ?r) auto
qed

theorem lfu_hit_last_value_witness:
  "\<exists>s0 rs s x s1. init_with 2 = Inr s0 \<and> lfu_run [OpSet ''a'' ''1'', OpSet ''b'' ''2'', OpGet ''b'', OpSet ''c'' ''3'', OpSet ''b'' ''4''] s0 = Inr (rs, s) \<and>
    LFUCache_get ''b'' [] s = Inr (True, x, s1) \<and> x = ''4''"
proof -
  let ?ops = "[OpSet ''a'' ''1'', OpSet ''b'' ''2'', OpGet ''b'', OpSet ''c'' ''3'', OpSet ''b'' ''4'']"
  obtain s0 where s0: "init_with 2 = Inr s0" using lfu_init_rep by blast
  obtain rs s where r: "lfu_run ?ops s0 = Inr (rs, s)" using lfu_run_from_init [OF _ s0, of ?ops] by auto
  from lfu_hit_last_value [OF _ s0 r, of "''b''"] obtain hit x s1 where h: "LFUCache_get ''b'' [] s = Inr (hit, x, s1)"
      "hit \<longrightarrow> last_vals ?ops Map.empty ''b'' = Some x" "\<forall>ops1 v. ?ops = ops1 @ [OpSet ''b'' v] \<longrightarrow> hit"
    by auto
  have "hit" using h(3) [rule_format, of "take 4 ?ops" "''4''"] by simp
  then show ?thesis using s0 r h(1,2) by (intro exI [of _ s0] exI [of _ rs] exI [of _ s] exI [of _ x] exI [of _ s1]) simp
qed

section \<open>Stores after a miss\<close>

text \<open>
  The static server stores a key only when looking it up has missed. Then the entries are those of the keys in the map, one
  each, with the values the loader gives.
\<close>

definition mirrors :: "(string \<rightharpoonup> string) \<Rightarrow> lfu_spec \<Rightarrow> bool" where
  "mirrors load sp \<longleftrightarrow> (\<forall>n k v. (n, k, v) \<in> entries (sp_buckets sp) \<longleftrightarrow> map_of (sp_live sp) k = Some n \<and> load k = Some v) \<and>
     dom (map_of (sp_live sp)) \<subseteq> dom load \<and> distinct (map fst (sp_live sp)) \<and> length (sp_live sp) \<le> sp_capacity sp"

lemma entries_set: "entries bs = set (concat (map snd bs))"
  by (auto simp: entries_def)

lemma removeAll_Nil: "removeAll x xs = [] \<longleftrightarrow> set xs \<subseteq> {x}"
  by (induction xs) auto

text \<open>The eviction takes one entry and its key.\<close>

lemma evict_takes:
  assumes ok: "spec_ok sp" and b: "sp_buckets sp = (q, es) # bs"
  shows "entries (sp_buckets (spec_evict sp)) = entries (sp_buckets sp) - {last es}" and "last es \<in> entries (sp_buckets sp)"
proof -
  have es: "es \<noteq> []" using ok b by (simp add: spec_ok_def)
  then show l: "last es \<in> entries (sp_buckets sp)" using b by simp
  have d: "distinct (map fst es @ map fst (concat (map snd bs)))" using ok b by (simp add: spec_ok_def)
  have "last es \<notin> entries bs"
  proof
    assume "last es \<in> entries bs"
    then have "fst (last es) \<in> set (map fst (concat (map snd bs)))" unfolding entries_set set_map by (rule imageI)
    moreover have "fst (last es) \<in> set (map fst es)" using es by simp
    ultimately show False using d unfolding distinct_append by blast
  qed
  then show "entries (sp_buckets (spec_evict sp)) = entries (sp_buckets sp) - {last es}"
    using b by (auto simp: spec_evict_def removeAll_Nil)
qed

lemma mirrors_room:
  assumes m: "mirrors load sp" and ok: "spec_ok sp" and cap: "sp_capacity sp \<noteq> 0"
  shows "mirrors load (spec_room sp)" and "length (sp_live (spec_room sp)) < sp_capacity sp"
proof -
  have "mirrors load (spec_room sp) \<and> length (sp_live (spec_room sp)) < sp_capacity sp"
  proof (cases "length (sp_live sp) = sp_capacity sp")
    case False
    then show ?thesis using m by (simp add: spec_room_def mirrors_def)
  next
    case True
    then obtain k0 n0 where "map_of (sp_live sp) k0 = Some n0" using cap by (cases "sp_live sp") fastforce+
    then have "entries (sp_buckets sp) \<noteq> {}" using m unfolding mirrors_def by blast
    then obtain q es bs where b: "sp_buckets sp = (q, es) # bs" by (cases "sp_buckets sp") auto
    obtain n k v where e: "last es = (n, k, v)" by (metis prod_cases3)
    let ?live = "AList.delete k (sp_live sp)"
    have r: "spec_room sp = spec_evict sp" "sp_live (spec_evict sp) = ?live" using True b e by (simp_all add: spec_room_def spec_evict_def)
    have k: "map_of (sp_live sp) k = Some n" "load k = Some v" using evict_takes(2) [OF ok b] m unfolding e mirrors_def by blast+
    then have "k \<in> set (map fst (sp_live sp))" by (force dest: map_of_SomeD)
    then have len: "length ?live < length (sp_live sp)" by (metis delete_keys length_map length_removeAll_less)
    have "(n', k', v') \<in> entries (sp_buckets (spec_evict sp)) \<longleftrightarrow> map_of ?live k' = Some n' \<and> load k' = Some v'" for n' k' v'
      using m k unfolding evict_takes(1) [OF ok b] e mirrors_def by (auto simp: delete_conv simp del: map_of_eq_Some_iff)
    moreover have "dom (map_of ?live) \<subseteq> dom load" using m by (auto simp: mirrors_def delete_conv')
    moreover have "distinct (map fst ?live)" using m by (simp add: mirrors_def distinct_delete)
    ultimately show ?thesis using len True by (simp add: mirrors_def r)
  qed
  then show "mirrors load (spec_room sp)" and "length (sp_live (spec_room sp)) < sp_capacity sp" by simp_all
qed

lemma mirrors_store:
  assumes m: "mirrors load sp" and n: "n \<notin> known sp" and k: "map_of (sp_live sp) k = None" "load k = Some v"
    and len: "length (sp_live sp) < sp_capacity sp"
  shows "mirrors load (spec_store n k v sp)"
proof -
  have "k \<notin> set (map fst (sp_live sp))" using k(1) by (simp add: map_of_eq_None_iff)
  then have "length (map fst (AList.update k n (sp_live sp))) = Suc (length (sp_live sp))" by (simp only: update_keys) simp
  moreover have "distinct (map fst (AList.update k n (sp_live sp)))" using m by (simp add: mirrors_def distinct_update)
  moreover have "dom (map_of (AList.update k n (sp_live sp))) \<subseteq> dom load" using m k(2) by (auto simp: mirrors_def update_conv')
  ultimately show ?thesis using m k len by (auto simp: mirrors_def spec_store_def update_conv)
qed

text \<open>A lookup moves an entry and keeps the set of entries.\<close>

lemma entries_take_from_other: "e' \<in> entries bs \<Longrightarrow> e' \<noteq> e \<Longrightarrow> e' \<in> entries (take_from q e bs)"
  by (induction q e bs rule: take_from.induct) (auto simp: removeAll_Nil split: if_splits)

lemma entries_move: "r \<noteq> q \<Longrightarrow> e \<in> entries (take_from q e (add_to r e bs))"
  by (induction r e bs rule: add_to.induct) (auto split: if_splits)

lemma entry_unique:
  assumes "spec_ok sp" and "e \<in> entries (sp_buckets sp)" and "e' \<in> entries (sp_buckets sp)" and "fst e = fst e'"
  shows "e = e'"
  using assms unfolding spec_ok_def entries_set by (metis eq_key_imp_eq_value prod.collapse)

lemma mirrors_get:
  assumes "mirrors load sp"
  shows "mirrors load (snd (spec_get k sp))" and "spec_ok sp \<Longrightarrow> fst (spec_get k sp) = Some x \<Longrightarrow> load k = Some x"
proof -
  have "entries (sp_buckets (snd (spec_get k sp))) = entries (sp_buckets sp)"
  proof (rule antisym [OF entries_get], rule subsetI)
    fix e' assume "e' \<in> entries (sp_buckets sp)"
    then show "e' \<in> entries (sp_buckets (snd (spec_get k sp)))"
    proof (cases "\<exists>n q e. map_of (sp_live sp) k = Some n \<and> locate n (sp_buckets sp) = Some (q, e)")
      case True
      then obtain n q e where e: "map_of (sp_live sp) k = Some n" "locate n (sp_buckets sp) = Some (q, e)" by blast
      have "e' \<in> entries (take_from q e (add_to (q + 1) e (sp_buckets sp)))"
        using \<open>e' \<in> entries (sp_buckets sp)\<close> entries_move [of "q + 1" q e] entries_take_from_other by (cases "e' = e") simp_all
      then show ?thesis using e by (simp add: spec_get_def)
    qed (auto simp: spec_get_def split: option.splits)
  qed
  then show "mirrors load (snd (spec_get k sp))" using assms by (simp add: mirrors_def)
  show "load k = Some x" if ok: "spec_ok sp" and x: "fst (spec_get k sp) = Some x"
  proof -
    obtain n q e where e: "map_of (sp_live sp) k = Some n" "e \<in> entries (sp_buckets sp)" "fst e = n" "snd (snd e) = x"
      using x by (auto simp: spec_get_def dest!: locate_entry split: option.splits)
    obtain v where v: "load k = Some v" using assms e(1) unfolding mirrors_def by blast
    then have "(n, k, v) \<in> entries (sp_buckets sp)" using assms e(1) unfolding mirrors_def by blast
    from entry_unique [OF ok this e(2)] e(3,4) v show ?thesis by auto
  qed
qed

text \<open>A lookup, and a store of what the loader gives when it misses; nothing is stored for what the loader does not have.\<close>

definition lfu_fetch :: "(string \<rightharpoonup> string) \<Rightarrow> string \<Rightarrow> lfu \<Rightarrow> (string option \<times> lfu) res" where
  "lfu_fetch load k s =
     bind_res (LFUCache_get k [] s) (\<lambda>(hit, x, s1).
       if hit then Inr (Some x, s1)
       else case load k of None \<Rightarrow> Inr (None, s1) | Some v \<Rightarrow> bind_res (LFUCache_set k v s1) (\<lambda>s2. Inr (Some v, s2)))"

fun lfu_fetches :: "(string \<rightharpoonup> string) \<Rightarrow> string list \<Rightarrow> lfu \<Rightarrow> (string option list \<times> lfu) res" where
  "lfu_fetches load [] s = Inr ([], s)"
| "lfu_fetches load (k # ks) s =
     bind_res (lfu_fetch load k s) (\<lambda>(r, s1). bind_res (lfu_fetches load ks s1) (\<lambda>(rs, s2). Inr (r # rs, s2)))"

definition mirrored :: "(string \<rightharpoonup> string) \<Rightarrow> nat \<Rightarrow> lfu \<Rightarrow> bool" where
  "mirrored load c s \<longleftrightarrow> lf_capacity s = c \<and> (\<exists>M. lfu_rep s M \<and> mirrors load (lfu_abs s M))"

lemma mirrored_init: "\<exists>s. init_with c = Inr s \<and> mirrored load c s"
  using lfu_init_rep [of c] by (force simp: mirrored_def mirrors_def lfu_abs_def)

lemma mirrored_bound: "mirrored load c s \<Longrightarrow> length (lf_kmap s) \<le> c"
  by (auto simp: mirrored_def mirrors_def lfu_abs_def)

lemma lfu_fetch_mirrored:
  assumes "mirrored load c s" and c: "c \<noteq> 0"
  shows "\<exists>s1. lfu_fetch load k s = Inr (load k, s1) \<and> mirrored load c s1"
proof -
  obtain M where M: "lfu_rep s M" "mirrors load (lfu_abs s M)" "lf_capacity s = c" using assms(1) by (auto simp: mirrored_def)
  let ?r = "spec_get k (lfu_abs s M)"
  obtain s1 M1 where g: "LFUCache_get k [] s = Inr (case fst ?r of None \<Rightarrow> (False, [], s1) | Some x \<Rightarrow> (True, [] @ x, s1))"
      "lfu_rep s1 M1" "lfu_abs s1 M1 = snd ?r"
    using lfu_get_refines [OF M(1)] M(3) c by blast
  have m1: "mirrors load (lfu_abs s1 M1)" unfolding g(3) by (rule mirrors_get(1) [OF M(2)])
  have cap: "sp_capacity (lfu_abs s1 M1) = c" unfolding g(3) using M(3) by simp (simp add: lfu_abs_def)
  then have cap1: "lf_capacity s1 = c" by (simp add: lfu_abs_def)
  show ?thesis
  proof (cases "fst ?r")
    case (Some x)
    then have "load k = Some x" by (rule mirrors_get(2) [OF M(2) lfu_rep_ok [OF M(1)]])
    then show ?thesis using g(1,2) Some m1 cap1 by (auto simp: lfu_fetch_def mirrored_def)
  next
    case None
    then have miss: "map_of (lf_kmap s) k = None" using lfu_live_hits [OF M(1), of k] by (cases "map_of (lf_kmap s) k") auto
    show ?thesis
    proof (cases "load k")
      case None
      then show ?thesis using \<open>fst ?r = None\<close> g(1,2) m1 cap1 by (auto simp: lfu_fetch_def mirrored_def)
    next
      case (Some v)
      obtain s2 M2 n where t: "LFUCache_set k v s1 = Inr s2" "lfu_rep s2 M2" "n \<notin> known (spec_room (lfu_abs s1 M1))"
          "lfu_abs s2 M2 = spec_store n k v (spec_room (lfu_abs s1 M1))"
        using lfu_set_refines [OF g(2)] cap1 c by blast
      note room = mirrors_room [OF m1 lfu_rep_ok [OF g(2)]]
      have "map_of (sp_live (lfu_abs s1 M1)) k = None" using miss by (simp add: g(3)) (simp add: lfu_abs_def)
      then have "map_of (sp_live (spec_room (lfu_abs s1 M1))) k = None" using live_room by (metis not_None_eq)
      then have "mirrors load (lfu_abs s2 M2)"
        unfolding t(4) by (intro mirrors_store room t(3) Some) (use room(2) cap c in simp_all)
      moreover have "lf_capacity s2 = c" using arg_cong [OF t(4), of sp_capacity] cap by (simp add: lfu_abs_def)
      ultimately show ?thesis using \<open>fst ?r = None\<close> g(1) t(1,2) Some by (auto simp: lfu_fetch_def mirrored_def)
    qed
  qed
qed

text \<open>
  What a client of a cache relies on: a fetch gives what the loader gives and keeps the cache good. Then a
  handler that answers each request by one fetch answers every sequence of requests as if there were no cache.
\<close>

locale loader_cache =
  fixes load :: "'k \<Rightarrow> 'v option" and fetch :: "'k \<Rightarrow> 's \<Rightarrow> ('v option \<times> 's) res" and good :: "'s \<Rightarrow> bool"
  assumes fetch_good: "good s \<Longrightarrow> \<exists>t. fetch k s = Inr (load k, t) \<and> good t"
begin

lemma handles_all:
  assumes run: "\<And>s. run [] s = Inr ([], s)"
      "\<And>x xs s. run (x # xs) s = bind_res (handle x s) (\<lambda>(r, t). bind_res (run xs t) (\<lambda>(rs, u). Inr (r # rs, u)))"
    and handle: "\<And>x s. handle x s = bind_res (fetch (key x) s) (\<lambda>(r, t). Inr (answer x r, t))" and s: "good s"
  shows "\<exists>t. run xs s = Inr (map (\<lambda>x. answer x (load (key x))) xs, t) \<and> good t"
  using s
proof (induction xs arbitrary: s)
  case Nil
  then show ?case by (simp add: run(1))
next
  case (Cons x xs)
  obtain t where t: "fetch (key x) s = Inr (load (key x), t)" "good t" using fetch_good [OF Cons.prems] by blast
  with Cons.IH [OF t(2)] show ?case by (auto simp: run(2) handle)
qed

end

text \<open>The capacity is fixed by \<open>init_with (Suc n)\<close>, so it is not zero.\<close>

interpretation lfc: loader_cache load "lfu_fetch load" "mirrored load (Suc n)" for load n
  by unfold_locales (rule lfu_fetch_mirrored, simp_all)

lemma lfu_fetches_mirrored:
  assumes "mirrored load c s" and "c \<noteq> 0"
  shows "\<exists>t. lfu_fetches load ks s = Inr (map load ks, t) \<and> mirrored load c t"
proof -
  obtain n where n: "c = Suc n" using assms(2) by (cases c) auto
  have "lfu_fetch load k s = bind_res (lfu_fetch load k s) (\<lambda>(r, t). Inr (r, t))" for k s
    by (cases "lfu_fetch load k s") auto
  then have "\<exists>t. lfu_fetches load ks s = Inr (map (\<lambda>k. load k) ks, t) \<and> mirrored load (Suc n) t"
    by (intro lfc.handles_all [where handle = "lfu_fetch load" and answer = "\<lambda>k r. r" and key = "\<lambda>k. k"]) (use assms(1) n in simp_all)
  then show ?thesis using n by simp
qed

text \<open>Used the way the static server uses it, with a store only after a miss, the cache is transparent and bounded: every
  sequence of fetches returns what the loader gives for each key, and there are never more keys than the capacity.
\<close>

theorem lfu_read_through:
  assumes "c \<noteq> 0"
  shows "\<exists>s0 s. init_with c = Inr s0 \<and> lfu_fetches load ks s0 = Inr (map load ks, s) \<and> length (lf_kmap s) \<le> c"
  using mirrored_init [of c load] lfu_fetches_mirrored [OF _ assms, of load] mirrored_bound by metis

theorem lfu_read_through_witness:
  "\<exists>s0 s. init_with 2 = Inr s0 \<and>
    lfu_fetches (\<lambda>k. if k = ''x'' then None else Some (k @ k)) [''a'', ''b'', ''x'', ''a'', ''c'', ''b'', ''a''] s0 =
      Inr ([Some ''aa'', Some ''bb'', None, Some ''aa'', Some ''cc'', Some ''bb'', Some ''aa''], s) \<and> length (lf_kmap s) \<le> 2"
  using lfu_read_through [of 2 "\<lambda>k. if k = ''x'' then None else Some (k @ k)" "[''a'', ''b'', ''x'', ''a'', ''c'', ''b'', ''a'']"] by simp

section \<open>A key stored twice\<close>

definition sets :: "(string \<times> string) list \<Rightarrow> lfu_op list" where
  "sets kvs = map (\<lambda>(k, v). OpSet k v) kvs"

lemma sets_simps [simp]: "sets [] = []" "sets ((k, v) # kvs) = OpSet k v # sets kvs" "sets (xs @ ys) = sets xs @ sets ys"
  by (simp_all add: sets_def)

lemma spec_run_append: "spec_run sp (ops1 @ ops2) rs sp2 \<Longrightarrow> \<exists>rs1 rs2 sp1. spec_run sp ops1 rs1 sp1 \<and> spec_run sp1 ops2 rs2 sp2"
proof (induction ops1 arbitrary: sp rs)
  case Nil
  have "spec_run sp ops rs sp2 \<Longrightarrow> spec_ok sp" for ops rs by (erule spec_run.cases) simp_all
  from run_done [OF this [OF Nil [simplified]]] Nil show ?case by auto
next
  case (Cons op ops1)
  then show ?case by (cases op) (auto elim!: run_getE run_setE intro: run_get run_set, (metis run_get run_set)+)
qed

lemma set_step:
  "spec_run sp (sets ((k, v) # kvs)) rs sp2 \<Longrightarrow> \<exists>n. n \<notin> known (spec_room sp) \<and> spec_run (spec_store n k v (spec_room sp)) (sets kvs) rs sp2"
  unfolding sets_simps by (erule run_setE) blast

lemma store_keys [simp]: "k \<notin> set (map fst (sp_live sp)) \<Longrightarrow> map fst (sp_live (spec_store n k v sp)) = map fst (sp_live sp) @ [k]"
  by (simp add: spec_store_def update_keys)

text \<open>While the map is not full nothing is evicted, and once it has more keys than the capacity nothing ever is.\<close>

lemma sets_grow:
  assumes "spec_run sp (sets kvs) rs sp2" and "distinct (map fst (sp_live sp) @ map fst kvs)"
    and "length (sp_live sp) + length kvs \<le> sp_capacity sp \<or> sp_capacity sp < length (sp_live sp)"
  shows "map fst (sp_live sp2) = map fst (sp_live sp) @ map fst kvs \<and> sp_capacity sp2 = sp_capacity sp \<and>
    (\<forall>es. sp_buckets sp = [(1, es)] \<longrightarrow> (\<exists>es1. sp_buckets sp2 = [(1, es1 @ es)]))"
  using assms
proof (induction kvs arbitrary: sp rs)
  case Nil
  then show ?case by (auto elim!: run_doneE)
next
  case (Cons kv kvs)
  obtain k v where kv: "kv = (k, v)" by (cases kv)
  obtain n where r: "spec_run (spec_store n k v (spec_room sp)) (sets kvs) rs sp2" using set_step [OF Cons.prems(1) [unfolded kv]] by blast
  have room: "spec_room sp = sp" using Cons.prems(3) by (auto simp: spec_room_def)
  let ?sp1 = "spec_store n k v sp"
  have keys: "map fst (sp_live ?sp1) = map fst (sp_live sp) @ [k]" using Cons.prems(2) kv by simp
  from arg_cong [OF keys, of length] have len: "length (sp_live ?sp1) = Suc (length (sp_live sp))" by simp
  have b: "sp_buckets ?sp1 = [(1, (n, k, v) # es)]" if "sp_buckets sp = [(1, es)]" for es using that by (simp add: spec_store_def)
  have "map fst (sp_live sp2) = map fst (sp_live ?sp1) @ map fst kvs \<and> sp_capacity sp2 = sp_capacity ?sp1 \<and>
      (\<forall>es. sp_buckets ?sp1 = [(1, es)] \<longrightarrow> (\<exists>es1. sp_buckets sp2 = [(1, es1 @ es)]))"
    by (rule Cons.IH [OF r [unfolded room]]) (use Cons.prems(2,3) kv keys len in auto)
  then show ?case using keys kv b by fastforce
qed

lemma evict_last:
  assumes "sp_buckets sp = [(1, es @ [(n, a, v)])]" and "length (sp_live sp) = sp_capacity sp"
  shows "map fst (sp_live (spec_room sp)) = removeAll a (map fst (sp_live sp))"
    and "sp_buckets (spec_room sp) = (if removeAll (n, a, v) es = [] then [] else [(1, removeAll (n, a, v) es)])"
  using assms by (simp_all add: spec_room_def spec_evict_def delete_keys)

text \<open>Two entries of one key, then keys that fill the map, then two more: the second of these finds the map full and makes no room.\<close>

lemma sets_overrun:
  assumes run: "spec_run (no_entries c) (sets ((a, v1) # (a, v2) # kvs @ [(k1, w1), (k2, w2)])) rs sp"
    and c: "2 \<le> c" "length kvs = c - 1" and d: "distinct (a # map fst kvs @ [k1, k2])"
  shows "map fst (sp_live sp) = map fst kvs @ [k1, k2]" and "sp_capacity sp = c"
proof -
  have full: "spec_room (no_entries c) = no_entries c" using c(1) by (simp add: spec_room_def no_entries_def)
  obtain n1 rs1 where 1: "spec_run (spec_store n1 a v1 (no_entries c)) (sets ((a, v2) # kvs @ [(k1, w1), (k2, w2)])) rs1 sp"
    using set_step [OF run] unfolding full by blast
  define sp1 where "sp1 = spec_store n1 a v1 (no_entries c)"
  have sp1: "sp_buckets sp1 = [(1, [(n1, a, v1)])]" "sp_live sp1 = [(a, n1)]" "sp_capacity sp1 = c"
    by (simp_all add: sp1_def spec_store_def no_entries_def)
  have full: "spec_room sp1 = sp1" using c(1) sp1 by (simp add: spec_room_def)
  obtain n2 rs2 where 2: "n2 \<notin> known sp1" "spec_run (spec_store n2 a v2 sp1) (sets (kvs @ [(k1, w1), (k2, w2)])) rs2 sp"
    using set_step [OF 1] full unfolding sp1_def [symmetric] by auto
  define sp2 where "sp2 = spec_store n2 a v2 sp1"
  have n2: "n2 \<noteq> n1" using 2(1) sp1 by (simp add: known_def)
  have sp2: "sp_buckets sp2 = [(1, [(n2, a, v2), (n1, a, v1)])]" "sp_live sp2 = [(a, n2)]" "sp_capacity sp2 = c"
    using sp1 by (simp_all add: sp2_def spec_store_def)
  obtain rs3 rs4 sp3 where 3: "spec_run sp2 (sets kvs) rs3 sp3" "spec_run sp3 (sets [(k1, w1), (k2, w2)]) rs4 sp"
    using 2(2) spec_run_append unfolding sp2_def [symmetric] sets_simps(3) by blast
  obtain es where sp3: "sp_buckets sp3 = [(1, (es @ [(n2, a, v2)]) @ [(n1, a, v1)])]" "map fst (sp_live sp3) = a # map fst kvs" "sp_capacity sp3 = c"
    using sets_grow [OF 3(1)] sp2 c d by auto
  have len3: "length (sp_live sp3) = sp_capacity sp3" using arg_cong [OF sp3(2), of length] sp3(3) c by simp
  have a: "a \<notin> set (map fst kvs @ [k1])" using d by auto
  have room3: "map fst (sp_live (spec_room sp3)) = map fst kvs" using evict_last(1) [OF sp3(1) len3] sp3(2) a by simp
  obtain es2 where b3: "sp_buckets (spec_room sp3) = [(1, es2 @ [(n2, a, v2)])]"
    using evict_last(2) [OF sp3(1) len3] n2 by simp
  obtain n3 rs5 where 4: "spec_run (spec_store n3 k1 w1 (spec_room sp3)) (sets [(k2, w2)]) rs5 sp" using set_step [OF 3(2)] by blast
  define sp4 where "sp4 = spec_store n3 k1 w1 (spec_room sp3)"
  have sp4: "sp_buckets sp4 = [(1, ((n3, k1, w1) # es2) @ [(n2, a, v2)])]" "map fst (sp_live sp4) = map fst kvs @ [k1]" "sp_capacity sp4 = c"
  proof -
    show "sp_buckets sp4 = [(1, ((n3, k1, w1) # es2) @ [(n2, a, v2)])]" using b3 by (simp add: sp4_def spec_store_def)
    show "map fst (sp_live sp4) = map fst kvs @ [k1]" unfolding sp4_def room3 [symmetric] by (rule store_keys) (use d room3 in auto)
    show "sp_capacity sp4 = c" using sp3(3) by (simp add: sp4_def)
  qed
  have len4: "length (sp_live sp4) = sp_capacity sp4" using arg_cong [OF sp4(2), of length] sp4(3) c by simp
  have room4: "map fst (sp_live (spec_room sp4)) = map fst kvs @ [k1]" using evict_last(1) [OF sp4(1) len4] sp4(2) a by simp
  obtain n4 where "sp = spec_store n4 k2 w2 (spec_room sp4)" using set_step [OF 4] unfolding sp4_def [symmetric] by (auto elim: run_doneE)
  then show "map fst (sp_live sp) = map fst kvs @ [k1, k2]" "sp_capacity sp = c"
    using store_keys [of k2 "spec_room sp4"] room4 d sp4(3) by auto
qed

text \<open>The bound on the number of keys is not kept when a key is stored twice (two threads that miss the same key do): the node
  of the first store stays in the list without being in the maps, and once it is what an eviction takes, a store
  finds the map full, makes no room in it, and leaves it with more keys than the capacity. The test is for equality,
  so from then on nothing is evicted and the cache keeps every key stored.
\<close>

theorem lfu_capacity_exceeded:
  assumes "2 \<le> c" and "init_with c = Inr s0" and "distinct (a # map fst kvs)" and "c < length kvs"
  shows "\<exists>rs s. lfu_run (sets ((a, v1) # (a, v2) # kvs)) s0 = Inr (rs, s) \<and> length (lf_kmap s) = length kvs"
proof -
  obtain rs s M where r: "lfu_run (sets ((a, v1) # (a, v2) # kvs)) s0 = Inr (rs, s)"
      "spec_run (no_entries c) (sets ((a, v1) # (a, v2) # kvs)) rs (lfu_abs s M)"
    using lfu_run_from_init [OF _ assms(2)] assms(1) by fastforce
  let ?xs = "take (c - 1) kvs"
  obtain k1 w1 k2 w2 ys where "drop (c - 1) kvs = (k1, w1) # (k2, w2) # ys"
  proof -
    have "2 \<le> length (drop (c - 1) kvs)" using assms(1,4) by simp
    then show ?thesis using that by (cases "drop (c - 1) kvs"; cases "tl (drop (c - 1) kvs)") auto
  qed
  then have kvs: "kvs = (?xs @ [(k1, w1), (k2, w2)]) @ ys" by (metis append.assoc append_Cons append_Nil append_take_drop_id)
  have len: "length ?xs = c - 1" using assms(4) by simp
  define xs where "xs = ?xs"
  note kvs = kvs [folded xs_def] and len = len [folded xs_def]
  have "sets ((a, v1) # (a, v2) # kvs) = sets ((a, v1) # (a, v2) # xs @ [(k1, w1), (k2, w2)]) @ sets ys" by (simp add: kvs)
  then obtain rs1 rs2 sp1 where s1: "spec_run (no_entries c) (sets ((a, v1) # (a, v2) # xs @ [(k1, w1), (k2, w2)])) rs1 sp1"
      "spec_run sp1 (sets ys) rs2 (lfu_abs s M)"
    using spec_run_append r(2) by metis
  have d: "distinct (a # map fst (xs @ [(k1, w1), (k2, w2)]) @ map fst ys)" using assms(3) unfolding kvs map_append .
  have o: "map fst (sp_live sp1) = map fst xs @ [k1, k2]" "sp_capacity sp1 = c"
    by (rule sets_overrun [OF s1(1) assms(1) len]; use d in simp)+
  have "length (map fst (sp_live sp1)) = c + 1" unfolding o(1) using len assms(1) by simp
  then have "c < length (sp_live sp1)" by simp
  then have "map fst (sp_live (lfu_abs s M)) = map fst xs @ [k1, k2] @ map fst ys"
    using sets_grow [OF s1(2)] o d by simp
  from arg_cong [OF this, of length] have "length (lf_kmap s) = length kvs" by (simp add: lfu_abs_def kvs)
  with r(1) show ?thesis by blast
qed

theorem lfu_capacity_exceeded_witness:
  "\<exists>s0 rs s. init_with 2 = Inr s0 \<and>
    lfu_run (sets [(''a'', ''1''), (''a'', ''2''), (''b'', ''3''), (''c'', ''4''), (''d'', ''5''), (''e'', ''6'')]) s0 = Inr (rs, s) \<and>
    length (lf_kmap s) = 4 \<and> lf_capacity s = 2"
proof -
  let ?kvs = "[(''b'', ''3''), (''c'', ''4''), (''d'', ''5''), (''e'', ''6'')]"
  obtain s0 where s0: "init_with 2 = Inr s0" using lfu_init_rep by blast
  obtain rs s where r: "lfu_run (sets ((''a'', ''1'') # (''a'', ''2'') # ?kvs)) s0 = Inr (rs, s)" "length (lf_kmap s) = 4"
    using lfu_capacity_exceeded [OF _ s0, of "''a''" ?kvs "''1''" "''2''"] by auto
  have "lf_capacity s = 2" using lfu_run_from_init [OF _ s0, of "sets ((''a'', ''1'') # (''a'', ''2'') # ?kvs)"] unfolding r(1) by auto
  then show ?thesis using s0 r by (intro exI [of _ s0] exI [of _ rs] exI [of _ s]) simp
qed

section \<open>The end of the cache\<close>

lemma destory_chain:
  assumes "dll (nx K) P p xs" and "distinct (p # xs)"
  shows "\<exists>K1. KeyList_destory p K = Inr K1 \<and> mem K1 = (\<lambda>a. if a \<in> set (p # xs) then None else mem K a)"
  using assms
proof (induction xs arbitrary: p K)
  case Nil
  then have "nx K p = Some 0" by (simp add: dll_def)
  then obtain n where n: "mem K p = Some n" "nd_next n = 0" by (metis nx_SomeD)
  then have "KeyList_destory p K = Inr (K[p := None])"
    using mem_SomeD [OF n(1)] by (subst KeyList_destory.simps) (simp add: KeyList_destory.simps [of 0])
  then show ?case using mem_update [OF n(1)] by (auto simp: fun_eq_iff)
next
  case (Cons x xs)
  then have l: "nx K p = Some x" "dll (nx K) P x xs" by (simp_all add: dll_def)
  then obtain n where n: "mem K p = Some n" "nd_next n = x" by (metis nx_SomeD)
  let ?K = "K[p := None]"
  have m: "mem ?K = (mem K)(p := None)" by (rule mem_update [OF n(1)])
  have "dll (nx ?K) P x xs" by (rule dll_frame [OF l(2)]) (use m Cons.prems(2) in \<open>auto simp: nx_def\<close>)
  from Cons.IH [OF this] Cons.prems(2) obtain K1 where "KeyList_destory x ?K = Inr K1" "mem K1 = (\<lambda>a. if a \<in> set (x # xs) then None else mem ?K a)"
    by auto
  moreover have "KeyList_destory p K = KeyList_destory x ?K"
    using n mem_SomeD [OF n(1)] by (subst KeyList_destory.simps) simp
  ultimately show ?case using m by (auto simp: fun_eq_iff)
qed

lemma dtor_step:
  assumes f: "nx (lf_freqs s) f = Some x" "vl (lf_freqs s) f = Some kl" and k: "klist (lf_keys s) kl ns"
  shows "\<exists>K. LFUCache_dtor f s = LFUCache_dtor x (s\<lparr>lf_keys := K, lf_freqs := (lf_freqs s)[f := None]\<rparr>) \<and>
    mem K = (\<lambda>a. if a \<in> set (sent (lf_freqs s) f # ns) then None else mem (lf_keys s) a) \<and>
    mem ((lf_freqs s)[f := None]) = (mem (lf_freqs s))(f := None)"
proof -
  obtain n where n: "mem (lf_freqs s) f = Some n" "nd_next n = x" using f(1) by (metis nx_SomeD)
  have kl: "nd_value n = kl" "sent (lf_freqs s) f = kl_head kl" using n(1) f(2) by (simp_all add: vl_def sent_def)
  obtain K where K: "KeyList_destory (kl_head kl) (lf_keys s) = Inr K"
      "mem K = (\<lambda>a. if a \<in> set (kl_head kl # ns) then None else mem (lf_keys s) a)"
    using destory_chain [of "lf_keys s" "pv (lf_keys s)" "kl_head kl" ns] k by (auto simp: klist_def)
  have "LFUCache_dtor f s = LFUCache_dtor x (s\<lparr>lf_keys := K, lf_freqs := (lf_freqs s)[f := None]\<rparr>)"
    using n kl(1) K(1) mem_SomeD [OF n(1)] by (subst LFUCache_dtor.simps) simp
  then show ?thesis using K(2) kl(2) mem_update [OF n(1)] by auto
qed

lemma dtor_chain:
  assumes "dll (nx (lf_freqs s)) P f (map fst L)" and "distinct (f # map fst L)" and "distinct (nodes (lf_freqs s) ((f, ns) # L))"
    and "\<And>g ms. (g, ms) \<in> set ((f, ns) # L) \<Longrightarrow> \<exists>kl. vl (lf_freqs s) g = Some kl \<and> klist (lf_keys s) kl ms"
  shows "\<exists>s1. LFUCache_dtor f s = Inr s1 \<and> mem (lf_keys s1) = (\<lambda>a. if a \<in> set (nodes (lf_freqs s) ((f, ns) # L)) then None else mem (lf_keys s) a) \<and>
    mem (lf_freqs s1) = (\<lambda>a. if a \<in> set (f # map fst L) then None else mem (lf_freqs s) a)"
  using assms
proof (induction L arbitrary: f ns s)
  case Nil
  then obtain kl where "vl (lf_freqs s) f = Some kl" "klist (lf_keys s) kl ns" "nx (lf_freqs s) f = Some 0" by (auto simp: dll_def)
  from dtor_step [OF this(3,1,2)] show ?case by (auto simp: LFUCache_dtor.simps [of 0] fun_eq_iff)
next
  case (Cons gm L)
  obtain g ms where gm: "gm = (g, ms)" by (cases gm)
  let ?F = "lf_freqs s" and ?K = "lf_keys s"
  have x: "nx ?F f = Some g" "dll (nx ?F) P g (map fst L)" using Cons.prems(1) gm by (simp_all add: dll_def)
  obtain kl where kl: "vl ?F f = Some kl" "klist ?K kl ns" using Cons.prems(4) [of f ns] by auto
  obtain K where K: "LFUCache_dtor f s = LFUCache_dtor g (s\<lparr>lf_keys := K, lf_freqs := ?F[f := None]\<rparr>)"
      "mem K = (\<lambda>a. if a \<in> set (sent ?F f # ns) then None else mem ?K a)" "mem (?F[f := None]) = (mem ?F)(f := None)"
    using dtor_step [OF x(1) kl] by blast
  let ?s = "s\<lparr>lf_keys := K, lf_freqs := ?F[f := None]\<rparr>"
  have out: "h \<noteq> f" if "h \<in> set (map fst (gm # L))" for h using that Cons.prems(2) by auto
  have same: "vl (lf_freqs ?s) h = vl ?F h" "nx (lf_freqs ?s) h = nx ?F h" "sent (lf_freqs ?s) h = sent ?F h" if "h \<in> set (map fst (gm # L))" for h
    using out [OF that] K(3) by (simp_all add: link_defs sent_def)
  have nodes: "nodes (lf_freqs ?s) (gm # L) = nodes ?F (gm # L)"
    by (rule nodes_cong) (use same(3) in simp)
  have "\<exists>s1. LFUCache_dtor g ?s = Inr s1 \<and>
      mem (lf_keys s1) = (\<lambda>a. if a \<in> set (nodes (lf_freqs ?s) ((g, ms) # L)) then None else mem (lf_keys ?s) a) \<and>
      mem (lf_freqs s1) = (\<lambda>a. if a \<in> set (g # map fst L) then None else mem (lf_freqs ?s) a)"
  proof (rule Cons.IH)
    show "dll (nx (lf_freqs ?s)) P g (map fst L)" by (rule dll_frame [OF x(2)]) (use same(2) gm in auto)
    show "distinct (nodes (lf_freqs ?s) ((g, ms) # L))" using nodes Cons.prems(3) gm by simp
    show "\<exists>kl. vl (lf_freqs ?s) h = Some kl \<and> klist (lf_keys ?s) kl hs" if h: "(h, hs) \<in> set ((g, ms) # L)" for h hs
    proof -
      obtain kl where k: "vl ?F h = Some kl" "klist ?K kl hs" using Cons.prems(4) [of h hs] h gm by auto
      have kh: "kl_head kl = sent ?F h" using k(1) by (simp add: sent_def)
      have "klist K kl hs"
      proof (rule klist_frame [OF k(2)])
        fix a assume "a \<in> set (kl_head kl # hs)"
        then have "a \<in> set (nodes ?F (gm # L))" using h gm kh unfolding nodes_iff by auto
        then have "a \<notin> set (sent ?F f # ns)" using Cons.prems(3) by auto
        then show "nx K a = nx ?K a \<and> pv K a = pv ?K a" using K(2) by (simp add: link_defs)
      qed
      moreover have "h \<in> set (map fst (gm # L))" using h gm by force
      ultimately show ?thesis using k(1) same(1) by simp
    qed
  qed (use Cons.prems(2) gm in simp)
  then show ?case using K gm nodes by (auto simp: fun_eq_iff)
qed

text \<open>The destructor frees every node of a cache in use, each once.\<close>

theorem lfu_dtor_frees:
  assumes "lfu_rep s M"
  shows "\<exists>s1. LFUCache_dtor (lf_head s) s = Inr s1 \<and>
    (\<forall>a \<in> set (nodes (lf_freqs s) ((lf_head s, []) # M)). mem (lf_keys s1) a = None) \<and>
    (\<forall>f \<in> set (lf_head s # map fst M). mem (lf_freqs s1) f = None)"
proof -
  have ok: "lists_ok (lf_keys s) (lf_freqs s) ((lf_head s, []) # M)" using assms by (simp add: lfu_rep_def)
  then have d: "dll (nx (lf_freqs s)) (pv (lf_freqs s)) (lf_head s) (map fst M)" "distinct (lf_head s # map fst M)"
      "distinct (nodes (lf_freqs s) ((lf_head s, []) # M))"
    by (simp_all add: lists_ok_def)
  have "\<exists>kl. vl (lf_freqs s) g = Some kl \<and> klist (lf_keys s) kl ms" if "(g, ms) \<in> set ((lf_head s, []) # M)" for g ms
    using lists_ok_at [OF ok that] by blast
  from dtor_chain [OF d this] obtain s1 where "LFUCache_dtor (lf_head s) s = Inr s1"
      "mem (lf_keys s1) = (\<lambda>a. if a \<in> set (nodes (lf_freqs s) ((lf_head s, []) # M)) then None else mem (lf_keys s) a)"
      "mem (lf_freqs s1) = (\<lambda>a. if a \<in> set (lf_head s # map fst M) then None else mem (lf_freqs s) a)"
    by blast
  then show ?thesis by (intro exI [of _ s1]) simp
qed

end
