(* ===== verification/TA_StaticServer.thy ===== *)
theory TA_StaticServer
  imports TA_HttpResponse TA_LFURuns
begin

text \<open>
  The static file server of the library (\<open>example/static_server_example.cpp\<close>): \<open>staticRequest\<close> answers from the cache, or
  reads the file and stores it. The file system is a parameter: for a path, nothing when \<open>stat(2)\<close> fails, otherwise the size and
  what \<open>open(2)\<close> and \<open>mmap(2)\<close> give, \<open>None\<close> when one of them fails. The requests are those of one loop
  thread, one after the other, as the program is configured.
\<close>

section \<open>The handler\<close>

type_synonym file_system = "string \<Rightarrow> (nat \<times> string option) option"

definition file_path :: "string \<Rightarrow> string" where
  "file_path path = (let p = ''./www'' @ path in if p = ''./www/'' then p @ ''index.html'' else p)"

text \<open>\<open>filepath.substr(filepath.rfind('.'))\<close>; every path starts with a dot, so there is one.\<close>

definition from_last_dot :: "string \<Rightarrow> string" where
  "from_last_dot p = rev (takeWhile (\<lambda>c. c \<noteq> CHR ''.'') (rev p) @ [CHR ''.''])"

text \<open>\<open>string(src_addr, size)\<close>: nothing is read for size 0; the address is bad when the mapping failed.\<close>

definition mapped_bytes :: "nat \<Rightarrow> string option \<Rightarrow> string res" where
  "mapped_bytes sz m = (if sz = 0 then Inr [] else case m of None \<Rightarrow> Inl Dangling | Some bytes \<Rightarrow> Inr (take sz bytes))"

definition found :: "string \<Rightarrow> string \<Rightarrow> http_response \<Rightarrow> http_response" where
  "found filepath ctx r =
     setBody ctx (resp_addHeader ''Server'' ''Muduo'' (setContentType (getMime (from_last_dot filepath))
       (setStatusMessage ''OK'' (setStatusCode k200Ok r))))"

definition staticRequest :: "file_system \<Rightarrow> http_request \<Rightarrow> http_response \<Rightarrow> lfu \<Rightarrow> (http_response \<times> lfu) res" where
  "staticRequest fs req resp cache =
     (let path = c_str (req_path req); filepath = file_path path
      in bind_res (LFUCache_get path [] cache) (\<lambda>(hit, ctx, cache1).
        if hit then Inr (found filepath ctx resp, cache1)
        else case fs filepath of
            None \<Rightarrow> Inr (resp, cache1)
          | Some (sz, m) \<Rightarrow>
              bind_res (mapped_bytes sz m) (\<lambda>ctx.
              bind_res (LFUCache_set path ctx cache1) (\<lambda>cache2. Inr (found filepath ctx resp, cache2)))))"

text \<open>A sequence of requests, each with the \<open>close\<close> flag of its response.\<close>

fun static_run :: "file_system \<Rightarrow> (http_request \<times> bool) list \<Rightarrow> lfu \<Rightarrow> (http_response list \<times> lfu) res" where
  "static_run fs [] cache = Inr ([], cache)"
| "static_run fs ((req, close) # reqs) cache =
     bind_res (staticRequest fs req (HttpResponse_ctor close) cache) (\<lambda>(r, cache1).
     bind_res (static_run fs reqs cache1) (\<lambda>(rs, cache2). Inr (r # rs, cache2)))"

section \<open>What is served\<close>

text \<open>The contents of the file of a path, when it can be mapped.\<close>

definition content_of :: "file_system \<Rightarrow> string \<rightharpoonup> string" where
  "content_of fs path =
     (case fs (file_path path) of
        None \<Rightarrow> None
      | Some (sz, m) \<Rightarrow> (case mapped_bytes sz m of Inl e \<Rightarrow> None | Inr bytes \<Rightarrow> Some bytes))"

definition mappable :: "file_system \<Rightarrow> bool" where
  "mappable fs \<longleftrightarrow> (\<forall>p sz. fs p = Some (sz, None) \<longrightarrow> sz = 0)"

definition served :: "file_system \<Rightarrow> http_request \<Rightarrow> bool \<Rightarrow> http_response" where
  "served fs req close =
     (case content_of fs (c_str (req_path req)) of
        None \<Rightarrow> HttpResponse_ctor close
      | Some bytes \<Rightarrow> found (file_path (c_str (req_path req))) bytes (HttpResponse_ctor close))"

lemma mapped_ok: "mappable fs \<Longrightarrow> fs p = Some (sz, m) \<Longrightarrow> \<exists>bytes. mapped_bytes sz m = Inr bytes"
  by (cases m) (auto simp: mapped_bytes_def mappable_def)

lemma staticRequest_fetch:
  assumes "mappable fs"
  shows "staticRequest fs req resp cache =
    bind_res (lfu_fetch (content_of fs) (c_str (req_path req)) cache) (\<lambda>(r, cache1). Inr (case r of
      None \<Rightarrow> resp | Some bytes \<Rightarrow> found (file_path (c_str (req_path req))) bytes resp, cache1))"
proof (cases "LFUCache_get (c_str (req_path req)) [] cache")
  case (Inr x)
  obtain hit ctx cache1 where x: "x = (hit, ctx, cache1)" by (cases x)
  show ?thesis
  proof (cases "\<not> hit \<and> fs (file_path (c_str (req_path req))) \<noteq> None")
    case True
    then obtain sz m where f: "fs (file_path (c_str (req_path req))) = Some (sz, m)" by auto
    from mapped_ok [OF assms f] obtain bytes where "mapped_bytes sz m = Inr bytes" by blast
    then show ?thesis using Inr x f True
      by (cases "LFUCache_set (c_str (req_path req)) bytes cache1") (simp_all add: staticRequest_def lfu_fetch_def content_of_def Let_def)
  next
    case False
    then consider hit | "\<not> hit" "fs (file_path (c_str (req_path req))) = None" by blast
    then show ?thesis using Inr x by cases (simp_all add: staticRequest_def lfu_fetch_def content_of_def Let_def)
  qed
qed (simp add: staticRequest_def lfu_fetch_def Let_def)

lemma static_run_served:
  assumes "mappable fs" and "mirrored (content_of fs) c cache" and "c \<noteq> 0"
  shows "\<exists>cache1. static_run fs reqs cache = Inr (map (\<lambda>(req, close). served fs req close) reqs, cache1) \<and> mirrored (content_of fs) c cache1"
proof -
  obtain n where n: "c = Suc n" using assms(3) by (cases c) auto
  let ?h = "\<lambda>(req, close). staticRequest fs req (HttpResponse_ctor close)"
  let ?key = "\<lambda>(req, close :: bool). c_str (req_path req)"
  let ?answer = "\<lambda>(req, close) r. case r of None \<Rightarrow> HttpResponse_ctor close
    | Some bytes \<Rightarrow> found (file_path (c_str (req_path req))) bytes (HttpResponse_ctor close)"
  have "\<exists>t. static_run fs reqs cache = Inr (map (\<lambda>x. ?answer x (content_of fs (?key x))) reqs, t) \<and> mirrored (content_of fs) (Suc n) t"
  proof (rule lfc.handles_all [where handle = ?h])
    show "static_run fs (x # xs) s = bind_res (?h x s) (\<lambda>(r, t). bind_res (static_run fs xs t) (\<lambda>(rs, u). Inr (r # rs, u)))" for x xs s
      by (cases x) simp
    show "?h x s = bind_res (lfu_fetch (content_of fs) (?key x) s) (\<lambda>(r, t). Inr (?answer x r, t))" for x s
      by (cases x) (simp add: staticRequest_fetch [OF assms(1)])
  qed (use assms(2) n in simp_all)
  moreover have "map (\<lambda>x. ?answer x (content_of fs (?key x))) reqs = map (\<lambda>(req, close). served fs req close) reqs"
    by (auto simp: served_def)
  ultimately show ?thesis using n by simp
qed

lemma getMime_ok: "header_ok (''Content-Type'', getMime suffix)"
proof -
  have "getMime suffix \<in> snd ` set Mimetype_init"
    unfolding getMime_def omap_index_def by (force split: option.splits dest: map_of_SomeD simp: Mimetype_init_def)
  moreover have "\<forall>v \<in> snd ` set Mimetype_init. header_ok (''Content-Type'', v)" by code_simp
  ultimately show ?thesis by blast
qed

lemma found_ok: "length bytes < 10 ^ 13 \<Longrightarrow> response_ok (found p bytes (HttpResponse_ctor close))"
  using getMime_ok [of "from_last_dot p"]
  by (auto simp: response_ok_def found_def setBody_def resp_addHeader_def setContentType_def setStatusMessage_def setStatusCode_def
      HttpResponse_ctor_def header_ok_def isspace_def)

lemma dec_status: "dec_nat 200 = ''200''" "dec_nat 0 = ''0''"
  by code_simp+

section \<open>Properties\<close>


definition demo_fs :: file_system where
  "demo_fs p = (if p = ''./www/index.html'' then Some (5, Some ''hello'') else if p = ''./www/a.txt'' then Some (1, Some ''a'') else None)"


text \<open>A path without a file is answered with status 0, not 404.\<close>

theorem missing_file_status_zero:
  "content_of fs (c_str (req_path req)) = None \<Longrightarrow> status_line (served fs req close) = ''HTTP/1.1 0 ''"
  by (simp add: served_def status_line_def HttpResponse_ctor_def status_value_def dec_status)

end
