(* ===== verification/TA_Inet.thy ===== *)
theory TA_Inet
  imports TA_Format
begin

unbundle bit_operations_syntax

text \<open>
  Addresses (\<open>src/Socket/InetAddress.h\<close>, \<open>InetAddress.cpp\<close>, the address functions of \<open>SocketHelp.cpp\<close>, and
  \<open>src/common/Endian.h\<close>).

  An \<open>InetAddress\<close> is a union of \<open>sockaddr_in\<close> and \<open>sockaddr_in6\<close>: a value is its image of 28 bytes, and a field is
  what is stored at its offset, so that a field written through one member is read through the other as in the source. The
  host is little-endian (x86-64). Constructors take the bytes that were in memory before, since they do not
  clear all of them. \<open>inet_pton\<close> and \<open>inet_ntop\<close> of the C library are modelled after their implementation in glibc.
\<close>

section \<open>Words in memory\<close>

definition byte_at :: "nat \<Rightarrow> 'a::len word \<Rightarrow> 8 word" where
  "byte_at i x = ucast (drop_bit (8 * i) x)"

definition le_bytes :: "nat \<Rightarrow> 'a::len word \<Rightarrow> 8 word list" where
  "le_bytes n x = map (\<lambda>i. byte_at i x) [0..<n]"

primrec of_le_bytes :: "8 word list \<Rightarrow> 'a::len word" where
  "of_le_bytes [] = 0"
| "of_le_bytes (b # bs) = ucast b OR push_bit 8 (of_le_bytes bs)"

definition get_bytes :: "nat \<Rightarrow> nat \<Rightarrow> 8 word list \<Rightarrow> 8 word list" where
  "get_bytes off n m = take n (drop off m)"

definition put_bytes :: "nat \<Rightarrow> 8 word list \<Rightarrow> 8 word list \<Rightarrow> 8 word list" where
  "put_bytes off bs m = take off m @ bs @ drop (off + length bs) m"

lemma bit_of_le_bytes:
  "bit (of_le_bytes bs :: 'a::len word) n \<longleftrightarrow>
     n < LENGTH('a) \<and> n div 8 < length bs \<and> bit (bs ! (n div 8)) (n mod 8)"
proof (induction bs arbitrary: n)
  case (Cons b bs)
  show ?case
  proof (cases "n < 8")
    case True
    then show ?thesis by (auto simp: bit_or_iff bit_push_bit_iff bit_ucast_iff dest: bit_imp_le_length)
  next
    case False
    then have "n div 8 = Suc ((n - 8) div 8)" "n mod 8 = (n - 8) mod 8"
      by (simp_all add: le_div_geq le_mod_geq)
    moreover have "\<not> bit b n" using False bit_imp_le_length [of b n] by auto
    ultimately show ?thesis using False Cons [of "n - 8"]
      by (auto simp: bit_or_iff bit_push_bit_iff bit_ucast_iff)
  qed
qed simp

lemma of_le_bytes_le_bytes [simp]: "LENGTH('a) = 8 * n \<Longrightarrow> of_le_bytes (le_bytes n x) = (x :: 'a::len word)"
  by (rule bit_word_eqI) (auto simp: bit_of_le_bytes le_bytes_def byte_at_def bit_ucast_iff bit_drop_bit_eq)

lemma length_le_bytes [simp]: "length (le_bytes n x) = n"
  by (simp add: le_bytes_def)

lemma le_bytes_of_le_bytes:
  assumes "8 * length bs \<le> LENGTH('a)"
  shows "le_bytes (length bs) (of_le_bytes bs :: 'a::len word) = bs"
proof (rule nth_equalityI)
  fix i
  assume i: "i < length (le_bytes (length bs) (of_le_bytes bs :: 'a word))"
  show "le_bytes (length bs) (of_le_bytes bs :: 'a word) ! i = bs ! i"
  proof (rule bit_word_eqI)
    fix k
    assume k: "k < LENGTH(8)"
    then have "(8 * i + k) div 8 = i" "(8 * i + k) mod 8 = k" by auto
    moreover have "8 * i + k < LENGTH('a)" using i k assms by simp
    ultimately show "bit (le_bytes (length bs) (of_le_bytes bs :: 'a word) ! i) k = bit (bs ! i) k"
      using i k by (simp add: le_bytes_def byte_at_def bit_ucast_iff bit_drop_bit_eq bit_of_le_bytes)
  qed
qed simp

lemma length_put_bytes [simp]: "off + length bs \<le> length m \<Longrightarrow> length (put_bytes off bs m) = length m"
  by (simp add: put_bytes_def)

lemma get_put_bytes [simp]:
  "off + length bs \<le> length m \<Longrightarrow> n = length bs \<Longrightarrow> get_bytes off n (put_bytes off bs m) = bs"
  by (simp add: get_bytes_def put_bytes_def min_def)

lemma get_put_bytes_other:
  assumes "off' + length bs \<le> length m" and "off + n \<le> off' \<or> off' + length bs \<le> off"
  shows "get_bytes off n (put_bytes off' bs m) = get_bytes off n m"
proof (rule nth_equalityI)
  show "length (get_bytes off n (put_bytes off' bs m)) = length (get_bytes off n m)"
    using length_put_bytes [OF assms(1)] by (simp add: get_bytes_def)
next
  fix i
  assume "i < length (get_bytes off n (put_bytes off' bs m))"
  then show "get_bytes off n (put_bytes off' bs m) ! i = get_bytes off n m ! i"
    using assms by (auto simp: get_bytes_def put_bytes_def nth_append)
qed

section \<open>Byte order\<close>

text \<open>\<open>htobe16\<close> and its relatives reverse the bytes on a little-endian host.\<close>

definition hostToNetwork64 :: "64 word \<Rightarrow> 64 word" where
  "hostToNetwork64 host64 = of_le_bytes (rev (le_bytes 8 host64))"

definition hostToNetwork32 :: "32 word \<Rightarrow> 32 word" where
  "hostToNetwork32 host32 = of_le_bytes (rev (le_bytes 4 host32))"

definition hostToNetwork16 :: "16 word \<Rightarrow> 16 word" where
  "hostToNetwork16 host16 = of_le_bytes (rev (le_bytes 2 host16))"

definition networkToHost64 :: "64 word \<Rightarrow> 64 word" where
  "networkToHost64 net64 = of_le_bytes (rev (le_bytes 8 net64))"

definition networkToHost32 :: "32 word \<Rightarrow> 32 word" where
  "networkToHost32 net32 = of_le_bytes (rev (le_bytes 4 net32))"

definition networkToHost16 :: "16 word \<Rightarrow> 16 word" where
  "networkToHost16 net16 = of_le_bytes (rev (le_bytes 2 net16))"

lemma swap_stored:
  "LENGTH('a) = 8 * n \<Longrightarrow> le_bytes n (of_le_bytes (rev (le_bytes n x)) :: 'a::len word) = rev (le_bytes n x)"
  using le_bytes_of_le_bytes [of "rev (le_bytes n x)", where 'a = 'a] by simp

text \<open>Both conversions are inverse, and what is stored of a converted word is its bytes, most significant first.\<close>

lemma network_host_inverse [simp]:
  "networkToHost64 (hostToNetwork64 a) = a" "networkToHost32 (hostToNetwork32 b) = b" "networkToHost16 (hostToNetwork16 c) = c"
  "hostToNetwork64 (networkToHost64 a) = a" "hostToNetwork32 (networkToHost32 b) = b" "hostToNetwork16 (networkToHost16 c) = c"
  by (simp_all add: networkToHost64_def hostToNetwork64_def networkToHost32_def hostToNetwork32_def networkToHost16_def
      hostToNetwork16_def swap_stored)

lemma stored_network_order:
  "le_bytes 8 (hostToNetwork64 a) = rev (le_bytes 8 a)" "le_bytes 4 (hostToNetwork32 b) = rev (le_bytes 4 b)"
  "le_bytes 2 (hostToNetwork16 c) = rev (le_bytes 2 c)"
  by (simp_all add: hostToNetwork64_def hostToNetwork32_def hostToNetwork16_def swap_stored)

section \<open>The union\<close>

type_synonym inet_address = "8 word list"

definition AF_INET :: "16 word" where "AF_INET = 2"
definition AF_INET6 :: "16 word" where "AF_INET6 = 10"

definition sizeof_sockaddr_in :: nat where "sizeof_sockaddr_in = 16"
definition sizeof_sockaddr_in6 :: nat where "sizeof_sockaddr_in6 = 28"

text \<open>The fields of \<open>sockaddr_in\<close> and \<open>sockaddr_in6\<close> at their offsets; family and port coincide.\<close>

definition sin_family :: "inet_address \<Rightarrow> 16 word" where
  "sin_family a = of_le_bytes (get_bytes 0 2 a)"

definition sin_port :: "inet_address \<Rightarrow> 16 word" where
  "sin_port a = of_le_bytes (get_bytes 2 2 a)"

definition s_addr :: "inet_address \<Rightarrow> 32 word" where
  "s_addr a = of_le_bytes (get_bytes 4 4 a)"

definition sin6_addr :: "inet_address \<Rightarrow> 8 word list" where
  "sin6_addr a = get_bytes 8 16 a"

definition set_family :: "16 word \<Rightarrow> inet_address \<Rightarrow> inet_address" where
  "set_family f a = put_bytes 0 (le_bytes 2 f) a"

definition set_port :: "16 word \<Rightarrow> inet_address \<Rightarrow> inet_address" where
  "set_port p a = put_bytes 2 (le_bytes 2 p) a"

definition set_s_addr :: "32 word \<Rightarrow> inet_address \<Rightarrow> inet_address" where
  "set_s_addr ip a = put_bytes 4 (le_bytes 4 ip) a"

definition set_sin6_addr :: "8 word list \<Rightarrow> inet_address \<Rightarrow> inet_address" where
  "set_sin6_addr ip a = put_bytes 8 ip a"

text \<open>\<open>bzero\<close> on the first \<open>n\<close> bytes.\<close>

definition clear_bytes :: "nat \<Rightarrow> inet_address \<Rightarrow> inet_address" where
  "clear_bytes n a = put_bytes 0 (replicate n 0) a"

definition kInaddrAny :: "32 word" where "kInaddrAny = 0"
definition kInaddrLoopback :: "32 word" where "kInaddrLoopback = 0x7F000001"
definition in6addr_any :: "8 word list" where "in6addr_any = replicate 16 0"
definition in6addr_loopback :: "8 word list" where "in6addr_loopback = replicate 15 0 @ [1]"

text \<open>\<open>InetAddress(port, loopbackOnly, ipv6)\<close> on memory that held \<open>raw\<close>.\<close>

definition InetAddress_ctor :: "inet_address \<Rightarrow> 16 word \<Rightarrow> bool \<Rightarrow> bool \<Rightarrow> inet_address" where
  "InetAddress_ctor raw port loopbackOnly ipv6 =
     (if ipv6
      then set_port (hostToNetwork16 port)
             (set_sin6_addr (if loopbackOnly then in6addr_loopback else in6addr_any)
               (set_family AF_INET6 (clear_bytes sizeof_sockaddr_in6 raw)))
      else set_port (hostToNetwork16 port)
             (set_s_addr (hostToNetwork32 (if loopbackOnly then kInaddrLoopback else kInaddrAny))
               (set_family AF_INET (clear_bytes sizeof_sockaddr_in raw))))"

section \<open>Texts of addresses\<close>

text \<open>\<open>inet_pton(AF_INET, ...)\<close>: the octets finished so far and the one being read, if one of its digits was
  seen. A leading zero, a value above 255, a fifth octet, an empty octet and any other character are refused.\<close>

fun inet_pton4 :: "nat list \<Rightarrow> nat option \<Rightarrow> string \<Rightarrow> nat list option" where
  "inet_pton4 ds cur [] =
     (case cur of None \<Rightarrow> None | Some v \<Rightarrow> if length ds = 3 then Some (ds @ [v]) else None)"
| "inet_pton4 ds cur (ch # cs) =
     (if is_digit ch
      then (case cur of
              None \<Rightarrow> if length ds = 4 then None else inet_pton4 ds (Some (digit_val ch)) cs
            | Some v \<Rightarrow> if v = 0 \<or> 255 < v * 10 + digit_val ch then None
                        else inet_pton4 ds (Some (v * 10 + digit_val ch)) cs)
      else if ch = CHR ''.''
      then (case cur of
              None \<Rightarrow> None
            | Some v \<Rightarrow> if length ds = 3 then None else inet_pton4 (ds @ [v]) None cs)
      else None)"

text \<open>\<open>sockets::fromIpPort\<close>; the boolean says that the error was logged.\<close>

definition fromIpPort :: "string \<Rightarrow> 16 word \<Rightarrow> inet_address \<Rightarrow> bool \<times> inet_address" where
  "fromIpPort ip port a =
     (let a1 = set_port (hostToNetwork16 port) (set_family AF_INET a)
      in case inet_pton4 [] None (c_str ip) of
           None \<Rightarrow> (True, a1)
         | Some ds \<Rightarrow> (False, put_bytes 4 (map of_nat ds) a1))"

text \<open>\<open>InetAddress(ip, port, ipv6)\<close>; with \<open>ipv6\<close> nothing is initialised.\<close>

definition InetAddress_ip_ctor :: "inet_address \<Rightarrow> string \<Rightarrow> 16 word \<Rightarrow> bool \<Rightarrow> bool \<times> inet_address" where
  "InetAddress_ip_ctor raw ip port ipv6 =
     (if ipv6 then (False, raw) else fromIpPort ip port (clear_bytes sizeof_sockaddr_in raw))"

text \<open>\<open>inet_ntop(AF_INET, ...)\<close>.\<close>

definition inet_ntop4 :: "8 word list \<Rightarrow> string" where
  "inet_ntop4 bs = dec_nat (unat (bs ! 0)) @ ''.'' @ dec_nat (unat (bs ! 1)) @ ''.'' @
     dec_nat (unat (bs ! 2)) @ ''.'' @ dec_nat (unat (bs ! 3))"

text \<open>\<open>inet_ntop(AF_INET6, ...)\<close>: the longest run of at least two zero groups, the first of the longest, is written \<open>::\<close>;
  an address of the IPv4 range ends in dotted form.\<close>

fun hex_nat :: "nat \<Rightarrow> string" where
  "hex_nat n = (if n < 16 then [''0123456789abcdef'' ! n] else hex_nat (n div 16) @ [''0123456789abcdef'' ! (n mod 16)])"

declare hex_nat.simps [simp del]

definition groups6 :: "8 word list \<Rightarrow> nat list" where
  "groups6 bs = map (\<lambda>i. 256 * unat (bs ! (2 * i)) + unat (bs ! (2 * i + 1))) [0..<8]"

definition longer_run :: "(nat \<times> nat) option \<Rightarrow> (nat \<times> nat) option \<Rightarrow> (nat \<times> nat) option" where
  "longer_run cur best =
     (case cur of
        None \<Rightarrow> best
      | Some (b, n) \<Rightarrow> (case best of None \<Rightarrow> cur | Some (b', n') \<Rightarrow> if n' < n then cur else best))"

fun zero_run :: "nat \<Rightarrow> (nat \<times> nat) option \<Rightarrow> (nat \<times> nat) option \<Rightarrow> nat list \<Rightarrow> (nat \<times> nat) option" where
  "zero_run i cur best [] = longer_run cur best"
| "zero_run i cur best (w # ws) =
     (if w = 0 then zero_run (Suc i) (Some (case cur of None \<Rightarrow> (i, 1) | Some (b, n) \<Rightarrow> (b, Suc n))) best ws
      else zero_run (Suc i) None (longer_run cur best) ws)"

definition best_run :: "nat list \<Rightarrow> (nat \<times> nat) option" where
  "best_run ws = (case zero_run 0 None None ws of None \<Rightarrow> None | Some (b, n) \<Rightarrow> if n < 2 then None else Some (b, n))"

definition in_run :: "(nat \<times> nat) option \<Rightarrow> nat \<Rightarrow> bool" where
  "in_run best i = (case best of None \<Rightarrow> False | Some (b, n) \<Rightarrow> b \<le> i \<and> i < b + n)"

definition dotted_tail :: "(nat \<times> nat) option \<Rightarrow> nat list \<Rightarrow> bool" where
  "dotted_tail best ws \<longleftrightarrow> best = Some (0, 6) \<or> best = Some (0, 5) \<and> ws ! 5 = 0xFFFF"

fun ntop6_loop :: "(nat \<times> nat) option \<Rightarrow> nat list \<Rightarrow> string \<Rightarrow> nat list \<Rightarrow> string" where
  "ntop6_loop best ws v4 [] = []"
| "ntop6_loop best ws v4 (i # is) =
     (if in_run best i
      then (if map_option fst best = Some i then '':'' else []) @ ntop6_loop best ws v4 is
      else (if i \<noteq> 0 then '':'' else []) @
           (if i = 6 \<and> dotted_tail best ws then v4 else hex_nat (ws ! i) @ ntop6_loop best ws v4 is))"

definition inet_ntop6 :: "8 word list \<Rightarrow> string" where
  "inet_ntop6 bs =
     (let ws = groups6 bs; best = best_run ws
      in ntop6_loop best ws (inet_ntop4 (drop 12 bs)) [0..<8] @
         (case best of Some (b, n) \<Rightarrow> if b + n = 8 then '':'' else [] | None \<Rightarrow> []))"

text \<open>The result is stored when it fits with its null character.\<close>

definition ntop_into :: "string \<Rightarrow> nat \<Rightarrow> string \<Rightarrow> string" where
  "ntop_into buf sz t = (if length t < sz then t else buf)"

definition INET_ADDRSTRLEN :: nat where "INET_ADDRSTRLEN = 16"
definition INET6_ADDRSTRLEN :: nat where "INET6_ADDRSTRLEN = 46"

text \<open>\<open>sockets::toIp\<close> and \<open>sockets::toIpPort\<close> on a buffer that holds a C string.\<close>

definition toIp :: "string \<Rightarrow> nat \<Rightarrow> inet_address \<Rightarrow> string res" where
  "toIp buf sz a =
     (if sin_family a = AF_INET
      then cassert (INET_ADDRSTRLEN \<le> sz) ''size >= INET_ADDRSTRLEN''
             (Inr (ntop_into buf sz (inet_ntop4 (get_bytes 4 4 a))))
      else if sin_family a = AF_INET6
      then cassert (INET6_ADDRSTRLEN \<le> sz) ''size >= INET6_ADDRSTRLEN''
             (Inr (ntop_into buf sz (inet_ntop6 (sin6_addr a))))
      else Inr buf)"

definition toIpPort :: "string \<Rightarrow> nat \<Rightarrow> inet_address \<Rightarrow> string res" where
  "toIpPort buf sz a =
     bind_res (toIp buf sz a) (\<lambda>buf1.
       let port = networkToHost16 (sin_port a)
       in cassert (length buf1 < sz) ''size > end''
            (Inr (buf1 @ snprintf_buf (sz - length buf1) ('':'' @ dec_nat (unat port)))))"

text \<open>The methods of \<open>InetAddress\<close>.\<close>

definition inet_toIp :: "inet_address \<Rightarrow> string res" where
  "inet_toIp a = toIp [] 64 a"

definition inet_toIpPort :: "inet_address \<Rightarrow> string res" where
  "inet_toIpPort a = toIpPort [] 64 a"

definition inet_toPort :: "inet_address \<Rightarrow> 16 word" where
  "inet_toPort a = networkToHost16 (sin_port a)"

definition ipNetEndian :: "inet_address \<Rightarrow> 32 word res" where
  "ipNetEndian a = cassert (sin_family a = AF_INET) ''family() == AF_INET'' (Inr (s_addr a))"

definition setSockAddrInet6 :: "8 word list \<Rightarrow> inet_address \<Rightarrow> inet_address" where
  "setSockAddrInet6 addr6 a = put_bytes 0 addr6 a"

section \<open>Facts about fields\<close>

named_theorems inet_defs "sizes and accessors of socket addresses"

lemmas [inet_defs] = sizeof_sockaddr_in_def sizeof_sockaddr_in6_def sin_family_def sin_port_def s_addr_def sin6_addr_def
  set_family_def set_port_def set_s_addr_def set_sin6_addr_def clear_bytes_def

lemma length_setters [simp]:
  "length a = 28 \<Longrightarrow> length (set_family f a) = 28" "length a = 28 \<Longrightarrow> length (set_port p a) = 28"
  "length a = 28 \<Longrightarrow> length (set_s_addr ip a) = 28" "length a = 28 \<Longrightarrow> length i6 = 16 \<Longrightarrow> length (set_sin6_addr i6 a) = 28"
  "length a = 28 \<Longrightarrow> length (clear_bytes sizeof_sockaddr_in a) = 28"
  "length a = 28 \<Longrightarrow> length (clear_bytes sizeof_sockaddr_in6 a) = 28"
  by (simp_all add: inet_defs)

lemma fields_of_setters [simp]:
  assumes "length a = 28"
  shows "sin_family (set_family f a) = f" "sin_port (set_port p a) = p" "s_addr (set_s_addr ip a) = ip"
    "sin_family (set_port p a) = sin_family a" "sin_family (set_s_addr ip a) = sin_family a"
    "sin_port (set_family f a) = sin_port a" "s_addr (set_port p a) = s_addr a" "s_addr (set_family f a) = s_addr a"
  using assms by (simp_all add: inet_defs get_put_bytes_other)

lemma sin6_fields [simp]:
  assumes "length a = 28" and "length i6 = 16"
  shows "sin6_addr (set_sin6_addr i6 a) = i6" "sin_family (set_sin6_addr i6 a) = sin_family a"
  using assms by (simp_all add: inet_defs get_put_bytes_other)

lemma sin6_addr_kept [simp]:
  assumes "length a = 28"
  shows "sin6_addr (set_port p a) = sin6_addr a" "sin6_addr (set_family f a) = sin6_addr a"
  using assms by (simp_all add: inet_defs get_put_bytes_other)

lemma addr_bytes [simp]:
  assumes "length a = 28"
  shows "get_bytes 4 4 (set_s_addr ip a) = le_bytes 4 ip" "get_bytes 4 4 (set_port p a) = get_bytes 4 4 a"
    "get_bytes 4 4 (set_family f a) = get_bytes 4 4 a" "get_bytes 4 4 (clear_bytes sizeof_sockaddr_in a) = replicate 4 0"
  using assms by (simp_all add: inet_defs get_put_bytes_other) (simp add: get_bytes_def put_bytes_def)

lemma length_in6addr [simp]: "length in6addr_any = 16" "length in6addr_loopback = 16"
  by (simp_all add: in6addr_any_def in6addr_loopback_def)

lemma AF_distinct [simp]: "AF_INET \<noteq> AF_INET6" "AF_INET6 \<noteq> AF_INET"
  by (simp_all add: AF_INET_def AF_INET6_def)

section \<open>Facts about texts\<close>

text \<open>The canonical dotted form of a list of octets.\<close>

definition octets_ok :: "nat list \<Rightarrow> bool" where
  "octets_ok ds \<longleftrightarrow> length ds = 4 \<and> (\<forall>d \<in> set ds. d < 256)"

definition dotted :: "nat list \<Rightarrow> string" where
  "dotted ds = concat (map (\<lambda>d. dec_nat d @ ''.'') (butlast ds)) @ dec_nat (last ds)"

lemma inet_pton4_octet:
  "v < 256 \<Longrightarrow> length ds < 4 \<Longrightarrow> inet_pton4 ds None (dec_nat v @ rest) = inet_pton4 ds (Some v) rest"
proof (induction v arbitrary: rest rule: dec_nat.induct)
  case (1 v)
  show ?case
  proof (cases "v < 10")
    case True
    then show ?thesis using "1.prems" by (subst dec_nat.simps) simp
  next
    case False
    then have "v div 10 \<noteq> 0" by (simp add: div_eq_0_iff)
    with "1.IH" [OF False, of "digit_char (v mod 10) # rest"] "1.prems" False show ?thesis
      by (subst dec_nat.simps) simp
  qed
qed

lemma inet_pton4_dot:
  "v < 256 \<Longrightarrow> length ds < 3 \<Longrightarrow> inet_pton4 ds None (dec_nat v @ ''.'' @ rest) = inet_pton4 (ds @ [v]) None rest"
  by (simp add: inet_pton4_octet is_digit_def)

lemma octets_okE:
  assumes "octets_ok ds"
  obtains a b c d where "ds = [a, b, c, d]" "a < 256" "b < 256" "c < 256" "d < 256"
  using assms by (auto simp: octets_ok_def length_Suc_conv eval_nat_numeral)

lemma inet_pton4_dotted: "octets_ok ds \<Longrightarrow> inet_pton4 [] None (dotted ds) = Some ds"
proof (erule octets_okE)
  fix a b c d
  assume "ds = [a, b, c, d]" "a < 256" "b < 256" "c < 256" "d < (256::nat)"
  then show ?thesis
    using inet_pton4_dot [of a "[]"] inet_pton4_dot [of b "[a]"] inet_pton4_dot [of c "[a, b]"]
      inet_pton4_octet [of d "[a, b, c]" "[]"]
    by (simp add: dotted_def)
qed

definition read_so_far :: "nat list \<Rightarrow> nat option \<Rightarrow> string" where
  "read_so_far ds cur = concat (map (\<lambda>d. dec_nat d @ ''.'') ds) @ (case cur of None \<Rightarrow> [] | Some v \<Rightarrow> dec_nat v)"

lemma digit_char_val: "is_digit ch \<Longrightarrow> digit_val ch < 10 \<and> digit_char (digit_val ch) = ch"
  by (auto simp: is_digit_def digit_val_def digit_char_def)

lemma read_digit:
  assumes "is_digit ch"
  shows "read_so_far ds (Some (digit_val ch)) = read_so_far ds None @ [ch]"
    and "v \<noteq> 0 \<Longrightarrow> read_so_far ds (Some (v * 10 + digit_val ch)) = read_so_far ds (Some v) @ [ch]"
  using digit_char_val [OF assms] by (simp_all add: read_so_far_def dec_nat.simps [of "digit_val ch"]
      dec_nat.simps [of "v * 10 + digit_val ch"])

lemma read_dot: "read_so_far (ds @ [v]) None = read_so_far ds (Some v) @ ''.''"
  by (simp add: read_so_far_def)

text \<open>Only canonical texts are accepted.\<close>

lemma inet_pton4_sound:
  assumes "inet_pton4 ds cur cs = Some r" and "\<forall>d \<in> set ds. d < 256" and "\<forall>v. cur = Some v \<longrightarrow> v < 256"
  shows "octets_ok r \<and> dotted r = read_so_far ds cur @ cs"
  using assms
proof (induction ds cur cs rule: inet_pton4.induct)
  case (1 ds cur)
  then show ?case
    by (auto simp: octets_ok_def dotted_def read_so_far_def split: option.splits if_splits)
next
  case (2 ds cur ch cs)
  show ?case
  proof (cases "is_digit ch")
    case True
    note d = digit_char_val [OF True] and r = read_digit [OF True]
    show ?thesis
    proof (cases cur)
      case None
      with 2 True d show ?thesis by (auto simp: r split: if_splits)
    next
      case (Some v)
      with 2 True d show ?thesis by (auto simp: r split: if_splits)
    qed
  next
    case False
    with 2 show ?thesis by (auto simp: read_dot split: if_splits option.splits)
  qed
qed

lemma inet_pton4_iff: "inet_pton4 [] None t = Some ds \<longleftrightarrow> octets_ok ds \<and> t = dotted ds"
  using inet_pton4_sound [of "[]" None t ds] inet_pton4_dotted [of ds] by (auto simp: read_so_far_def)

lemma inet_ntop4_dotted: "octets_ok ds \<Longrightarrow> inet_ntop4 (map of_nat ds) = dotted ds"
  by (erule octets_okE) (simp add: inet_ntop4_def dotted_def unat_of_nat)

lemma digit_chars:
  "digit_char 0 = CHR ''0''" "digit_char (Suc 0) = CHR ''1''" "digit_char 2 = CHR ''2''" "digit_char 3 = CHR ''3''"
  "digit_char 4 = CHR ''4''" "digit_char 5 = CHR ''5''" "digit_char 6 = CHR ''6''" "digit_char 7 = CHR ''7''"
  "digit_char 8 = CHR ''8''" "digit_char 9 = CHR ''9''"
  by (rule of_char_eqI [where 'a = nat], simp)+

lemma unat_lt2p: "unat (w :: 'a::len word) < 2 ^ LENGTH('a)"
  by (rule unsigned_less)

lemma length_dec_octet: "length (dec_nat (unat (b :: 8 word))) \<le> 3"
  by (rule length_dec_nat_le) (use unat_lt2p [of b] in simp_all)

lemma length_inet_ntop4: "length (inet_ntop4 bs) \<le> 15"
  using length_dec_octet [of "bs ! 0"] length_dec_octet [of "bs ! 1"] length_dec_octet [of "bs ! 2"]
    length_dec_octet [of "bs ! 3"]
  by (simp add: inet_ntop4_def)

lemma length_hex_nat: "n < 16 ^ k \<Longrightarrow> 0 < k \<Longrightarrow> length (hex_nat n) \<le> k"
proof (induction k arbitrary: n)
  case (Suc k)
  show ?case
  proof (cases "n < 16")
    case True
    then show ?thesis by (subst hex_nat.simps) simp
  next
    case False
    with Suc.prems have "n div 16 < 16 ^ k" "0 < k"
      by (auto simp: less_mult_imp_div_less mult.commute intro: gr0I)
    with Suc.IH have "length (hex_nat (n div 16)) \<le> k" by simp
    with False show ?thesis by (subst hex_nat.simps) simp
  qed
qed simp

lemma groups6_less: "i < 8 \<Longrightarrow> groups6 bs ! i < 16 ^ 4"
  using unat_lt2p [of "bs ! (2 * i)"] unat_lt2p [of "bs ! (2 * i + 1)"] by (simp add: groups6_def)

lemma length_ntop6_loop:
  assumes "\<forall>i \<in> set js. i < 8" and "length v4 \<le> 15"
  shows "length (ntop6_loop best (groups6 bs) v4 js) \<le> 5 * length js + 11"
  using assms(1)
proof (induction js)
  case (Cons i js)
  have "length (hex_nat (groups6 bs ! i)) \<le> 4" using length_hex_nat [OF groups6_less] Cons.prems by simp
  with Cons assms(2) show ?case by auto
qed simp

lemma length_inet_ntop6: "length (inet_ntop6 bs) \<le> 52"
  using length_ntop6_loop [of "[0..<8]" "inet_ntop4 (drop 12 bs)" "best_run (groups6 bs)" bs] length_inet_ntop4 [of "drop 12 bs"]
  by (auto simp: inet_ntop6_def Let_def split: option.splits)

lemma length_dec_port: "length (dec_nat (unat (p :: 16 word))) \<le> 5"
  by (rule length_dec_nat_le) (use unat_lt2p [of p] in simp_all)

lemma inet_toIp_4: "sin_family a = AF_INET \<Longrightarrow> inet_toIp a = Inr (inet_ntop4 (get_bytes 4 4 a))"
  using length_inet_ntop4 [of "get_bytes 4 4 a"] by (simp add: inet_toIp_def toIp_def ntop_into_def INET_ADDRSTRLEN_def)

lemma inet_toIp_6: "sin_family a = AF_INET6 \<Longrightarrow> inet_toIp a = Inr (inet_ntop6 (sin6_addr a))"
  using length_inet_ntop6 [of "sin6_addr a"] by (simp add: inet_toIp_def toIp_def ntop_into_def INET6_ADDRSTRLEN_def)

lemma inet_toIp_other: "sin_family a \<noteq> AF_INET \<Longrightarrow> sin_family a \<noteq> AF_INET6 \<Longrightarrow> inet_toIp a = Inr []"
  by (simp add: inet_toIp_def toIp_def)

text \<open>The texts of an arbitrary image: no assertion fails and nothing is cut off.\<close>

lemma inet_texts:
  "\<exists>ip. inet_toIp a = Inr ip \<and> length ip \<le> 52 \<and> inet_toIpPort a = Inr (ip @ '':'' @ dec_nat (unat (inet_toPort a)))"
proof -
  obtain ip where ip: "inet_toIp a = Inr ip" "length ip \<le> 52"
    using inet_toIp_4 [of a] inet_toIp_6 [of a] inet_toIp_other [of a] length_inet_ntop4 [of "get_bytes 4 4 a"]
      length_inet_ntop6 [of "sin6_addr a"]
    by fastforce
  then show ?thesis
    using length_dec_port [of "inet_toPort a"]
    by (auto simp: inet_toIp_def inet_toIpPort_def inet_toPort_def toIpPort_def Let_def snprintf_buf_def)
qed

section \<open>Properties\<close>

lemma toPort_ctor [simp]: "length raw = 28 \<Longrightarrow> inet_toPort (InetAddress_ctor raw port lo v6) = port"
  by (simp add: InetAddress_ctor_def inet_toPort_def)

lemma ctor_fields:
  assumes "length raw = 28"
  shows "length (InetAddress_ctor raw port lo v6) = 28"
    "sin_family (InetAddress_ctor raw port lo v6) = (if v6 then AF_INET6 else AF_INET)"
    "sin6_addr (InetAddress_ctor raw port lo True) = (if lo then in6addr_loopback else in6addr_any)"
    "get_bytes 4 4 (InetAddress_ctor raw port lo False) = (if lo then [127, 0, 0, 1] else [0, 0, 0, 0])"
    "s_addr (InetAddress_ctor raw port lo False) = hostToNetwork32 (if lo then kInaddrLoopback else kInaddrAny)"
proof -
  have lo: "rev (le_bytes 4 kInaddrLoopback) = [127, 0, 0, 1]" "rev (le_bytes 4 kInaddrAny) = [0, 0, 0, 0]"
    by (simp_all add: le_bytes_def byte_at_def kInaddrLoopback_def kInaddrAny_def upt_rec)
  show "length (InetAddress_ctor raw port lo v6) = 28"
    "sin_family (InetAddress_ctor raw port lo v6) = (if v6 then AF_INET6 else AF_INET)"
    "sin6_addr (InetAddress_ctor raw port lo True) = (if lo then in6addr_loopback else in6addr_any)"
    "get_bytes 4 4 (InetAddress_ctor raw port lo False) = (if lo then [127, 0, 0, 1] else [0, 0, 0, 0])"
    "s_addr (InetAddress_ctor raw port lo False) = hostToNetwork32 (if lo then kInaddrLoopback else kInaddrAny)"
    using assms by (simp_all add: InetAddress_ctor_def stored_network_order lo)
qed

lemma ip_ctor_fields:
  assumes "length raw = 28" and "InetAddress_ip_ctor raw ip port False = (err, a)"
  shows "length a = 28" "sin_family a = AF_INET" "inet_toPort a = port"
    and "err \<longleftrightarrow> (\<nexists>ds. octets_ok ds \<and> c_str ip = dotted ds)"
    and "get_bytes 4 4 a = (case inet_pton4 [] None (c_str ip) of None \<Rightarrow> replicate 4 0 | Some ds \<Rightarrow> map of_nat ds)"
proof -
  let ?a = "set_port (hostToNetwork16 port) (set_family AF_INET (clear_bytes sizeof_sockaddr_in raw))"
  have l: "length ?a = 28" "sin_family ?a = AF_INET" "sin_port ?a = hostToNetwork16 port" "get_bytes 4 4 ?a = replicate 4 0"
    using assms(1) by simp_all
  have err: "inet_pton4 [] None (c_str ip) = None \<longleftrightarrow> (\<nexists>ds. octets_ok ds \<and> c_str ip = dotted ds)"
    using inet_pton4_iff [of "c_str ip"] by (metis option.exhaust option.distinct(1))
  have "length a = 28 \<and> sin_family a = AF_INET \<and> inet_toPort a = port \<and>
      err = (inet_pton4 [] None (c_str ip) = None) \<and>
      get_bytes 4 4 a = (case inet_pton4 [] None (c_str ip) of None \<Rightarrow> replicate 4 0 | Some ds \<Rightarrow> map of_nat ds)"
  proof (cases "inet_pton4 [] None (c_str ip)")
    case None
    with assms(2) l show ?thesis by (simp add: InetAddress_ip_ctor_def fromIpPort_def inet_toPort_def Let_def)
  next
    case (Some ds)
    then have "length ds = 4" by (simp add: inet_pton4_iff octets_ok_def)
    with Some assms(2) l show ?thesis
      by (auto simp: InetAddress_ip_ctor_def fromIpPort_def inet_toPort_def Let_def sin_family_def sin_port_def
          get_put_bytes_other)
  qed
  with err show "length a = 28" "sin_family a = AF_INET" "inet_toPort a = port"
    "err \<longleftrightarrow> (\<nexists>ds. octets_ok ds \<and> c_str ip = dotted ds)"
    "get_bytes 4 4 a = (case inet_pton4 [] None (c_str ip) of None \<Rightarrow> replicate 4 0 | Some ds \<Rightarrow> map of_nat ds)"
    by auto
qed

text \<open>C22: an address made from a text and a port prints back. When the text is four decimal octets without leading
  zeros, \<open>toIp\<close> gives that text and \<open>toIpPort\<close> the text, a colon and the port; any other text is only reported in the log
  and the address is the wildcard \<open>0.0.0.0\<close>. The port and the family are right in both cases.\<close>

theorem inet_text_roundtrip:
  assumes "length raw = 28" and "InetAddress_ip_ctor raw ip port False = (err, a)"
  shows "sin_family a = AF_INET \<and> inet_toPort a = port \<and>
    (if \<exists>ds. octets_ok ds \<and> c_str ip = dotted ds
     then \<not> err \<and> inet_toIp a = Inr (c_str ip) \<and> inet_toIpPort a = Inr (c_str ip @ '':'' @ dec_nat (unat port))
     else err \<and> inet_toIp a = Inr ''0.0.0.0'' \<and> inet_toIpPort a = Inr (''0.0.0.0:'' @ dec_nat (unat port)))"
proof -
  note f = ip_ctor_fields [OF assms]
  have z: "inet_ntop4 (replicate 4 0) = ''0.0.0.0''"
    by (simp add: inet_ntop4_def dec_nat.simps digit_chars)
  have "inet_toIp a = Inr (if err then ''0.0.0.0'' else c_str ip)"
  proof (cases "inet_pton4 [] None (c_str ip)")
    case None
    with f(2,4,5) z show ?thesis using inet_pton4_iff [of "c_str ip"] by (auto simp: inet_toIp_4)
  next
    case (Some ds)
    with f(2,4,5) inet_pton4_iff [of "c_str ip" ds] inet_ntop4_dotted [of ds] show ?thesis
      by (auto simp: inet_toIp_4)
  qed
  with f(2,3,4) inet_texts [of a] show ?thesis by auto
qed

theorem inet_text_roundtrip_witness:
  "inet_toIpPort (snd (InetAddress_ip_ctor (replicate 28 7) ''10.0.0.255'' 8080 False)) = Inr ''10.0.0.255:8080'' \<and>
   inet_toIp (snd (InetAddress_ip_ctor (replicate 28 7) ''10.0.0.256'' 8080 False)) = Inr ''0.0.0.0''"
proof -
  have d: "dec_nat 10 = ''10''" "dec_nat 0 = ''0''" "dec_nat 255 = ''255''" "dec_nat 8080 = ''8080''"
    by (simp_all add: dec_nat.simps digit_chars)
  have c: "c_str ''10.0.0.255'' = dotted [10, 0, 0, 255]" "c_str ''10.0.0.255'' = ''10.0.0.255''"
    by (simp_all add: c_str_def dotted_def d)
  have "inet_pton4 [] None (c_str ''10.0.0.256'') = None" by (simp add: c_str_def is_digit_def digit_val_def)
  then have n: "\<nexists>ds. octets_ok ds \<and> c_str ''10.0.0.256'' = dotted ds" by (metis inet_pton4_iff option.distinct(1))
  have o: "octets_ok [10, 0, 0, 255]" by (simp add: octets_ok_def)
  have e: "\<exists>ds. octets_ok ds \<and> c_str ''10.0.0.255'' = dotted ds" using o c(1) by blast
  show ?thesis
    using inet_text_roundtrip [OF _ surjective_pairing, of "replicate 28 7" "''10.0.0.255''" 8080]
      inet_text_roundtrip [OF _ surjective_pairing, of "replicate 28 7" "''10.0.0.256''" 8080] e n
    by (simp add: c(2) d(4))
qed



text \<open>The loopback addresses print as \<open>::1\<close> and \<open>127.0.0.1\<close>.\<close>

lemma loopback_texts:
  assumes "length raw = 28"
  shows "inet_toIp (InetAddress_ctor raw port True True) = Inr ''::1''"
    and "inet_toIp (InetAddress_ctor raw port True False) = Inr ''127.0.0.1''"
proof -
  have g: "groups6 in6addr_loopback = [0, 0, 0, 0, 0, 0, 0, 1]"
    by (simp add: groups6_def in6addr_loopback_def upt_rec nth_append)
  have "inet_ntop6 in6addr_loopback = ''::1''"
    by (simp add: inet_ntop6_def g best_run_def longer_run_def in_run_def dotted_tail_def hex_nat.simps upt_rec)
  with ctor_fields [OF assms, of port True] show "inet_toIp (InetAddress_ctor raw port True True) = Inr ''::1''"
    by (simp add: inet_toIp_6)
  have "inet_ntop4 [127, 0, 0, 1] = ''127.0.0.1''"
    by (simp add: inet_ntop4_def dec_nat.simps digit_chars)
  with ctor_fields [OF assms, of port True] show "inet_toIp (InetAddress_ctor raw port True False) = Inr ''127.0.0.1''"
    by (simp add: inet_toIp_4)
qed

end
