(* ===== verification/TA_Socket.thy ===== *)
theory TA_Socket
  imports TA_Inet TA_LogStream "HOL-Library.State_Monad"
begin

text \<open>
  Sockets (\<open>src/Socket/Socket.h\<close>, \<open>Socket.cpp\<close>, \<open>SocketHelp.h\<close>, \<open>SocketHelp.cpp\<close>) and the system calls of the
  acceptor (\<open>src/Reactor/Acceptor.cpp\<close>).

  A function of this layer makes system calls and writes log lines; both are recorded. The kernel is a parameter: what a
  call returns may depend on all the calls before it. A log line may leave another value in \<open>errno\<close>, which is also a
  parameter. Since \<open>LOG_FATAL\<close> only writes a line, the functions named \<open>...OrDie\<close> return after it.
\<close>

section \<open>System calls and the log\<close>

datatype syscall =
    Sys_socket "16 word" nat nat
  | Sys_fcntl int nat nat
  | Sys_connect int "8 word list" nat
  | Sys_bind int "8 word list" nat
  | Sys_listen int int
  | Sys_accept4 int nat nat
  | Sys_accept int
  | Sys_close int
  | Sys_shutdown int nat
  | Sys_setsockopt int nat nat int
  | Sys_getsockopt int nat nat
  | Sys_getsockname int
  | Sys_getpeername int
  | Sys_open string nat
  | Sys_select int

record outcome =
  oc_ret :: int
  oc_errno :: int
  oc_bytes :: "8 word list"

record net =
  net_calls :: "syscall list"
  net_log :: "(log_level \<times> string) list"
  net_errno :: int

record kernel =
  k_call :: "syscall list \<Rightarrow> syscall \<Rightarrow> outcome"
  k_log_errno :: "int \<Rightarrow> int"
  k_level :: log_level
  k_somaxconn :: int

type_synonym 'a net_io = "(net, 'a) state"

definition sys :: "kernel \<Rightarrow> syscall \<Rightarrow> outcome net_io" where
  "sys k c = State (\<lambda>s. let r = k_call k (net_calls s) c
     in (r, s\<lparr>net_calls := net_calls s @ [c], net_errno := if oc_ret r < 0 then oc_errno r else net_errno s\<rparr>))"

definition log_line :: "kernel \<Rightarrow> log_level \<Rightarrow> string \<Rightarrow> unit net_io" where
  "log_line k l msg = State (\<lambda>s.
     ((), if log_enabled (k_level k) l then s\<lparr>net_log := net_log s @ [(l, msg)], net_errno := k_log_errno k (net_errno s)\<rparr> else s))"

definition get_errno :: "int net_io" where
  "get_errno = State (\<lambda>s. (net_errno s, s))"

definition set_errno :: "int \<Rightarrow> unit net_io" where
  "set_errno e = State (\<lambda>s. ((), s\<lparr>net_errno := e\<rparr>))"

text \<open>The call whose failure is only logged.\<close>

definition sys_or_log :: "kernel \<Rightarrow> syscall \<Rightarrow> log_level \<Rightarrow> string \<Rightarrow> unit net_io" where
  "sys_or_log k c l msg = do {
     r \<leftarrow> sys k c;
     if oc_ret r < 0 then log_line k l msg else State_Monad.return ()
   }"

text \<open>Constants of the Linux headers.\<close>

definition SOCK_STREAM :: nat where "SOCK_STREAM = 1"
definition SOCK_NONBLOCK :: nat where "SOCK_NONBLOCK = 2048"
definition SOCK_CLOEXEC :: nat where "SOCK_CLOEXEC = 524288"
definition IPPROTO_TCP :: nat where "IPPROTO_TCP = 6"
definition SOL_SOCKET :: nat where "SOL_SOCKET = 1"
definition SOL_TCP :: nat where "SOL_TCP = 6"
definition F_SETFD :: nat where "F_SETFD = 2"
definition FD_CLOEXEC :: nat where "FD_CLOEXEC = 1"
definition SHUT_WR :: nat where "SHUT_WR = 1"
definition TCP_NODELAY :: nat where "TCP_NODELAY = 1"
definition TCP_KEEPIDLE :: nat where "TCP_KEEPIDLE = 4"
definition TCP_KEEPINTVL :: nat where "TCP_KEEPINTVL = 5"
definition TCP_KEEPCNT :: nat where "TCP_KEEPCNT = 6"
definition TCP_INFO :: nat where "TCP_INFO = 11"
definition SO_REUSEADDR :: nat where "SO_REUSEADDR = 2"
definition SO_ERROR :: nat where "SO_ERROR = 4"
definition SO_KEEPALIVE :: nat where "SO_KEEPALIVE = 9"
definition SO_REUSEPORT :: nat where "SO_REUSEPORT = 15"
definition O_RDONLY_CLOEXEC :: nat where "O_RDONLY_CLOEXEC = 524288"
definition sizeof_sockaddr :: nat where "sizeof_sockaddr = 16"

definition err_EINVAL :: int where "err_EINVAL = 22"
definition err_EMFILE :: int where "err_EMFILE = 24"

text \<open>EAGAIN, ECONNABORTED, EINTR, EPROTO, EPERM, EMFILE; and EBADF, EFAULT, EINVAL, ENFILE, ENOBUFS, ENOMEM, ENOTSOCK,
  EOPNOTSUPP.\<close>

definition accept_expected :: "int list" where
  "accept_expected = [11, 103, 4, 71, 1, 24]"

definition accept_unexpected :: "int list" where
  "accept_unexpected = [9, 14, 22, 23, 105, 12, 88, 95]"

section \<open>Functions of \<open>SocketHelp\<close>\<close>

definition createSocket :: "kernel \<Rightarrow> 16 word \<Rightarrow> int net_io" where
  "createSocket k family = do {
     r \<leftarrow> sys k (Sys_socket family (SOCK_STREAM + SOCK_CLOEXEC) 0);
     e \<leftarrow> get_errno;
     if oc_ret r \<noteq> -1 \<or> e \<noteq> err_EINVAL then State_Monad.return (oc_ret r)
     else do {
       r2 \<leftarrow> sys k (Sys_socket family SOCK_STREAM 0);
       (if oc_ret r2 \<noteq> -1 then do { _ \<leftarrow> sys k (Sys_fcntl (oc_ret r2) F_SETFD FD_CLOEXEC); State_Monad.return () }
        else State_Monad.return ());
       State_Monad.return (oc_ret r2)
     }
   }"

definition sockets_connect :: "kernel \<Rightarrow> int \<Rightarrow> inet_address \<Rightarrow> int net_io" where
  "sockets_connect k fd a = do {
     r \<leftarrow> sys k (Sys_connect fd a sizeof_sockaddr);
     State_Monad.return (oc_ret r)
   }"

definition sockets_close :: "kernel \<Rightarrow> int \<Rightarrow> unit net_io" where
  "sockets_close k fd = sys_or_log k (Sys_close fd) ERROR ''sockets::close''"

definition sockets_shutdownWrite :: "kernel \<Rightarrow> int \<Rightarrow> unit net_io" where
  "sockets_shutdownWrite k fd = sys_or_log k (Sys_shutdown fd SHUT_WR) ERROR ''sockets::shutdownWrite''"

definition delaySecond :: "kernel \<Rightarrow> int \<Rightarrow> unit net_io" where
  "delaySecond k sec = do { _ \<leftarrow> sys k (Sys_select sec); State_Monad.return () }"

definition createNonblockingOrDie :: "kernel \<Rightarrow> 16 word \<Rightarrow> int net_io" where
  "createNonblockingOrDie k family = do {
     r \<leftarrow> sys k (Sys_socket family (SOCK_STREAM + SOCK_NONBLOCK + SOCK_CLOEXEC) IPPROTO_TCP);
     (if oc_ret r < 0 then log_line k FATAL ''sockets::createNonblockingOrDie'' else State_Monad.return ());
     State_Monad.return (oc_ret r)
   }"

definition bindOrDie :: "kernel \<Rightarrow> int \<Rightarrow> inet_address \<Rightarrow> unit net_io" where
  "bindOrDie k fd a = sys_or_log k (Sys_bind fd a sizeof_sockaddr) FATAL ''sockets::bindOrDie''"

definition listenOrDie :: "kernel \<Rightarrow> int \<Rightarrow> unit net_io" where
  "listenOrDie k fd = sys_or_log k (Sys_listen fd (k_somaxconn k)) FATAL ''sockets::listenOrDie''"

text \<open>\<open>accept\<close> fills in the address it is given; on failure it sorts the error.\<close>

definition sockets_accept :: "kernel \<Rightarrow> int \<Rightarrow> 8 word list \<Rightarrow> (int \<times> 8 word list) net_io" where
  "sockets_accept k fd a = do {
     r \<leftarrow> sys k (Sys_accept4 fd (length a) (SOCK_NONBLOCK + SOCK_CLOEXEC));
     if oc_ret r < 0
     then do {
       savedErrno \<leftarrow> get_errno;
       log_line k ERROR ''Socket::accept'';
       (if savedErrno \<in> set accept_expected then set_errno savedErrno
        else if savedErrno \<in> set accept_unexpected
        then log_line k FATAL (''unexpected error of ::accept '' @ dec_int savedErrno)
        else log_line k FATAL (''unknown error of ::accept '' @ dec_int savedErrno));
       State_Monad.return (oc_ret r, a)
     }
     else State_Monad.return (oc_ret r, put_bytes 0 (take (length a) (oc_bytes r)) a)
   }"

definition getLocalAddr :: "kernel \<Rightarrow> int \<Rightarrow> 8 word list net_io" where
  "getLocalAddr k fd = do {
     r \<leftarrow> sys k (Sys_getsockname fd);
     if oc_ret r < 0 then do { log_line k ERROR ''sockets::getLocalAddr''; State_Monad.return (replicate sizeof_sockaddr_in6 0) }
     else State_Monad.return (put_bytes 0 (take sizeof_sockaddr_in6 (oc_bytes r)) (replicate sizeof_sockaddr_in6 0))
   }"

definition getPeerAddr :: "kernel \<Rightarrow> int \<Rightarrow> 8 word list net_io" where
  "getPeerAddr k fd = do {
     r \<leftarrow> sys k (Sys_getpeername fd);
     if oc_ret r < 0 then do { log_line k ERROR ''sockets::getPeerAddr''; State_Monad.return (replicate sizeof_sockaddr_in6 0) }
     else State_Monad.return (put_bytes 0 (take sizeof_sockaddr_in6 (oc_bytes r)) (replicate sizeof_sockaddr_in6 0))
   }"

text \<open>The option is an \<open>int\<close>: four bytes, read as two's complement.\<close>

definition getSocketError :: "kernel \<Rightarrow> int \<Rightarrow> int net_io" where
  "getSocketError k fd = do {
     r \<leftarrow> sys k (Sys_getsockopt fd SOL_SOCKET SO_ERROR);
     if oc_ret r < 0 then get_errno
     else State_Monad.return (sint (of_le_bytes (take 4 (oc_bytes r)) :: 32 word))
   }"

section \<open>The class \<open>Socket\<close>\<close>

text \<open>A socket is its descriptor.\<close>

definition Socket_dtor :: "kernel \<Rightarrow> int \<Rightarrow> unit net_io" where
  "Socket_dtor k fd = sockets_close k fd"

record tcp_info =
  tcpi_retransmits :: nat
  tcpi_rto :: nat
  tcpi_ato :: nat
  tcpi_snd_mss :: nat
  tcpi_rcv_mss :: nat
  tcpi_lost :: nat
  tcpi_retrans :: nat
  tcpi_rtt :: nat
  tcpi_rttvar :: nat
  tcpi_snd_ssthresh :: nat
  tcpi_snd_cwnd :: nat
  tcpi_total_retrans :: nat

text \<open>\<open>decode\<close> reads the structure the kernel filled in.\<close>

definition getTcpInfo :: "(8 word list \<Rightarrow> tcp_info) \<Rightarrow> kernel \<Rightarrow> int \<Rightarrow> (bool \<times> tcp_info) net_io" where
  "getTcpInfo decode k fd = do {
     r \<leftarrow> sys k (Sys_getsockopt fd SOL_TCP TCP_INFO);
     State_Monad.return (oc_ret r = 0, decode (oc_bytes r))
   }"

definition tcp_info_text :: "tcp_info \<Rightarrow> string" where
  "tcp_info_text t =
     ''unrecovered='' @ dec_nat (tcpi_retransmits t) @ '' rto='' @ dec_nat (tcpi_rto t) @ '' ato='' @ dec_nat (tcpi_ato t) @
     '' snd_mss='' @ dec_nat (tcpi_snd_mss t) @ '' rcv_mss='' @ dec_nat (tcpi_rcv_mss t) @
     '' lost='' @ dec_nat (tcpi_lost t) @ '' retrans='' @ dec_nat (tcpi_retrans t) @
     '' rtt='' @ dec_nat (tcpi_rtt t) @ '' rttvar='' @ dec_nat (tcpi_rttvar t) @
     '' sshthresh='' @ dec_nat (tcpi_snd_ssthresh t) @ '' cwnd='' @ dec_nat (tcpi_snd_cwnd t) @
     '' total_retrans='' @ dec_nat (tcpi_total_retrans t)"

text \<open>The buffer holds a C string; it is left alone when the call fails.\<close>

definition getTcpInfoString :: "(8 word list \<Rightarrow> tcp_info) \<Rightarrow> kernel \<Rightarrow> int \<Rightarrow> string \<Rightarrow> nat \<Rightarrow> (bool \<times> string) net_io" where
  "getTcpInfoString decode k fd buf len = do {
     (ok, tcpi) \<leftarrow> getTcpInfo decode k fd;
     State_Monad.return (ok, if ok \<and> 0 < len then snprintf_buf len (tcp_info_text tcpi) else buf)
   }"

definition bindAddress :: "kernel \<Rightarrow> int \<Rightarrow> inet_address \<Rightarrow> unit net_io" where
  "bindAddress k fd a = bindOrDie k fd a"

definition Socket_listen :: "kernel \<Rightarrow> int \<Rightarrow> unit net_io" where
  "Socket_listen k fd = listenOrDie k fd"

definition Socket_accept :: "kernel \<Rightarrow> int \<Rightarrow> inet_address \<Rightarrow> (int \<times> inet_address) net_io" where
  "Socket_accept k fd peeraddr = do {
     (connfd, a) \<leftarrow> sockets_accept k fd (replicate sizeof_sockaddr_in6 0);
     State_Monad.return (connfd, if 0 \<le> connfd then setSockAddrInet6 a peeraddr else peeraddr)
   }"

definition Socket_shutdownWrite :: "kernel \<Rightarrow> int \<Rightarrow> unit net_io" where
  "Socket_shutdownWrite k fd = sockets_shutdownWrite k fd"

definition setTcpNoDelay :: "kernel \<Rightarrow> int \<Rightarrow> bool \<Rightarrow> unit net_io" where
  "setTcpNoDelay k fd on =
     sys_or_log k (Sys_setsockopt fd IPPROTO_TCP TCP_NODELAY (if on then 1 else 0)) ERROR ''Socket::setTcpNoDelay''"

definition setReuseAddr :: "kernel \<Rightarrow> int \<Rightarrow> bool \<Rightarrow> unit net_io" where
  "setReuseAddr k fd on =
     sys_or_log k (Sys_setsockopt fd SOL_SOCKET SO_REUSEADDR (if on then 1 else 0)) ERROR ''Socket::setReuseAddr''"

definition setReusePort :: "kernel \<Rightarrow> int \<Rightarrow> bool \<Rightarrow> unit net_io" where
  "setReusePort k fd on = do {
     r \<leftarrow> sys k (Sys_setsockopt fd SOL_SOCKET SO_REUSEPORT (if on then 1 else 0));
     if oc_ret r < 0 \<and> on then log_line k ERROR ''SO_REUSEPORT failed.'' else State_Monad.return ()
   }"

definition setKeepAlive :: "kernel \<Rightarrow> int \<Rightarrow> bool \<Rightarrow> unit net_io" where
  "setKeepAlive k fd on = do {
     r \<leftarrow> sys k (Sys_setsockopt fd SOL_SOCKET SO_KEEPALIVE (if on then 1 else 0));
     _ \<leftarrow> sys k (Sys_setsockopt fd SOL_TCP TCP_KEEPIDLE 30);
     _ \<leftarrow> sys k (Sys_setsockopt fd SOL_TCP TCP_KEEPINTVL 5);
     _ \<leftarrow> sys k (Sys_setsockopt fd SOL_TCP TCP_KEEPCNT 3);
     if oc_ret r < 0 then log_line k ERROR ''Socket::setKeepAlive'' else State_Monad.return ()
   }"

section \<open>The system calls of the acceptor\<close>

definition Acceptor_ctor :: "kernel \<Rightarrow> inet_address \<Rightarrow> bool \<Rightarrow> (int \<times> int) res net_io" where
  "Acceptor_ctor k listenAddr reuseport = do {
     fd \<leftarrow> createNonblockingOrDie k (sin_family listenAddr);
     idle \<leftarrow> sys k (Sys_open ''/dev/null'' O_RDONLY_CLOEXEC);
     if oc_ret idle < 0 then State_Monad.return (Inl (AssertFailed ''m_idleFd >= 0''))
     else do {
       setReuseAddr k fd reuseport;
       bindAddress k fd listenAddr;
       State_Monad.return (Inr (fd, oc_ret idle))
     }
   }"

definition Acceptor_listen :: "kernel \<Rightarrow> int \<Rightarrow> unit net_io" where
  "Acceptor_listen k fd = Socket_listen k fd"

text \<open>\<open>Acceptor::handleRead\<close>: the accepted descriptor and the peer's address for the callback, if any, and the spare descriptor.\<close>

definition Acceptor_handleRead :: "kernel \<Rightarrow> bool \<Rightarrow> int \<Rightarrow> int \<Rightarrow> ((int \<times> inet_address) option \<times> int) net_io" where
  "Acceptor_handleRead k hasCallBack fd idleFd = do {
     log_line k TRACE ''Acceptor::handleRead()'';
     (connfd, peer) \<leftarrow> Socket_accept k fd (InetAddress_ctor (replicate sizeof_sockaddr_in6 0) 0 False False);
     if 0 \<le> connfd
     then (if hasCallBack then State_Monad.return (Some (connfd, peer), idleFd)
           else do { sockets_close k connfd; State_Monad.return (None, idleFd) })
     else do {
       log_line k ERROR ''in Acceptor::handleRead'';
       e \<leftarrow> get_errno;
       if e = err_EMFILE
       then do {
         _ \<leftarrow> sys k (Sys_close idleFd);
         r \<leftarrow> sys k (Sys_accept fd);
         _ \<leftarrow> sys k (Sys_close (oc_ret r));
         i \<leftarrow> sys k (Sys_open ''/dev/null'' O_RDONLY_CLOEXEC);
         State_Monad.return (None, oc_ret i)
       }
       else State_Monad.return (None, idleFd)
     }
   }"

text \<open>What \<open>TcpServer\<close> does with its acceptor: construction, later \<open>startListen\<close>.\<close>

definition acceptor_setup :: "kernel \<Rightarrow> inet_address \<Rightarrow> bool \<Rightarrow> int res net_io" where
  "acceptor_setup k listenAddr reuseport = do {
     r \<leftarrow> Acceptor_ctor k listenAddr reuseport;
     case r of
       Inl e \<Rightarrow> State_Monad.return (Inl e)
     | Inr (fd, idle) \<Rightarrow> do { Acceptor_listen k fd; State_Monad.return (Inr fd) }
   }"

section \<open>Lemmas\<close>

lemma log_enabled_FATAL [simp]: "log_enabled g FATAL"
  by (simp add: log_enabled_def level_number_def split: log_level.split)

lemma run_get_errno [simp]: "run_state get_errno s = (net_errno s, s)"
  by (simp add: get_errno_def)

lemma run_set_errno [simp]: "run_state (set_errno e) s = ((), s\<lparr>net_errno := e\<rparr>)"
  by (simp add: set_errno_def)

lemma run_log_line:
  "run_state (log_line k l msg) s =
     ((), if log_enabled (k_level k) l then s\<lparr>net_log := net_log s @ [(l, msg)], net_errno := k_log_errno k (net_errno s)\<rparr> else s)"
  by (simp add: log_line_def)

text \<open>The state after one call.\<close>

definition called :: "kernel \<Rightarrow> syscall \<Rightarrow> net \<Rightarrow> net" where
  "called k c s = s\<lparr>net_calls := net_calls s @ [c],
     net_errno := if oc_ret (k_call k (net_calls s) c) < 0 then oc_errno (k_call k (net_calls s) c) else net_errno s\<rparr>"

lemma run_sys [simp]: "run_state (sys k c) s = (k_call k (net_calls s) c, called k c s)"
  by (simp add: sys_def called_def Let_def)

lemma called_simps [simp]:
  "net_calls (called k c s) = net_calls s @ [c]" "net_log (called k c s) = net_log s"
  "oc_ret (k_call k (net_calls s) c) < 0 \<Longrightarrow> net_errno (called k c s) = oc_errno (k_call k (net_calls s) c)"
  by (simp_all add: called_def)

lemma run_sys_or_log:
  "run_state (sys_or_log k c l msg) s =
     ((), if oc_ret (k_call k (net_calls s) c) < 0 then snd (run_state (log_line k l msg) (called k c s)) else called k c s)"
  by (simp add: sys_or_log_def run_log_line)

text \<open>A call whose failure is logged always happens, and logs exactly when it fails.\<close>

lemma sys_or_log_effect:
  assumes "log_enabled (k_level k) l" and "run_state (sys_or_log k c l msg) s = (u, s')"
  shows "net_calls s' = net_calls s @ [c]"
    and "net_log s' = net_log s @ (if oc_ret (k_call k (net_calls s) c) < 0 then [(l, msg)] else [])"
  using assms by (auto simp: run_sys_or_log run_log_line)

text \<open>Documented behaviour of the kernel: every call is granted, with the exception of binding an address of another family than
  IPv4; and \<open>bind\<close> refuses an IPv6 address shorter than 24 bytes.\<close>

definition kernel_grants :: "kernel \<Rightarrow> bool" where
  "kernel_grants k \<longleftrightarrow> (\<forall>h c. (\<forall>fd b n. c = Sys_bind fd b n \<longrightarrow> sin_family b = AF_INET) \<longrightarrow> 0 \<le> oc_ret (k_call k h c))"

definition bind_length_checked :: "kernel \<Rightarrow> bool" where
  "bind_length_checked k \<longleftrightarrow>
     (\<forall>h fd b n. sin_family b = AF_INET6 \<longrightarrow> n < 24 \<longrightarrow> oc_ret (k_call k h (Sys_bind fd b n)) = -1)"

lemma kernel_grantsD:
  "kernel_grants k \<Longrightarrow> (\<And>fd b n. c = Sys_bind fd b n \<Longrightarrow> sin_family b = AF_INET) \<Longrightarrow> 0 \<le> oc_ret (k_call k h c)"
  unfolding kernel_grants_def by blast

section \<open>Properties\<close>

text \<open>Errors of \<open>accept\<close>. A connection is returned with the peer's address and nothing is logged. A failure is
  returned to the caller, whatever the error, after one line at level ERROR, and one at level FATAL unless the error is one
  of the expected ones; for these \<open>errno\<close> is what the kernel set, even if writing the log line changed it.\<close>

theorem accept_errors:
  assumes "log_enabled (k_level k) ERROR" and "run_state (sockets_accept k fd a) s = ((connfd, a'), s')"
    and "r = k_call k (net_calls s) (Sys_accept4 fd (length a) (SOCK_NONBLOCK + SOCK_CLOEXEC))"
  shows "connfd = oc_ret r \<and>
    (if 0 \<le> connfd then a' = put_bytes 0 (take (length a) (oc_bytes r)) a \<and> net_log s' = net_log s
     else a' = a \<and>
       (if oc_errno r \<in> set accept_expected
        then net_log s' = net_log s @ [(ERROR, ''Socket::accept'')] \<and> net_errno s' = oc_errno r
        else \<exists>msg. net_log s' = net_log s @ [(ERROR, ''Socket::accept''), (FATAL, msg)]))"
  using assms
  by (auto simp: sockets_accept_def run_log_line split: if_splits)

definition sample_kernel :: "int \<Rightarrow> int \<Rightarrow> kernel" where
  "sample_kernel ret err = \<lparr>k_call = (\<lambda>h c. case c of
       Sys_accept4 fd n fl \<Rightarrow> \<lparr>oc_ret = ret, oc_errno = err, oc_bytes = [2, 0, 31, 144, 10, 0, 0, 9]\<rparr>
     | Sys_bind fd b n \<Rightarrow> \<lparr>oc_ret = if sin_family b = AF_INET6 \<and> n < 24 then -1 else 0, oc_errno = 22, oc_bytes = []\<rparr>
     | _ \<Rightarrow> \<lparr>oc_ret = 3, oc_errno = 0, oc_bytes = []\<rparr>),
     k_log_errno = (\<lambda>e. 0), k_level = TRACE, k_somaxconn = 4096\<rparr>"

abbreviation net0 :: net where
  "net0 \<equiv> \<lparr>net_calls = [], net_log = [], net_errno = 0\<rparr>"

theorem accept_errors_witness:
  "net_errno (snd (run_state (sockets_accept (sample_kernel (-1) 24) 5 (replicate 28 0)) net0)) = 24"
proof -
  have l: "log_enabled (k_level (sample_kernel (-1) 24)) ERROR"
    by (simp add: sample_kernel_def log_enabled_def level_number_def)
  obtain connfd a' s' where run:
      "run_state (sockets_accept (sample_kernel (-1) 24) 5 (replicate 28 0)) net0 = ((connfd, a'), s')"
    by (metis surj_pair)
  from accept_errors [OF l run refl] run show ?thesis
    by (simp add: sample_kernel_def accept_expected_def)
qed



text \<open>Out of descriptors: the connection is taken off the backlog with the spare descriptor exactly when writing the
  log lines of \<open>handleRead\<close> leaves \<open>errno\<close> as it was; it is tested only after a line has been written.\<close>

lemma emfile_spare_descriptor:
  assumes "log_enabled (k_level k) ERROR" and "\<not> log_enabled (k_level k) TRACE"
    and "\<And>h fd n fl. oc_ret (k_call k h (Sys_accept4 fd n fl)) = -1 \<and> oc_errno (k_call k h (Sys_accept4 fd n fl)) = err_EMFILE"
    and "run_state (Acceptor_handleRead k cb fd idle) s = ((res, idle'), s')"
  shows "res = None \<and> (Sys_accept fd \<in> set (drop (length (net_calls s)) (net_calls s')) \<longleftrightarrow>
    k_log_errno k err_EMFILE = err_EMFILE)"
  using assms
  by (auto simp: Acceptor_handleRead_def Socket_accept_def sockets_accept_def run_log_line sizeof_sockaddr_in6_def
      accept_expected_def err_EMFILE_def called_def split: if_splits)

text \<open>A socket of \<open>createSocket\<close> is closed on \<open>exec\<close>: with the flag of \<open>socket\<close>, or, on a kernel that does not
  know the flag, by a call after it.\<close>

lemma createSocket_cloexec:
  assumes "run_state (createSocket k family) s = (fd, s')" and "fd \<noteq> -1"
  shows "net_calls s' = net_calls s @ [Sys_socket family (SOCK_STREAM + SOCK_CLOEXEC) 0] \<or>
    net_calls s' = net_calls s @ [Sys_socket family (SOCK_STREAM + SOCK_CLOEXEC) 0, Sys_socket family SOCK_STREAM 0,
      Sys_fcntl fd F_SETFD FD_CLOEXEC]"
  using assms by (auto simp: createSocket_def split: if_splits)

text \<open>Keep-alive probes start after 30 idle seconds, every 5 seconds, three times; the three values are set even when
  keep-alive is being switched off or the first call failed.\<close>

lemma setKeepAlive_calls:
  "net_calls (snd (run_state (setKeepAlive k fd on) s)) = net_calls s @
     [Sys_setsockopt fd SOL_SOCKET SO_KEEPALIVE (if on then 1 else 0), Sys_setsockopt fd SOL_TCP TCP_KEEPIDLE 30,
      Sys_setsockopt fd SOL_TCP TCP_KEEPINTVL 5, Sys_setsockopt fd SOL_TCP TCP_KEEPCNT 3]"
  by (simp add: setKeepAlive_def run_log_line)

end
