(* ===== verification/TA_Thread.thy ===== *)
theory TA_Thread
  imports TA_EventLoop TA_Steps TA_Format
begin

text \<open>
  Threads (\<open>src/Logger/Thread.h\<close>, \<open>Thread.cpp\<close>, \<open>Condition.h\<close>, \<open>src/Reactor/CurrentThread.h\<close>) and the threads that run an event loop
  (\<open>src/Reactor/EventLoopThread.h\<close>, \<open>EventLoopThread.cpp\<close>).

  A \<open>Thread\<close> wraps a \<open>std::thread\<close>, of which only whether it can be joined matters; what the standard answers with an
  exception or with \<open>std::terminate\<close> is a fault. An \<open>EventLoopThread\<close> is shared by its owner, who calls \<open>startLoop\<close> and
  later destroys it, and by the thread it starts, which constructs the loop, publishes its address and runs it. Their steps
  interleave; the loop's own steps are those of \<open>TA_EventLoop\<close>.
\<close>

section \<open>Threads\<close>

datatype std_thread = Joinable | NotJoinable

record thread_obj =
  th_isStarted :: bool
  th_isJoined :: bool
  th_thread :: "std_thread option"

definition Thread_ctor :: thread_obj where
  "Thread_ctor = \<lparr>th_isStarted = False, th_isJoined = False, th_thread = None\<rparr>"

text \<open>\<open>spawned\<close> says whether the system could start a thread; otherwise the constructor of \<open>std::thread\<close> throws.\<close>

definition Thread_start :: "bool \<Rightarrow> thread_obj \<Rightarrow> thread_obj res" where
  "Thread_start spawned t =
     cassert (\<not> th_isStarted t) ''!m_isStarted''
       (cassert (th_thread t = None) ''!p_thread''
         (if spawned then Inr (t\<lparr>th_thread := Some Joinable, th_isStarted := True\<rparr>)
          else Inl (Aborted ''std::system_error'')))"

text \<open>\<open>std::thread::join\<close> and \<open>detach\<close> throw when the thread cannot be joined.\<close>

definition release_thread :: "thread_obj \<Rightarrow> thread_obj res" where
  "release_thread t =
     (case th_thread t of
        None \<Rightarrow> Inl NullDeref
      | Some NotJoinable \<Rightarrow> Inl (Aborted ''std::system_error'')
      | Some Joinable \<Rightarrow> Inr (t\<lparr>th_thread := Some NotJoinable\<rparr>))"

definition Thread_join :: "thread_obj \<Rightarrow> thread_obj res" where
  "Thread_join t =
     cassert (th_isStarted t) ''m_isStarted''
       (cassert (\<not> th_isJoined t) ''!m_isJoined''
         (release_thread (t\<lparr>th_isJoined := True\<rparr>)))"

definition Thread_detach :: "thread_obj \<Rightarrow> thread_obj res" where
  "Thread_detach t =
     cassert (th_isStarted t) ''m_isStarted''
       (cassert (\<not> th_isJoined t) ''!m_isJoined'' (release_thread t))"

text \<open>The destructor of a joinable \<open>std::thread\<close> terminates the program.\<close>

definition Thread_dtor :: "thread_obj \<Rightarrow> unit res" where
  "Thread_dtor t =
     bind_res (if th_isStarted t \<and> \<not> th_isJoined t then release_thread t else Inr t)
       (\<lambda>t1. if th_thread t1 = Some Joinable then Inl (Aborted ''std::terminate'') else Inr ())"

datatype thread_call = CallStart | CallJoin | CallDetach

fun exec_thread :: "thread_call \<Rightarrow> thread_obj \<Rightarrow> thread_obj res" where
  "exec_thread CallStart t = Thread_start True t"
| "exec_thread CallJoin t = Thread_join t"
| "exec_thread CallDetach t = Thread_detach t"

text \<open>The identity of the current thread (\<open>src/Reactor/CurrentThread.h\<close>): thread-local variables that are filled at the
  first call of \<open>tid()\<close>. \<open>gettid\<close> is the answer of the system call.\<close>

record current_thread =
  t_cachedTid :: int
  t_tidString :: string
  t_tidStringLength :: nat

definition current_thread0 :: current_thread where
  "current_thread0 = \<lparr>t_cachedTid = 0, t_tidString = [], t_tidStringLength = 6\<rparr>"

definition thread_tid :: "int \<Rightarrow> current_thread \<Rightarrow> int \<times> current_thread" where
  "thread_tid gettid c =
     (let c1 = (if t_cachedTid c = 0
                then (let shown = pad_with (CHR '' '') 5 (dec_int gettid) @ '' ''
                      in c\<lparr>t_cachedTid := gettid, t_tidString := snprintf_buf 32 shown, t_tidStringLength := length shown\<rparr>)
                else c)
      in (t_cachedTid c1, c1))"

text \<open>All calls in a thread give the answer of the first system call, and the text for the log is complete.\<close>

lemma thread_tid_stable:
  assumes "0 < g" and "g < 2 ^ 31" and "thread_tid g current_thread0 = (v, c)"
  shows "v = g" and "thread_tid h c = (v, c)" and "length (t_tidString c) = t_tidStringLength c"
proof -
  have "length (dec_nat (nat g)) \<le> 10"
    using assms(1,2) by (intro length_dec_nat_le) auto
  then have "length (pad_with (CHR '' '') 5 (dec_int g) @ '' '') < 32" using assms(1) by (simp add: dec_int_def length_pad_with)
  then show "v = g" and "thread_tid h c = (v, c)" and "length (t_tidString c) = t_tidStringLength c"
    using assms by (auto simp: thread_tid_def current_thread0_def snprintf_buf_def Let_def)
qed

section \<open>Loop threads\<close>

datatype lock_side = OwnerSide | WorkerSide

text \<open>Where the owner is: not yet in \<open>startLoop\<close>; about to lock, holding the lock before the test of \<open>p_loop\<close>,
  in \<open>wait\<close>, about to unlock, about to return, returned; in the destructor before the test, before \<open>quit\<close>, before \<open>join\<close>,
  at its end; or stopped by a fault.\<close>

datatype owner_pc =
    O_Idle | O_Lock | O_Test | O_Wait | O_Unlock | O_Return | O_Returned "nat option"
  | D_Test | D_Quit | D_Join | D_End | D_Done | O_Failed fault

text \<open>Where \<open>threadFunc\<close> is.\<close>

datatype worker_pc =
    W_None | W_Create | W_Lock | W_Publish | W_Unlock | W_Enter | W_Loop | W_Clear | W_Destroy | W_Exited

record loop_thread =
  lt_loop :: "nat option"
  lt_exiting :: bool
  lt_thread :: thread_obj
  lt_mutex :: "lock_side option"
  lt_owner :: owner_pc
  lt_worker :: worker_pc
  lt_event_loop :: "event_loop option"

definition EventLoopThread_ctor :: loop_thread where
  "EventLoopThread_ctor = \<lparr>lt_loop = None, lt_exiting = False, lt_thread = Thread_ctor, lt_mutex = None, lt_owner = O_Idle,
     lt_worker = W_None, lt_event_loop = None\<rparr>"

text \<open>\<open>startLoop\<close>, step by step. \<open>Condition::wait\<close> releases the lock and blocks in one step; after a notification, or
  for no reason, the waiting thread locks again.\<close>

definition start_thread :: "loop_thread \<Rightarrow> loop_thread res" where
  "start_thread s =
     cassert (\<not> th_isStarted (lt_thread s)) ''!m_thread.isStarted()''
       (bind_res (Thread_start True (lt_thread s)) (\<lambda>t. Inr (s\<lparr>lt_thread := t, lt_owner := O_Lock, lt_worker := W_Create\<rparr>)))"

definition owner_lock :: "loop_thread \<Rightarrow> loop_thread" where
  "owner_lock s = s\<lparr>lt_mutex := Some OwnerSide, lt_owner := O_Test\<rparr>"

definition cond_wait :: "loop_thread \<Rightarrow> loop_thread" where
  "cond_wait s = s\<lparr>lt_mutex := None, lt_owner := O_Wait\<rparr>"

definition owner_test :: "loop_thread \<Rightarrow> loop_thread" where
  "owner_test s = (if lt_loop s = None then cond_wait s else s\<lparr>lt_owner := O_Unlock\<rparr>)"

definition owner_unlock :: "loop_thread \<Rightarrow> loop_thread" where
  "owner_unlock s = s\<lparr>lt_mutex := None, lt_owner := O_Return\<rparr>"

definition owner_return :: "loop_thread \<Rightarrow> loop_thread" where
  "owner_return s = s\<lparr>lt_owner := O_Returned (lt_loop s)\<rparr>"

text \<open>The destructor: \<open>m_exiting\<close> is set, \<open>p_loop\<close> tested, then followed without the lock.\<close>

definition dtor_begin :: "loop_thread \<Rightarrow> loop_thread" where
  "dtor_begin s = s\<lparr>lt_exiting := True, lt_owner := D_Test\<rparr>"

definition dtor_test :: "loop_thread \<Rightarrow> loop_thread" where
  "dtor_test s = s\<lparr>lt_owner := if lt_loop s = None then D_End else D_Quit\<rparr>"

definition dtor_quit :: "loop_thread \<Rightarrow> loop_thread" where
  "dtor_quit s =
     (case lt_loop s of
        None \<Rightarrow> s\<lparr>lt_owner := O_Failed NullDeref\<rparr>
      | Some p \<Rightarrow>
          (case lt_event_loop s of
             None \<Rightarrow> s\<lparr>lt_owner := O_Failed Dangling\<rparr>
           | Some l \<Rightarrow>
               (case quit_other l of
                  Inl e \<Rightarrow> s\<lparr>lt_owner := O_Failed e\<rparr>
                | Inr l' \<Rightarrow> s\<lparr>lt_event_loop := Some l', lt_owner := D_Join\<rparr>)))"

definition dtor_join :: "loop_thread \<Rightarrow> loop_thread" where
  "dtor_join s =
     (case Thread_join (lt_thread s) of
        Inl e \<Rightarrow> s\<lparr>lt_owner := O_Failed e\<rparr>
      | Inr t \<Rightarrow> s\<lparr>lt_thread := t, lt_owner := D_End\<rparr>)"

definition dtor_end :: "loop_thread \<Rightarrow> loop_thread" where
  "dtor_end s =
     (case Thread_dtor (lt_thread s) of
        Inl e \<Rightarrow> s\<lparr>lt_owner := O_Failed e\<rparr>
      | Inr u \<Rightarrow> s\<lparr>lt_owner := D_Done\<rparr>)"

text \<open>\<open>threadFunc\<close>. No caller sets the initialisation callback, so it is empty. \<open>addr\<close> is the address of the local
  variable \<open>loop\<close>; \<open>Condition::notify\<close> makes a waiting owner lock again.\<close>

definition worker_create :: "nat \<Rightarrow> loop_thread \<Rightarrow> loop_thread" where
  "worker_create tid s = s\<lparr>lt_event_loop := Some (EventLoop_ctor tid), lt_worker := W_Lock\<rparr>"

definition worker_lock :: "loop_thread \<Rightarrow> loop_thread" where
  "worker_lock s = s\<lparr>lt_mutex := Some WorkerSide, lt_worker := W_Publish\<rparr>"

definition cond_notify :: "loop_thread \<Rightarrow> loop_thread" where
  "cond_notify s = (if lt_owner s = O_Wait then s\<lparr>lt_owner := O_Lock\<rparr> else s)"

definition worker_publish :: "nat \<Rightarrow> loop_thread \<Rightarrow> loop_thread" where
  "worker_publish addr s = cond_notify (s\<lparr>lt_loop := Some addr, lt_worker := W_Unlock\<rparr>)"

definition worker_unlock :: "loop_thread \<Rightarrow> loop_thread" where
  "worker_unlock s = s\<lparr>lt_mutex := None, lt_worker := W_Enter\<rparr>"

text \<open>One step of the loop, of the thread itself or of a thread that queues functors.\<close>

definition worker_loop :: "event_loop \<Rightarrow> loop_thread \<Rightarrow> loop_thread" where
  "worker_loop l s = s\<lparr>lt_event_loop := Some l,
     lt_worker := if el_pc l \<noteq> NotLooping then W_Loop else if lt_worker s = W_Loop then W_Clear else W_Enter\<rparr>"

definition worker_clear :: "loop_thread \<Rightarrow> loop_thread" where
  "worker_clear s = s\<lparr>lt_loop := None, lt_worker := W_Destroy\<rparr>"

definition worker_destroy :: "loop_thread \<Rightarrow> loop_thread" where
  "worker_destroy s = s\<lparr>lt_event_loop := None, lt_worker := W_Exited\<rparr>"

text \<open>The interleaving. \<open>queues f\<close> are the functors that functor \<open>f\<close>, or the callback of channel \<open>f\<close>, queues; the loop is
  told to quit by the destructor alone.\<close>

definition queue_only :: "(nat \<Rightarrow> nat list) \<Rightarrow> nat \<Rightarrow> loop_call list" where
  "queue_only queues f = map QueueCall (queues f)"

inductive lt_step :: "(nat \<Rightarrow> nat list) \<Rightarrow> nat \<Rightarrow> loop_thread \<Rightarrow> loop_thread \<Rightarrow> bool" for queues addr where
  start: "lt_owner s = O_Idle \<Longrightarrow> start_thread s = Inr s' \<Longrightarrow> lt_step queues addr s s'"
| olock: "lt_owner s = O_Lock \<Longrightarrow> lt_mutex s = None \<Longrightarrow> lt_step queues addr s (owner_lock s)"
| otest: "lt_owner s = O_Test \<Longrightarrow> lt_step queues addr s (owner_test s)"
| spurious: "lt_owner s = O_Wait \<Longrightarrow> lt_step queues addr s (s\<lparr>lt_owner := O_Lock\<rparr>)"
| ounlock: "lt_owner s = O_Unlock \<Longrightarrow> lt_step queues addr s (owner_unlock s)"
| oreturn: "lt_owner s = O_Return \<Longrightarrow> lt_step queues addr s (owner_return s)"
| destroy: "lt_owner s = O_Returned r \<Longrightarrow> lt_step queues addr s (dtor_begin s)"
| destroy_idle: "lt_owner s = O_Idle \<Longrightarrow> lt_step queues addr s (dtor_begin s)"
| dtest: "lt_owner s = D_Test \<Longrightarrow> lt_step queues addr s (dtor_test s)"
| dquit: "lt_owner s = D_Quit \<Longrightarrow> lt_step queues addr s (dtor_quit s)"
| djoin: "lt_owner s = D_Join \<Longrightarrow> lt_worker s = W_Exited \<Longrightarrow> lt_step queues addr s (dtor_join s)"
| dend: "lt_owner s = D_End \<Longrightarrow> lt_step queues addr s (dtor_end s)"
| wcreate: "lt_worker s = W_Create \<Longrightarrow> lt_step queues addr s (worker_create tid s)"
| wlock: "lt_worker s = W_Lock \<Longrightarrow> lt_mutex s = None \<Longrightarrow> lt_step queues addr s (worker_lock s)"
| wpublish: "lt_worker s = W_Publish \<Longrightarrow> lt_step queues addr s (worker_publish addr s)"
| wunlock: "lt_worker s = W_Unlock \<Longrightarrow> lt_step queues addr s (worker_unlock s)"
| wloop: "lt_worker s = W_Enter \<or> lt_worker s = W_Loop \<Longrightarrow> lt_event_loop s = Some l \<Longrightarrow>
    loop_step (queue_only queues) l l' \<Longrightarrow> el_quit l' \<longrightarrow> el_quit l \<Longrightarrow> lt_step queues addr s (worker_loop l' s)"
| wclear: "lt_worker s = W_Clear \<Longrightarrow> lt_step queues addr s (worker_clear s)"
| wdestroy: "lt_worker s = W_Destroy \<Longrightarrow> lt_event_loop s = Some l \<Longrightarrow> \<not> el_looping l \<Longrightarrow>
    lt_step queues addr s (worker_destroy s)"

inductive_cases lt_stepE: "lt_step queues addr s s'"

section \<open>Invariant\<close>

text \<open>Where the thread can be, given where the owner is.\<close>

fun workers_at :: "owner_pc \<Rightarrow> worker_pc set" where
  "workers_at O_Idle = {W_None}"
| "workers_at O_Wait = {W_Create, W_Lock, W_Publish}"
| "workers_at O_Lock = {W_Create, W_Lock, W_Publish, W_Unlock, W_Enter, W_Loop}"
| "workers_at O_Test = {W_Create, W_Lock, W_Publish, W_Unlock, W_Enter, W_Loop}"
| "workers_at D_Test = {W_None, W_Unlock, W_Enter, W_Loop}"
| "workers_at D_Join = {W_Loop, W_Clear, W_Destroy, W_Exited}"
| "workers_at D_End = {W_None, W_Exited}"
| "workers_at D_Done = {W_None, W_Exited}"
| "workers_at _ = {W_Unlock, W_Enter, W_Loop}"

definition thread_at :: "owner_pc \<Rightarrow> worker_pc \<Rightarrow> thread_obj" where
  "thread_at ow w =
     (if w = W_None then Thread_ctor
      else if ow = D_End \<or> ow = D_Done then \<lparr>th_isStarted = True, th_isJoined = True, th_thread = Some NotJoinable\<rparr>
      else \<lparr>th_isStarted = True, th_isJoined = False, th_thread = Some Joinable\<rparr>)"

definition loop_at :: "owner_pc \<Rightarrow> worker_pc \<Rightarrow> event_loop \<Rightarrow> bool" where
  "loop_at ow w l \<longleftrightarrow> el_inv l \<and> (el_looping l \<longleftrightarrow> w = W_Loop) \<and> (el_quit l \<longrightarrow> ow = D_Join) \<and>
     (w = W_Loop \<and> ow = D_Join \<longrightarrow> el_quit l)"

definition lt_inv :: "nat \<Rightarrow> loop_thread \<Rightarrow> bool" where
  "lt_inv addr s \<longleftrightarrow>
     lt_worker s \<in> workers_at (lt_owner s) \<and>
     lt_mutex s = (if lt_owner s \<in> {O_Test, O_Unlock} then Some OwnerSide
                   else if lt_worker s \<in> {W_Publish, W_Unlock} then Some WorkerSide else None) \<and>
     \<not> (lt_owner s \<in> {O_Test, O_Unlock} \<and> lt_worker s \<in> {W_Publish, W_Unlock}) \<and>
     lt_thread s = thread_at (lt_owner s) (lt_worker s) \<and>
     lt_loop s = (if lt_worker s \<in> {W_Unlock, W_Enter, W_Loop, W_Clear} then Some addr else None) \<and>
     (lt_event_loop s = None \<longleftrightarrow> lt_worker s \<in> {W_None, W_Create, W_Exited}) \<and>
     (\<forall>l. lt_event_loop s = Some l \<longrightarrow> loop_at (lt_owner s) (lt_worker s) l) \<and>
     (\<forall>r. lt_owner s = O_Returned r \<longrightarrow> r = Some addr) \<and>
     (\<forall>e. lt_owner s = O_Failed e \<longrightarrow> e = AssertFailed ''m_looping == true'')"

lemma thread_ops:
  "Thread_start True Thread_ctor = Inr \<lparr>th_isStarted = True, th_isJoined = False, th_thread = Some Joinable\<rparr>"
  "Thread_join \<lparr>th_isStarted = True, th_isJoined = False, th_thread = Some Joinable\<rparr> =
     Inr \<lparr>th_isStarted = True, th_isJoined = True, th_thread = Some NotJoinable\<rparr>"
  "Thread_dtor \<lparr>th_isStarted = True, th_isJoined = True, th_thread = Some NotJoinable\<rparr> = Inr ()"
  "Thread_dtor Thread_ctor = Inr ()" "th_isStarted Thread_ctor = False"
  by (simp_all add: Thread_start_def Thread_join_def Thread_dtor_def Thread_ctor_def release_thread_def)

lemma calls_keep_quit: "fold_res exec_loop_call cs l = Inr l' \<Longrightarrow> el_quit l \<Longrightarrow> el_quit l'"
proof (induction cs arbitrary: l)
  case (Cons c cs)
  then obtain l1 where l1: "exec_loop_call c l = Inr l1" "fold_res exec_loop_call cs l1 = Inr l'" by (auto simp: res_simps)
  then have "el_quit l1" using Cons.prems(2)
    by (cases c) (auto simp: queueInLoop_own_def push_functor_def wakeup_def quit_own_def Let_def res_simps)
  with Cons.IH l1(2) show ?case by blast
qed simp

text \<open>A running loop stays told to quit, and it stops only if it was.\<close>

lemma loop_step_quit:
  assumes "loop_step body l l'" and "el_pc l \<noteq> NotLooping"
  shows "el_quit l \<Longrightarrow> el_quit l'" and "el_pc l' = NotLooping \<Longrightarrow> el_quit l"
proof -
  have "(el_quit l \<longrightarrow> el_quit l') \<and> (el_pc l' = NotLooping \<longrightarrow> el_quit l)"
    using assms
  proof (cases rule: loop_step.cases)
    case (handle a act)
    then show ?thesis
      using calls_keep_quit [of _ "l\<lparr>el_pc := Handling act\<rparr>" l'] exec_loop_calls_frame [of _ "l\<lparr>el_pc := Handling act\<rparr>" l']
      by (cases a) (fastforce simp: handle_wakeup_def call_frame_def)+
  next
    case (run f fs)
    let ?l = "l\<lparr>el_pc := Functors fs, el_executed := el_executed l @ [f]\<rparr>"
    show ?thesis
      using run(2) calls_keep_quit [of _ ?l l'] exec_loop_calls_frame [of _ ?l l']
      by (fastforce simp: run_functor_def call_frame_def)
  qed (auto simp: loop_check_def doPending_swap_def doPending_end_def queueInLoop_other_def push_functor_def quit_other_def
      wakeup_def Let_def res_simps)
  then show "el_quit l \<Longrightarrow> el_quit l'" and "el_pc l' = NotLooping \<Longrightarrow> el_quit l" by blast+
qed

lemma loop_at_ctor [simp]: "loop_at ow w (EventLoop_ctor tid) \<longleftrightarrow> w \<noteq> W_Loop"
  using el_inv_ctor [of tid] by (auto simp: loop_at_def EventLoop_ctor_def)

lemma loop_at_step:
  assumes "loop_at ow w l" and "w = W_Enter \<or> w = W_Loop" and "loop_step (queue_only queues) l l'" and "el_quit l' \<longrightarrow> el_quit l"
    and "\<not> (w = W_Enter \<and> ow = D_Join)"
  shows "loop_at ow (if el_pc l' \<noteq> NotLooping then W_Loop else if w = W_Loop then W_Clear else W_Enter) l'"
proof -
  have inv: "el_inv l'" using loop_step_inv [OF assms(3)] assms(1) by (simp add: loop_at_def)
  have "el_quit l'" if "w = W_Loop" "ow = D_Join"
    using loop_step_quit [OF assms(3)] that assms(1) by (auto simp: loop_at_def el_inv_def)
  with inv assms show ?thesis by (auto simp: loop_at_def el_inv_def)
qed

lemma lt_inv_start: "lt_inv addr EventLoopThread_ctor"
  by (simp add: lt_inv_def EventLoopThread_ctor_def thread_at_def)

lemma lt_step_inv:
  assumes "lt_step queues addr s s'" and "lt_inv addr s"
  shows "lt_inv addr s'"
  using assms(1)
proof (cases rule: lt_step.cases)
  case start
  with assms(2) show ?thesis
    by (auto simp: lt_inv_def start_thread_def thread_at_def thread_ops res_simps)
next
  case olock
  with assms(2) show ?thesis by (auto simp: lt_inv_def owner_lock_def thread_at_def loop_at_def)
next
  case otest
  with assms(2) show ?thesis by (auto simp: lt_inv_def owner_test_def cond_wait_def thread_at_def loop_at_def)
next
  case spurious
  with assms(2) show ?thesis by (auto simp: lt_inv_def thread_at_def loop_at_def)
next
  case ounlock
  with assms(2) show ?thesis by (auto simp: lt_inv_def owner_unlock_def thread_at_def loop_at_def)
next
  case oreturn
  with assms(2) show ?thesis by (auto simp: lt_inv_def owner_return_def thread_at_def loop_at_def)
next
  case (destroy r)
  with assms(2) show ?thesis by (auto simp: lt_inv_def dtor_begin_def thread_at_def loop_at_def)
next
  case destroy_idle
  with assms(2) show ?thesis by (auto simp: lt_inv_def dtor_begin_def thread_at_def loop_at_def)
next
  case dtest
  with assms(2) show ?thesis by (auto simp: lt_inv_def dtor_test_def thread_at_def loop_at_def)
next
  case dquit
  with assms(2) obtain l where l: "lt_event_loop s = Some l" "loop_at D_Quit (lt_worker s) l"
    by (cases "lt_event_loop s") (auto simp: lt_inv_def)
  with dquit assms(2) show ?thesis
    by (cases "el_looping l") (auto simp: lt_inv_def dtor_quit_def quit_other_def thread_at_def loop_at_def el_inv_def woken_def
        running_functors_def)
next
  case djoin
  with assms(2) show ?thesis by (auto simp: lt_inv_def dtor_join_def thread_at_def loop_at_def thread_ops)
next
  case dend
  with assms(2) show ?thesis by (auto simp: lt_inv_def dtor_end_def thread_at_def loop_at_def thread_ops)
next
  case (wcreate tid)
  with assms(2) show ?thesis by (cases "lt_owner s") (auto simp: lt_inv_def worker_create_def thread_at_def)
next
  case wlock
  with assms(2) show ?thesis by (cases "lt_owner s") (auto simp: lt_inv_def worker_lock_def thread_at_def loop_at_def)
next
  case wpublish
  with assms(2) show ?thesis
    by (cases "lt_owner s") (auto simp: lt_inv_def worker_publish_def cond_notify_def thread_at_def loop_at_def)
next
  case wunlock
  with assms(2) show ?thesis by (cases "lt_owner s") (auto simp: lt_inv_def worker_unlock_def thread_at_def loop_at_def)
next
  case (wloop l l')
  have at: "loop_at (lt_owner s) (lt_worker s) l" using assms(2) wloop(3) by (simp add: lt_inv_def)
  have "\<not> (lt_worker s = W_Enter \<and> lt_owner s = D_Join)" using assms(2) by (auto simp: lt_inv_def)
  note at' = loop_at_step [OF at wloop(2,4,5) this]
  have "lt_owner s = D_Join" if "lt_worker s = W_Loop" "el_pc l' = NotLooping"
    using loop_step_quit(2) [OF wloop(4)] at that by (auto simp: loop_at_def el_inv_def)
  with at' wloop(1,2,3) assms(2) show ?thesis
    by (cases "lt_owner s") (auto simp: lt_inv_def worker_loop_def thread_at_def)
next
  case wclear
  with assms(2) show ?thesis by (cases "lt_owner s") (auto simp: lt_inv_def worker_clear_def thread_at_def loop_at_def)
next
  case (wdestroy l)
  with assms(2) show ?thesis by (cases "lt_owner s") (auto simp: lt_inv_def worker_destroy_def thread_at_def loop_at_def)
qed

interpretation lth: invariant_system "\<lambda>s. s = EventLoopThread_ctor" "lt_step queues addr" "lt_inv addr" for queues addr
  by unfold_locales (auto simp: lt_inv_start intro: lt_step_inv)

section \<open>Progress of \<open>startLoop\<close>\<close>

definition starting :: "owner_pc \<Rightarrow> bool" where
  "starting ow \<longleftrightarrow> ow \<in> {O_Lock, O_Test, O_Wait, O_Unlock, O_Return}"

definition owner_rank :: "owner_pc \<Rightarrow> nat" where
  "owner_rank ow = (case ow of O_Lock \<Rightarrow> 5 | O_Test \<Rightarrow> 4 | O_Wait \<Rightarrow> 3 | O_Unlock \<Rightarrow> 2 | O_Return \<Rightarrow> 1 | _ \<Rightarrow> 0)"

definition worker_rank :: "worker_pc \<Rightarrow> nat" where
  "worker_rank w = (case w of W_Create \<Rightarrow> 4 | W_Lock \<Rightarrow> 3 | W_Publish \<Rightarrow> 2 | W_Unlock \<Rightarrow> 1 | _ \<Rightarrow> 0)"

definition start_rank :: "loop_thread \<Rightarrow> nat" where
  "start_rank s = 10 * worker_rank (lt_worker s) + owner_rank (lt_owner s)"

lemmas rank_defs = start_rank_def owner_rank_def worker_rank_def starting_def

lemma starting_progress:
  assumes "lt_inv addr s" and "starting (lt_owner s)"
  shows "\<exists>s'. lt_step queues addr s s' \<and> start_rank s' < start_rank s \<and>
    (starting (lt_owner s') \<or> lt_owner s' = O_Returned (Some addr))"
proof (cases "lt_owner s = O_Wait \<or> lt_owner s = O_Lock \<and> lt_mutex s \<noteq> None")
  case True
  show ?thesis
  proof (cases "lt_worker s")
    case W_Create
    with True assms(2) lt_step.wcreate [OF W_Create] show ?thesis
      by (intro exI [of _ "worker_create 0 s"]) (auto simp: worker_create_def rank_defs)
  next
    case W_Lock
    with True assms(1) have "lt_mutex s = None" by (auto simp: lt_inv_def)
    with W_Lock True assms(2) lt_step.wlock [OF W_Lock] show ?thesis
      by (intro exI [of _ "worker_lock s"]) (auto simp: worker_lock_def rank_defs)
  next
    case W_Publish
    with True assms(2) lt_step.wpublish [OF W_Publish] show ?thesis
      by (intro exI [of _ "worker_publish addr s"]) (auto simp: worker_publish_def cond_notify_def rank_defs)
  next
    case W_Unlock
    with True assms(2) lt_step.wunlock [OF W_Unlock] show ?thesis
      by (intro exI [of _ "worker_unlock s"]) (auto simp: worker_unlock_def rank_defs)
  qed (use True assms(1) in \<open>auto simp: lt_inv_def\<close>)
next
  case False
  with assms(2) consider "lt_owner s = O_Lock" "lt_mutex s = None" | "lt_owner s = O_Test" | "lt_owner s = O_Unlock"
    | "lt_owner s = O_Return"
    by (auto simp: starting_def)
  then show ?thesis
  proof cases
    case 1
    with lt_step.olock show ?thesis by (intro exI [of _ "owner_lock s"]) (auto simp: owner_lock_def rank_defs)
  next
    case 2
    with lt_step.otest show ?thesis
      by (intro exI [of _ "owner_test s"]) (auto simp: owner_test_def cond_wait_def rank_defs)
  next
    case 3
    with lt_step.ounlock show ?thesis by (intro exI [of _ "owner_unlock s"]) (auto simp: owner_unlock_def rank_defs)
  next
    case 4
    then have "lt_loop s = Some addr" using assms(1) by (auto simp: lt_inv_def)
    with 4 lt_step.oreturn [OF 4] show ?thesis
      by (intro exI [of _ "owner_return s"]) (auto simp: owner_return_def rank_defs)
  qed
qed

lemma starting_returns:
  assumes "lt_inv addr s" and "starting (lt_owner s)"
  shows "\<exists>s'. (lt_step queues addr)\<^sup>*\<^sup>* s s' \<and> lt_owner s' = O_Returned (Some addr)"
  using assms
proof (induction "start_rank s" arbitrary: s rule: less_induct)
  case less
  obtain s1 where s1: "lt_step queues addr s s1" "start_rank s1 < start_rank s"
      "starting (lt_owner s1) \<or> lt_owner s1 = O_Returned (Some addr)"
    using starting_progress [OF less.prems] by blast
  with less.hyps [OF s1(2) lt_step_inv [OF s1(1) less.prems(1)]] show ?case
    by (meson converse_rtranclp_into_rtranclp r_into_rtranclp)
qed

section \<open>Progress of the destructor\<close>

text \<open>Steps of a loop that was told to quit, up to its end.\<close>

definition quitting_step :: "(nat \<Rightarrow> loop_call list) \<Rightarrow> event_loop \<Rightarrow> event_loop \<Rightarrow> bool" where
  "quitting_step body l l' \<longleftrightarrow> loop_step body l l' \<and> el_pc l \<noteq> NotLooping \<and> el_quit l"

abbreviation stops :: "(nat \<Rightarrow> loop_call list) \<Rightarrow> event_loop \<Rightarrow> bool" where
  "stops body l \<equiv> \<exists>l'. (quitting_step body)\<^sup>*\<^sup>* l l' \<and> el_pc l' = NotLooping"

lemma stops_step: "loop_step body l l' \<Longrightarrow> el_pc l \<noteq> NotLooping \<Longrightarrow> el_quit l \<Longrightarrow> stops body l' \<Longrightarrow> stops body l"
  by (metis converse_rtranclp_into_rtranclp quitting_step_def)

lemma stops_check: "el_pc l = CheckQuit \<Longrightarrow> el_quit l \<Longrightarrow> stops body l"
  by (rule stops_step [OF loop_step.check]) (auto simp: loop_check_def)

lemma stops_functors: "el_pc l = Functors fs \<Longrightarrow> el_looping l \<Longrightarrow> el_quit l \<Longrightarrow> stops body l"
proof (induction fs arbitrary: l)
  case Nil
  show ?case
    by (rule stops_step [OF loop_step.finish]) (use Nil stops_check in \<open>auto simp: doPending_end_def\<close>)
next
  case (Cons f fs)
  let ?l = "l\<lparr>el_pc := Functors fs, el_executed := el_executed l @ [f]\<rparr>"
  obtain l1 where l1: "fold_res exec_loop_call (body f) ?l = Inr l1"
    using exec_loop_calls_ok [of ?l] Cons.prems(2) by auto
  then have step: "loop_step body l l1"
    using loop_step.run [OF Cons.prems(1), of body l1] by (simp add: run_functor_def)
  have "el_pc l1 = Functors fs" "el_looping l1" "el_quit l1"
    using exec_loop_calls_frame [OF l1] calls_keep_quit [OF l1] Cons.prems by (auto simp: call_frame_def)
  with Cons.IH stops_step [OF step] Cons.prems show ?case by simp
qed

lemma stops_handling: "el_pc l = Handling act \<Longrightarrow> el_looping l \<Longrightarrow> el_quit l \<Longrightarrow> stops body l"
proof (induction act arbitrary: l)
  case Nil
  show ?case
    by (rule stops_step [OF loop_step.swap]) (use Nil stops_functors in \<open>auto simp: doPending_swap_def\<close>)
next
  case (Cons a act)
  let ?l = "l\<lparr>el_pc := Handling act\<rparr>"
  obtain l1 where l1: "handle_active body a ?l = Inr l1" "el_pc l1 = Handling act" "el_looping l1" "el_quit l1"
  proof (cases a)
    case WakeupChannel
    with that [of "handle_wakeup ?l"] Cons.prems show ?thesis by (simp add: handle_wakeup_def)
  next
    case (OtherChannel c)
    obtain l1 where l1: "fold_res exec_loop_call (body c) ?l = Inr l1"
      using exec_loop_calls_ok [of ?l] Cons.prems(2) by auto
    with OtherChannel that [of l1] exec_loop_calls_frame [OF l1] calls_keep_quit [OF l1] Cons.prems show ?thesis
      by (auto simp: call_frame_def)
  qed
  with Cons.IH [of l1] stops_step [OF loop_step.handle [OF Cons.prems(1) l1(1)]] Cons.prems show ?case by simp
qed

lemma quit_loop_stops:
  assumes "el_inv l" and "el_quit l" and "el_looping l"
  shows "stops body l"
proof (cases "el_pc l")
  case InPoll
  with assms have w: "0 < el_eventfd l \<or> 0 < el_wakers l" by (auto simp: el_inv_def woken_def)
  have blocked: "stops body m" if "el_pc m = InPoll" "0 < el_eventfd m" "el_quit m" "el_looping m" for m
    by (rule stops_step [OF loop_step.poll [where act = "[WakeupChannel]"]])
      (use that stops_handling in auto)
  show ?thesis
  proof (cases "0 < el_eventfd l")
    case True
    with blocked InPoll assms show ?thesis by blast
  next
    case False
    with w obtain n where n: "el_wakers l = Suc n" by (auto simp: gr0_conv_Suc)
    show ?thesis
      by (rule stops_step [OF loop_step.other_wakeup [OF n]])
        (use InPoll assms blocked [of "wakeup (l\<lparr>el_wakers := n\<rparr>)"] in \<open>auto simp: wakeup_def\<close>)
  qed
qed (use assms stops_check stops_functors stops_handling in \<open>auto simp: el_inv_def\<close>)

lemma worker_stops:
  assumes "(quitting_step (queue_only queues))\<^sup>*\<^sup>* l l'" and "el_pc l' = NotLooping" and "el_pc l \<noteq> NotLooping"
    and "lt_worker s = W_Loop" and "lt_event_loop s = Some l"
  shows "(lt_step queues addr)\<^sup>*\<^sup>* s (s\<lparr>lt_event_loop := Some l', lt_worker := W_Clear\<rparr>)"
  using assms
proof (induction arbitrary: s rule: converse_rtranclp_induct)
  case (step l m)
  have step1: "lt_step queues addr s (worker_loop m s)"
    using step.hyps(1) step.prems by (intro lt_step.wloop) (auto simp: quitting_step_def)
  show ?case
  proof (cases "el_pc m = NotLooping")
    case True
    with step.hyps(2) have "l' = m"
      by (metis converse_rtranclpE quitting_step_def)
    with True step1 step.prems show ?thesis by (auto simp: worker_loop_def)
  next
    case False
    let ?s = "worker_loop m s"
    have "(lt_step queues addr)\<^sup>*\<^sup>* ?s (?s\<lparr>lt_event_loop := Some l', lt_worker := W_Clear\<rparr>)"
      using step.IH [of ?s] step.prems False by (simp add: worker_loop_def)
    with step1 False show ?thesis by (simp add: worker_loop_def converse_rtranclp_into_rtranclp)
  qed
qed simp

text \<open>From the call of \<open>join\<close> on, the thread ends and the destructor with it.\<close>

abbreviation ends :: "(nat \<Rightarrow> nat list) \<Rightarrow> nat \<Rightarrow> loop_thread \<Rightarrow> bool" where
  "ends queues addr s \<equiv> \<exists>s'. (lt_step queues addr)\<^sup>*\<^sup>* s s' \<and> lt_owner s' = D_Done"

lemma ends_step: "lt_step queues addr s s' \<Longrightarrow> ends queues addr s' \<Longrightarrow> ends queues addr s"
  by (meson converse_rtranclp_into_rtranclp)

lemma exited_ends:
  assumes "lt_inv addr s" and "lt_owner s = D_Join" and "lt_worker s = W_Exited"
  shows "ends queues addr s"
proof -
  have th: "lt_thread s = \<lparr>th_isStarted = True, th_isJoined = False, th_thread = Some Joinable\<rparr>"
    using assms by (simp add: lt_inv_def thread_at_def)
  have "lt_step queues addr (dtor_join s) (dtor_end (dtor_join s))"
    by (rule lt_step.dend) (simp add: dtor_join_def th thread_ops)
  moreover have "lt_owner (dtor_end (dtor_join s)) = D_Done" by (simp add: dtor_join_def dtor_end_def th thread_ops)
  ultimately show ?thesis using ends_step [OF lt_step.djoin [OF assms(2,3)]] by blast
qed

lemma destroy_ends:
  assumes "lt_inv addr s" and "lt_owner s = D_Join" and "lt_worker s = W_Destroy"
  shows "ends queues addr s"
proof -
  obtain l where l: "lt_event_loop s = Some l" "\<not> el_looping l"
    using assms by (cases "lt_event_loop s") (auto simp: lt_inv_def loop_at_def)
  note step = lt_step.wdestroy [OF assms(3) l]
  show ?thesis
    by (rule ends_step [OF step exited_ends [OF lt_step_inv [OF step assms(1)]]])
      (use assms(2) in \<open>simp_all add: worker_destroy_def\<close>)
qed

lemma clear_ends:
  assumes "lt_inv addr s" and "lt_owner s = D_Join" and "lt_worker s = W_Clear"
  shows "ends queues addr s"
proof -
  note step = lt_step.wclear [OF assms(3)]
  show ?thesis
    by (rule ends_step [OF step destroy_ends [OF lt_step_inv [OF step assms(1)]]])
      (use assms(2) in \<open>simp_all add: worker_clear_def\<close>)
qed

lemma join_ends:
  assumes "lt_inv addr s" and "lt_owner s = D_Join"
  shows "ends queues addr s"
proof (cases "lt_worker s = W_Loop")
  case True
  then obtain l where l: "lt_event_loop s = Some l" "el_inv l" "el_looping l" "el_quit l"
    using assms by (cases "lt_event_loop s") (auto simp: lt_inv_def loop_at_def)
  obtain l' where l': "(quitting_step (queue_only queues))\<^sup>*\<^sup>* l l'" "el_pc l' = NotLooping"
    using quit_loop_stops [OF l(2,4,3)] by blast
  let ?s = "s\<lparr>lt_event_loop := Some l', lt_worker := W_Clear\<rparr>"
  have run: "(lt_step queues addr)\<^sup>*\<^sup>* s ?s" by (rule worker_stops [OF l' _ True l(1)]) (use l in \<open>simp add: el_inv_def\<close>)
  with clear_ends [OF lth.inv_steps [OF run assms(1)]] assms(2) show ?thesis by (auto intro: rtranclp_trans)
next
  case False
  with assms have "lt_worker s \<in> {W_Clear, W_Destroy, W_Exited}" by (auto simp: lt_inv_def)
  with clear_ends [OF assms] destroy_ends [OF assms] exited_ends [OF assms] show ?thesis by auto
qed

text \<open>While the loop runs, the destructor does not fail.\<close>

definition running_inv :: "nat \<Rightarrow> loop_thread \<Rightarrow> bool" where
  "running_inv addr s \<longleftrightarrow> lt_inv addr s \<and> (\<forall>e. lt_owner s \<noteq> O_Failed e) \<and>
     \<not> starting (lt_owner s) \<and> lt_owner s \<noteq> O_Idle \<and> (lt_worker s = W_Loop \<or> lt_owner s \<in> {D_Join, D_End, D_Done})"

lemma running_inv_step:
  assumes "lt_step queues addr s s'" and "running_inv addr s"
  shows "running_inv addr s'"
proof -
  have inv: "lt_inv addr s" "lt_inv addr s'" using assms lt_step_inv by (auto simp: running_inv_def)
  have "(\<forall>e. lt_owner s' \<noteq> O_Failed e) \<and> \<not> starting (lt_owner s') \<and> lt_owner s' \<noteq> O_Idle \<and>
      (lt_worker s' = W_Loop \<or> lt_owner s' \<in> {D_Join, D_End, D_Done})"
    using assms(1)
  proof (cases rule: lt_step.cases)
    case dquit
    with assms(2) obtain l where "lt_event_loop s = Some l" "loop_at D_Quit W_Loop l" "lt_loop s = Some addr"
      by (cases "lt_event_loop s") (auto simp: running_inv_def lt_inv_def)
    with dquit show ?thesis by (simp add: dtor_quit_def quit_other_def loop_at_def starting_def)
  next
    case djoin
    with inv(1) show ?thesis by (simp add: lt_inv_def dtor_join_def thread_at_def thread_ops starting_def)
  next
    case dend
    with inv(1) show ?thesis
      by (cases "lt_worker s = W_None") (auto simp: lt_inv_def dtor_end_def thread_at_def thread_ops starting_def)
  next
    case (wloop l l')
    then have "el_quit l" if "el_pc l' = NotLooping" "lt_worker s = W_Loop"
      using loop_step_quit(2) [OF wloop(4)] inv(1) that by (auto simp: lt_inv_def loop_at_def el_inv_def)
    with wloop inv(1) assms(2) show ?thesis
      by (auto simp: running_inv_def worker_loop_def lt_inv_def loop_at_def)
  qed (use assms(2) in \<open>auto simp: running_inv_def lt_inv_def start_thread_def owner_lock_def owner_test_def cond_wait_def
      owner_unlock_def owner_return_def dtor_begin_def dtor_test_def worker_create_def worker_lock_def worker_publish_def
      cond_notify_def worker_unlock_def worker_clear_def worker_destroy_def starting_def res_simps\<close>)
  with inv(2) show ?thesis by (simp add: running_inv_def)
qed

lemma running_ends:
  assumes "running_inv addr s"
  shows "ends queues addr s"
proof -
  note step = lt_step_inv [of queues addr] and inv = assms [unfolded running_inv_def, THEN conjunct1]
  have quit: "ends queues addr t" if t: "running_inv addr t" "lt_owner t = D_Quit" for t
  proof -
    note q = lt_step.dquit [OF t(2), of queues addr]
    have "lt_owner (dtor_quit t) = D_Join"
      using running_inv_step [OF q t(1)] by (auto simp: running_inv_def dtor_quit_def split: option.splits sum.splits)
    with ends_step [OF q join_ends] running_inv_step [OF q t(1)] show ?thesis by (auto simp: running_inv_def)
  qed
  have test: "ends queues addr t" if t: "running_inv addr t" "lt_owner t = D_Test" for t
  proof -
    note q = lt_step.dtest [OF t(2), of queues addr]
    have "lt_owner (dtor_test t) = D_Quit" using t by (auto simp: running_inv_def lt_inv_def dtor_test_def)
    with ends_step [OF q quit] running_inv_step [OF q t(1)] show ?thesis by blast
  qed
  consider r where "lt_owner s = O_Returned r" | "lt_owner s = D_Test" | "lt_owner s = D_Quit" | "lt_owner s = D_Join"
    | "lt_owner s = D_End" | "lt_owner s = D_Done"
    using assms by (cases "lt_owner s") (auto simp: running_inv_def starting_def)
  then show ?thesis
  proof cases
    case 1
    note q = lt_step.destroy [OF 1, of queues addr]
    have "lt_owner (dtor_begin s) = D_Test" by (simp add: dtor_begin_def)
    with ends_step [OF q test] running_inv_step [OF q assms] show ?thesis by blast
  next
    case 5
    have "lt_owner (dtor_end s) = D_Done"
      using running_inv_step [OF lt_step.dend [OF 5] assms] 5 by (auto simp: running_inv_def dtor_end_def split: sum.splits)
    with ends_step [OF lt_step.dend [OF 5]] show ?thesis by blast
  qed (use test quit assms join_ends [OF inv] in auto)
qed

section \<open>Properties\<close>

text \<open>A run up to the return of \<open>startLoop\<close>, and one in which the loop has been entered as well.\<close>

definition started_thread :: loop_thread where
  "started_thread = EventLoopThread_ctor\<lparr>lt_thread := \<lparr>th_isStarted = True, th_isJoined = False, th_thread = Some Joinable\<rparr>,
     lt_owner := O_Lock, lt_worker := W_Create\<rparr>"

definition waiting_thread :: loop_thread where
  "waiting_thread = owner_test (owner_lock started_thread)"

definition published_thread :: loop_thread where
  "published_thread = worker_unlock (worker_publish 7 (worker_lock (worker_create 1 waiting_thread)))"

definition returned_thread :: loop_thread where
  "returned_thread = owner_return (owner_unlock (owner_test (owner_lock published_thread)))"

lemmas run_defs = started_thread_def waiting_thread_def published_thread_def returned_thread_def EventLoopThread_ctor_def
  owner_lock_def owner_test_def cond_wait_def owner_unlock_def owner_return_def worker_create_def worker_lock_def
  worker_publish_def cond_notify_def worker_unlock_def

lemma waiting_reached: "(lt_step queues 7)\<^sup>*\<^sup>* EventLoopThread_ctor waiting_thread"
proof -
  have 1: "lt_step queues 7 EventLoopThread_ctor started_thread"
    by (rule lt_step.start) (simp_all add: run_defs start_thread_def thread_ops)
  have 2: "lt_step queues 7 started_thread (owner_lock started_thread)"
    by (rule lt_step.olock) (simp_all add: run_defs)
  have 3: "lt_step queues 7 (owner_lock started_thread) waiting_thread"
    unfolding waiting_thread_def by (rule lt_step.otest) (simp add: run_defs)
  from 1 2 3 show ?thesis by (meson converse_rtranclp_into_rtranclp rtranclp.rtrancl_refl)
qed

lemma returned_reached: "(lt_step queues 7)\<^sup>*\<^sup>* EventLoopThread_ctor returned_thread"
proof -
  let ?s1 = "worker_create 1 waiting_thread" and ?s4 = "owner_lock published_thread"
  have w: "lt_step queues 7 waiting_thread ?s1" by (rule lt_step.wcreate) (simp add: run_defs)
  have l: "lt_step queues 7 ?s1 (worker_lock ?s1)" by (rule lt_step.wlock) (simp_all add: run_defs)
  have p: "lt_step queues 7 (worker_lock ?s1) (worker_publish 7 (worker_lock ?s1))"
    by (rule lt_step.wpublish) (simp add: run_defs)
  have u: "lt_step queues 7 (worker_publish 7 (worker_lock ?s1)) published_thread"
    unfolding published_thread_def by (rule lt_step.wunlock) (simp add: run_defs)
  have o1: "lt_step queues 7 published_thread ?s4" by (rule lt_step.olock) (simp_all add: run_defs)
  have o2: "lt_step queues 7 ?s4 (owner_test ?s4)" by (rule lt_step.otest) (simp add: run_defs)
  have o3: "lt_step queues 7 (owner_test ?s4) (owner_unlock (owner_test ?s4))" by (rule lt_step.ounlock) (simp add: run_defs)
  have o4: "lt_step queues 7 (owner_unlock (owner_test ?s4)) returned_thread"
    unfolding returned_thread_def by (rule lt_step.oreturn) (simp add: run_defs)
  show ?thesis
    using waiting_reached w l p u o1 o2 o3 o4 by (meson rtranclp.rtrancl_into_rtrancl)
qed




definition looping_thread :: loop_thread where
  "looping_thread = worker_loop ((EventLoop_ctor 1)\<lparr>el_looping := True, el_pc := CheckQuit\<rparr>) returned_thread"

lemma looping_reached: "(lt_step queues 7)\<^sup>*\<^sup>* EventLoopThread_ctor looping_thread"
proof -
  have "lt_step queues 7 returned_thread looping_thread"
    unfolding looping_thread_def
  proof (rule lt_step.wloop)
    show "lt_event_loop returned_thread = Some (EventLoop_ctor 1)" by (simp add: run_defs)
    show "loop_step (queue_only queues) (EventLoop_ctor 1) ((EventLoop_ctor 1)\<lparr>el_looping := True, el_pc := CheckQuit\<rparr>)"
      by (rule loop_step.enter) (simp_all add: EventLoop_ctor_def loop_enter_def)
  qed (simp_all add: run_defs EventLoop_ctor_def)
  with returned_reached show ?thesis by (meson rtranclp.rtrancl_into_rtrancl)
qed


text \<open>Destroyed earlier, between the publication of \<open>p_loop\<close> and the entry into \<open>loop\<close>, it stops the program in the
  assertion of \<open>quit\<close>.\<close>

lemma early_destruction_aborts:
  "\<exists>s. (lt_step queues 7)\<^sup>*\<^sup>* EventLoopThread_ctor s \<and> lt_owner s = O_Failed (AssertFailed ''m_looping == true'')"
proof -
  let ?s1 = "dtor_begin returned_thread"
  have 1: "lt_step queues 7 returned_thread ?s1" by (rule lt_step.destroy [of _ "Some 7"]) (simp add: run_defs)
  have 2: "lt_step queues 7 ?s1 (dtor_test ?s1)" by (rule lt_step.dtest) (simp add: dtor_begin_def)
  have 3: "lt_step queues 7 (dtor_test ?s1) (dtor_quit (dtor_test ?s1))"
    by (rule lt_step.dquit) (simp add: dtor_begin_def dtor_test_def run_defs)
  have "lt_owner (dtor_quit (dtor_test ?s1)) = O_Failed (AssertFailed ''m_looping == true'')"
    by (simp add: dtor_begin_def dtor_test_def dtor_quit_def run_defs EventLoop_ctor_def quit_other_def)
  with returned_reached 1 2 3 show ?thesis by (meson rtranclp.rtrancl_into_rtrancl)
qed

text \<open>The calls of a \<open>Thread\<close>. A sequence of calls passes the assertions exactly when it starts the thread at most once
  and then joins or detaches it at most once; after that the destructor ends normally unless the thread was detached, in
  which case it detaches a second time and the exception ends the program.\<close>

theorem thread_life:
  "((\<exists>t. fold_res exec_thread cs Thread_ctor = Inr t) \<longleftrightarrow>
      cs \<in> {[], [CallStart], [CallStart, CallJoin], [CallStart, CallDetach]}) \<and>
   (\<forall>t. fold_res exec_thread cs Thread_ctor = Inr t \<longrightarrow>
      Thread_dtor t = (if CallDetach \<in> set cs then Inl (Aborted ''std::system_error'') else Inr ()))"
proof -
  let ?J = "\<lambda>j. \<lparr>th_isStarted = True, th_isJoined = j, th_thread = Some NotJoinable\<rparr>"
  have released: "\<exists>e. fold_res exec_thread (c # xs) (?J j) = Inl e" for c xs j
    by (cases c) (auto simp: Thread_start_def Thread_join_def Thread_detach_def release_thread_def cassert_def)
  have fresh: "\<exists>e. exec_thread c Thread_ctor = Inl e" if "c \<noteq> CallStart" for c
    using that by (cases c) (auto simp: Thread_ctor_def Thread_join_def Thread_detach_def)
  let ?S = "\<lparr>th_isStarted = True, th_isJoined = False, th_thread = Some Joinable\<rparr>"
  have started: "exec_thread CallStart ?S = Inl (AssertFailed ''!m_isStarted'')" "exec_thread CallJoin ?S = Inr (?J True)"
    "exec_thread CallDetach ?S = Inr (?J False)" "exec_thread CallStart Thread_ctor = Inr ?S"
    by (simp_all add: Thread_start_def Thread_join_def Thread_detach_def release_thread_def Thread_ctor_def)
  have dtor: "Thread_dtor Thread_ctor = Inr ()" "Thread_dtor ?S = Inr ()" "Thread_dtor (?J True) = Inr ()"
    "Thread_dtor (?J False) = Inl (Aborted ''std::system_error'')"
    by (simp_all add: Thread_dtor_def release_thread_def Thread_ctor_def)
  consider "cs = []" | c xs where "cs = c # xs" "c \<noteq> CallStart" | "cs = [CallStart]" | c xs where "cs = CallStart # c # xs"
    by (cases cs; metis list.exhaust)
  then show ?thesis
  proof cases
    case (2 c xs)
    with fresh [of c] show ?thesis by auto
  next
    case (4 c xs)
    show ?thesis
    proof (cases xs)
      case Nil
      with 4 started dtor show ?thesis by (cases c) auto
    next
      case (Cons d ys)
      with 4 started released [of d ys True] released [of d ys False] have "\<exists>e. fold_res exec_thread cs Thread_ctor = Inl e"
        by (cases c) simp_all
      with 4 Cons show ?thesis by auto
    qed
  qed (use started dtor in auto)
qed

theorem thread_life_witness:
  "\<exists>t. fold_res exec_thread [CallStart, CallDetach] Thread_ctor = Inr t \<and> Thread_dtor t = Inl (Aborted ''std::system_error'')"
  using thread_life [of "[CallStart, CallDetach]"] by auto

end
