(* ===== verification/TA_LogLife.thy ===== *)
theory TA_LogLife
  imports Complex_Main TA_Thread TA_AsyncLogging
begin

text \<open>
  The life of the logger: its global settings (\<open>src/Logger/Logger.cpp\<close>), the \<open>AsyncLogging\<close> object that owns the back-end thread
  (\<open>AsyncLogging.h\<close>, \<open>AsyncLogging.cpp\<close>), on top of the \<open>Thread\<close> of \<open>TA_Thread\<close>, the opening of the log file
  (\<open>FileUtil.cpp\<close>), and the formatted items of a log line (\<open>Fmt\<close> of \<open>LogStream.cpp\<close>). What the back end does between its start
  and its end is \<open>TA_AsyncLogging\<close>.
\<close>

section \<open>The owner of the back end\<close>

record async_owner =
  ao_filePath :: string
  ao_rollSize :: int
  ao_flushInterval :: rat
  ao_isRunning :: bool
  ao_thread :: thread_obj

definition AsyncLogging_ctor :: async_owner where
  "AsyncLogging_ctor = \<lparr>ao_filePath = [], ao_rollSize = 10, ao_flushInterval = 3, ao_isRunning = False, ao_thread = Thread_ctor\<rparr>"

definition owner_set :: "string \<Rightarrow> int \<Rightarrow> rat \<Rightarrow> async_owner \<Rightarrow> async_owner" where
  "owner_set filePath rollSize flushInterval a =
     a\<lparr>ao_filePath := filePath, ao_rollSize := rollSize, ao_flushInterval := flushInterval\<rparr>"

definition owner_start :: "async_owner \<Rightarrow> async_owner res" where
  "owner_start a =
     (if \<not> ao_isRunning a
      then bind_res (Thread_start True (ao_thread a)) (\<lambda>t. Inr (a\<lparr>ao_isRunning := True, ao_thread := t\<rparr>))
      else Inr a)"

definition owner_stop :: "async_owner \<Rightarrow> async_owner res" where
  "owner_stop a = bind_res (Thread_join (ao_thread a)) (\<lambda>t. Inr (a\<lparr>ao_isRunning := False, ao_thread := t\<rparr>))"

text \<open>The destructor stops a running back end; then the members are destroyed, the thread among them.\<close>

definition AsyncLogging_dtor :: "async_owner \<Rightarrow> unit res" where
  "AsyncLogging_dtor a =
     bind_res (if ao_isRunning a then owner_stop a else Inr a) (\<lambda>a1. Thread_dtor (ao_thread a1))"

text \<open>The first statement of the thread, on the value of \<open>m_isRunning\<close> it finds.\<close>

definition routine_enter :: "async_owner \<Rightarrow> async_log res" where
  "routine_enter a = cassert (ao_isRunning a) ''m_isRunning == true'' (Inr AsyncLogging_start)"

section \<open>Settings of the logger\<close>

datatype log_output = DefaultOutput | AsyncOutput | UserOutput nat

record log_settings =
  g_logLevel :: log_level
  g_output :: log_output
  g_flush :: log_output
  g_async :: async_owner

definition log_settings0 :: log_settings where
  "log_settings0 = \<lparr>g_logLevel = TRACE, g_output = DefaultOutput, g_flush = DefaultOutput, g_async = AsyncLogging_ctor\<rparr>"

definition setLogLevel :: "log_level \<Rightarrow> log_settings \<Rightarrow> log_settings" where
  "setLogLevel level g = g\<lparr>g_logLevel := level\<rparr>"

definition getLogLevel :: "log_settings \<Rightarrow> log_level" where
  "getLogLevel g = g_logLevel g"

definition setOutput :: "log_output \<Rightarrow> log_settings \<Rightarrow> log_settings" where
  "setOutput out g = g\<lparr>g_output := out\<rparr>"

definition setFlush :: "log_output \<Rightarrow> log_settings \<Rightarrow> log_settings" where
  "setFlush flush g = g\<lparr>g_flush := flush\<rparr>"

definition setAsync :: "string \<Rightarrow> int \<Rightarrow> rat \<Rightarrow> log_settings \<Rightarrow> log_settings res" where
  "setAsync filePath rollSize flushInterval g =
     bind_res (owner_start (owner_set filePath rollSize flushInterval (g_async g))) (\<lambda>a.
       Inr (setFlush AsyncOutput (setOutput AsyncOutput (g\<lparr>g_async := a\<rparr>))))"

text \<open>The calls of a program on the settings and on the one \<open>AsyncLogging\<close> object (\<open>getInstance\<close>).\<close>

datatype log_call = SetLevel log_level | SetAsync string int rat | StopAsync

fun exec_log :: "log_call \<Rightarrow> log_settings \<Rightarrow> log_settings res" where
  "exec_log (SetLevel l) g = Inr (setLogLevel l g)"
| "exec_log (SetAsync p r i) g = setAsync p r i g"
| "exec_log StopAsync g = bind_res (owner_stop (g_async g)) (\<lambda>a. Inr (g\<lparr>g_async := a\<rparr>))"

section \<open>Opening the log file\<close>

definition err_ENOENT :: nat where "err_ENOENT = 2"

text \<open>\<open>fileSize\<close> on the answer of \<open>stat(2)\<close>: an errno or the size.\<close>

definition fileSize :: "nat + nat \<Rightarrow> nat res" where
  "fileSize st =
     (case st of
        Inl err \<Rightarrow> if err = err_ENOENT then Inr 0 else Inl (Aborted ''stat fileInfo failed'')
      | Inr sz \<Rightarrow> Inr sz)"

text \<open>The constructor of \<open>AppendFile\<close>: \<open>fopen\<close> gave a stream on the content or null, then \<open>stat\<close>.\<close>

definition AppendFile_open :: "string option \<Rightarrow> nat + nat \<Rightarrow> append_file res" where
  "AppendFile_open stream st =
     bind_res (fileSize st) (\<lambda>n.
       case stream of
         None \<Rightarrow> Inl (AssertFailed ''m_fp'')
       | Some content \<Rightarrow> Inr \<lparr>af_content = content, af_writtenBytes = n\<rparr>)"

section \<open>Formatted items\<close>

text \<open>\<open>Fmt\<close>: the text of \<open>snprintf\<close> has to fit the 32 bytes with its null character.\<close>

definition Fmt_ctor :: "string \<Rightarrow> (string \<times> nat) res" where
  "Fmt_ctor formatted = cassert (length formatted < 32) ''static_cast<size_t>(m_length) < sizeof(m_buf)''
     (Inr (snprintf_buf 32 formatted, length formatted))"

definition put_fmt :: "string \<times> nat \<Rightarrow> log_buffer \<Rightarrow> log_buffer" where
  "put_fmt f b = lb_append (take (snd f) (fst f)) b"

section \<open>Lemmas\<close>

lemmas owner_defs = owner_set_def owner_start_def owner_stop_def AsyncLogging_ctor_def Thread_start_def Thread_join_def
  Thread_ctor_def release_thread_def

text \<open>The three stages of the object: not started, running, stopped for good.\<close>

definition stage_thread :: "nat \<Rightarrow> thread_obj" where
  "stage_thread n = \<lparr>th_isStarted = (0 < n), th_isJoined = (n = 2),
     th_thread = (if n = 0 then None else if n = 1 then Some Joinable else Some NotJoinable)\<rparr>"

definition at_stage :: "nat \<Rightarrow> async_owner \<Rightarrow> bool" where
  "at_stage n a \<longleftrightarrow> ao_isRunning a = (n = 1) \<and> ao_thread a = stage_thread n"

lemma at_stage_ctor: "at_stage 0 (g_async log_settings0)"
  by (simp add: at_stage_def stage_thread_def log_settings0_def AsyncLogging_ctor_def Thread_ctor_def)

fun next_stage :: "log_call \<Rightarrow> nat \<Rightarrow> nat option" where
  "next_stage (SetLevel l) n = Some n"
| "next_stage (SetAsync p r i) n = (if n = 2 then None else Some 1)"
| "next_stage StopAsync n = (if n = 1 then Some 2 else None)"

lemma exec_log_stage:
  assumes "at_stage n (g_async g)" and "n \<le> 2"
  shows "case next_stage c n of
      None \<Rightarrow> \<exists>msg. exec_log c g = Inl (AssertFailed msg)
    | Some k \<Rightarrow> k \<le> 2 \<and> (\<exists>g'. exec_log c g = Inr g' \<and> at_stage k (g_async g'))"
proof -
  have "n = 0 \<or> n = 1 \<or> n = 2" using assms(2) by auto
  then show ?thesis
    using assms(1)
    by (cases c) (auto simp: at_stage_def stage_thread_def owner_defs setAsync_def setFlush_def setOutput_def setLogLevel_def)
qed

lemma dtor_at_stage: "at_stage n a \<Longrightarrow> n \<le> 2 \<Longrightarrow> AsyncLogging_dtor a = Inr ()"
  by (cases "n = 1") (auto simp: at_stage_def stage_thread_def AsyncLogging_dtor_def owner_stop_def Thread_join_def
      release_thread_def Thread_dtor_def)

fun run_stages :: "log_call list \<Rightarrow> nat \<Rightarrow> nat option" where
  "run_stages [] n = Some n"
| "run_stages (c # cs) n = (case next_stage c n of None \<Rightarrow> None | Some k \<Rightarrow> run_stages cs k)"

lemma exec_logs_stage:
  assumes "at_stage n (g_async g)" and "n \<le> 2"
  shows "case run_stages cs n of
      None \<Rightarrow> \<exists>msg. fold_res exec_log cs g = Inl (AssertFailed msg)
    | Some k \<Rightarrow> k \<le> 2 \<and> (\<exists>g'. fold_res exec_log cs g = Inr g' \<and> at_stage k (g_async g'))"
  using assms
proof (induction cs arbitrary: n g)
  case (Cons c cs)
  show ?case
  proof (cases "next_stage c n")
    case None
    then show ?thesis using exec_log_stage [OF Cons.prems, of c] by auto
  next
    case (Some k)
    then obtain g1 where "k \<le> 2" "exec_log c g = Inr g1" "at_stage k (g_async g1)"
      using exec_log_stage [OF Cons.prems, of c] by auto
    with Cons.IH [of k g1] Some show ?thesis by (simp split: option.splits)
  qed
qed simp

fun not_level :: "log_call \<Rightarrow> bool" where
  "not_level (SetLevel l) = False"
| "not_level c = True"

lemma run_stages_filter: "run_stages cs n = run_stages (filter not_level cs) n"
proof (induction cs arbitrary: n)
  case (Cons c cs)
  then show ?case by (cases c) auto
qed simp

text \<open>Calls of \<open>setAsync\<close>, and at most one \<open>stop\<close>, which is the last call and not the first one.\<close>

fun is_SetAsync :: "log_call \<Rightarrow> bool" where
  "is_SetAsync (SetAsync p r i) = True"
| "is_SetAsync c = False"

definition starts_then_stop :: "log_call list \<Rightarrow> bool" where
  "starts_then_stop cs \<longleftrightarrow> list_all is_SetAsync cs \<or>
     (1 < length cs \<and> list_all is_SetAsync (butlast cs) \<and> last cs = StopAsync)"

lemma run_stages_2: "list_all not_level cs \<Longrightarrow> run_stages cs 2 \<noteq> None \<longleftrightarrow> cs = []"
proof (cases cs)
  case (Cons c ds)
  then show "list_all not_level cs \<Longrightarrow> ?thesis" by (cases c) simp_all
qed simp

lemma run_stages_1:
  "list_all not_level cs \<Longrightarrow> run_stages cs 1 \<noteq> None \<longleftrightarrow>
     list_all is_SetAsync cs \<or> (cs \<noteq> [] \<and> list_all is_SetAsync (butlast cs) \<and> last cs = StopAsync)"
proof (induction cs)
  case (Cons c cs)
  then show ?case using run_stages_2 [of cs] by (cases c) auto
qed simp

lemma run_stages_iff: "list_all not_level cs \<Longrightarrow> run_stages cs 0 \<noteq> None \<longleftrightarrow> starts_then_stop cs"
proof (cases cs)
  case (Cons c ds)
  then show "list_all not_level cs \<Longrightarrow> ?thesis"
    using run_stages_1 [of ds] by (cases c) (auto simp: starts_then_stop_def)
qed (simp add: starts_then_stop_def)

section \<open>Properties\<close>

text \<open>The life of asynchronous logging. A sequence of calls of \<open>setLogLevel\<close>, \<open>setAsync\<close> and \<open>stop\<close> passes the
  assertions exactly when, apart from changes of the level, it consists of any number of calls of \<open>setAsync\<close>, the last of them
  followed by at most one \<open>stop\<close>: stopping what was not started, stopping twice and starting again after a stop all
  fail an assertion of the thread object. In every state reached the destructor ends normally.\<close>

theorem async_logging_life:
  "if starts_then_stop (filter not_level cs)
   then \<exists>g. fold_res exec_log cs log_settings0 = Inr g \<and> AsyncLogging_dtor (g_async g) = Inr ()
   else \<exists>msg. fold_res exec_log cs log_settings0 = Inl (AssertFailed msg)"
proof -
  have "run_stages cs 0 \<noteq> None \<longleftrightarrow> starts_then_stop (filter not_level cs)"
    using run_stages_iff [of "filter not_level cs"] run_stages_filter [of cs 0] by (simp add: list_all_iff)
  with exec_logs_stage [OF at_stage_ctor, of cs] dtor_at_stage show ?thesis by (auto split: option.splits)
qed

text \<open>\<open>start\<close> followed by \<open>stop\<close> at once can end the program: the thread may find \<open>m_isRunning\<close> reset already.\<close>

lemma early_stop_aborts:
  assumes "owner_start AsyncLogging_ctor = Inr a"
  shows "\<exists>s. routine_enter a = Inr s" and "routine_enter (a\<lparr>ao_isRunning := False\<rparr>) = Inl (AssertFailed ''m_isRunning == true'')"
  using assms by (auto simp: owner_defs routine_enter_def)

text \<open>After any calls of \<open>setAsync\<close> lines go to the back end, and the settings are those of the last call.\<close>

lemma setAsync_last:
  assumes "setAsync path roll interval g = Inr g'"
  shows "g_output g' = AsyncOutput" and "ao_filePath (g_async g') = path" and "ao_isRunning (g_async g')"
  using assms by (auto simp: setAsync_def setFlush_def setOutput_def owner_start_def owner_set_def bind_res_def split: if_splits sum.splits)

text \<open>A formatted number of at most 31 characters reaches the line unchanged.\<close>

lemma put_fmt_complete:
  assumes "Fmt_ctor formatted = Inr f" and "length formatted < lb_avail b"
  shows "lb_data (put_fmt f b) = lb_data b @ formatted"
  using assms by (auto simp: Fmt_ctor_def put_fmt_def snprintf_buf_def lb_append_def cassert_def split: if_splits)

end
