(* ===== verification/TA_Calendar.thy ===== *)
theory TA_Calendar
  imports TA_LogStream
begin

text \<open>
  Dates: \<open>gmtime_r\<close> and \<open>strftime\<close> of the C library as the code uses them, \<open>TimeStamp::toFormattedString\<close>
  (\<open>src/common/TimeStamp.cpp\<close>), \<open>LogFile::getlogFileName\<close> (\<open>src/Logger/LogFile.cpp\<close>), and the time of a log line with this
  calendar in place of the parameter of \<open>TA_LogStream\<close>. Times are not before the epoch. A broken-down time is
  written with its calendar year and with the months counted from 1, as the code prints them.
\<close>

section \<open>The calendar\<close>

definition leap_year :: "nat \<Rightarrow> bool" where
  "leap_year y \<longleftrightarrow> 4 dvd y \<and> (\<not> 100 dvd y \<or> 400 dvd y)"

definition days_in_year :: "nat \<Rightarrow> nat" where
  "days_in_year y = (if leap_year y then 366 else 365)"

definition days_in_month :: "nat \<Rightarrow> nat \<Rightarrow> nat" where
  "days_in_month y m = (if m = 2 then (if leap_year y then 29 else 28) else if m \<in> {4, 6, 9, 11} then 30 else 31)"

text \<open>The year and the day of the year, and the month and the day of the month, counted from 0.\<close>

function civil_year :: "nat \<Rightarrow> nat \<Rightarrow> nat \<times> nat" where
  "civil_year y d = (if d < days_in_year y then (y, d) else civil_year (y + 1) (d - days_in_year y))"
  by auto
termination by (relation "measure snd") (auto simp: days_in_year_def)

function civil_month :: "nat \<Rightarrow> nat \<Rightarrow> nat \<Rightarrow> nat \<times> nat" where
  "civil_month y m d = (if d < days_in_month y m then (m, d) else civil_month y (m + 1) (d - days_in_month y m))"
  by auto
termination by (relation "measure (\<lambda>(y, m, d). d)") (auto simp: days_in_month_def)

declare civil_year.simps [simp del] civil_month.simps [simp del]

definition gmtime :: "nat \<Rightarrow> tm" where
  "gmtime t =
     (let days = t div 86400; r = t mod 86400; (y, yd) = civil_year 1970 days; (m, md) = civil_month y 1 yd
      in (y, m, md + 1, r div 3600, r mod 3600 div 60, r mod 60))"

text \<open>The inverse: the seconds before a date, by counting the days of the years and months before it.\<close>

definition days_before_year :: "nat \<Rightarrow> nat" where
  "days_before_year y = (\<Sum>i = 1970..<y. days_in_year i)"

definition days_before_month :: "nat \<Rightarrow> nat \<Rightarrow> nat" where
  "days_before_month y m = (\<Sum>i = 1..<m. days_in_month y i)"

definition timegm :: "tm \<Rightarrow> nat" where
  "timegm t = (case t of (y, m, d, h, mi, s) \<Rightarrow>
     (days_before_year y + days_before_month y m + (d - 1)) * 86400 + h * 3600 + mi * 60 + s)"

definition date_ok :: "tm \<Rightarrow> bool" where
  "date_ok t = (case t of (y, m, d, h, mi, s) \<Rightarrow>
     1970 \<le> y \<and> 1 \<le> m \<and> m \<le> 12 \<and> 1 \<le> d \<and> d \<le> days_in_month y m \<and> h < 24 \<and> mi < 60 \<and> s < 60)"

lemma civil_year_days:
  "civil_year y d = (y', d') \<Longrightarrow> 1970 \<le> y \<Longrightarrow>
   days_before_year y' + d' = days_before_year y + d \<and> d' < days_in_year y' \<and> y \<le> y'"
proof (induction y d arbitrary: y' d' rule: civil_year.induct)
  case (1 y d)
  show ?case
  proof (cases "d < days_in_year y")
    case True
    with "1.prems" show ?thesis by (auto simp: civil_year.simps [of y d])
  next
    case False
    with "1.prems" have "civil_year (y + 1) (d - days_in_year y) = (y', d')" by (subst (asm) civil_year.simps) simp
    with "1.IH" [OF False this] "1.prems"(2) False show ?thesis by (auto simp: days_before_year_def)
  qed
qed

lemma days_before_month_13: "days_before_month y 13 = days_in_year y"
  by (simp add: days_before_month_def days_in_year_def days_in_month_def eval_nat_numeral)

lemma days_before_month_mono: "m \<le> m' \<Longrightarrow> days_before_month y m \<le> days_before_month y m'"
  unfolding days_before_month_def by (rule sum_mono2) auto

lemma civil_month_days:
  "civil_month y m d = (m', d') \<Longrightarrow> 1 \<le> m \<Longrightarrow>
   days_before_month y m' + d' = days_before_month y m + d \<and> d' < days_in_month y m' \<and> m \<le> m'"
proof (induction y m d arbitrary: m' d' rule: civil_month.induct)
  case (1 y m d)
  show ?case
  proof (cases "d < days_in_month y m")
    case True
    with "1.prems" show ?thesis by (auto simp: civil_month.simps [of y m d])
  next
    case False
    with "1.prems" have "civil_month y (m + 1) (d - days_in_month y m) = (m', d')" by (subst (asm) civil_month.simps) simp
    with "1.IH" [OF False this] "1.prems"(2) False show ?thesis by (auto simp: days_before_month_def)
  qed
qed

lemma seconds_of_day: "(r::nat) div 3600 * 3600 + r mod 3600 div 60 * 60 + r mod 60 = r"
proof -
  have "r mod 3600 mod 60 = r mod 60" by (rule mod_mod_cancel) simp
  with div_mult_mod_eq [of "r mod 3600" 60] div_mult_mod_eq [of r 3600] show ?thesis by linarith
qed

text \<open>The date is a date of the calendar, and it is the one so many seconds after the epoch.\<close>

lemma gmtime_timegm: "date_ok (gmtime t) \<and> timegm (gmtime t) = t"
proof -
  obtain y yd where y: "civil_year 1970 (t div 86400) = (y, yd)" by force
  obtain m md where m: "civil_month y 1 yd = (m, md)" by force
  from civil_year_days [OF y] have yd: "days_before_year y + yd = t div 86400" "yd < days_in_year y" "1970 \<le> y"
    by (auto simp: days_before_year_def)
  from civil_month_days [OF m] have md: "days_before_month y m + md = yd" "md < days_in_month y m" "1 \<le> m"
    by (auto simp: days_before_month_def)
  have "m \<le> 12"
  proof (rule ccontr)
    assume "\<not> m \<le> 12"
    then have "days_in_year y \<le> days_before_month y m"
      using days_before_month_mono [of 13 m y] by (simp add: days_before_month_13)
    with md(1) yd(2) show False by simp
  qed
  moreover have "t mod 86400 div 3600 < 24" "t mod 86400 mod 3600 div 60 < 60" by (simp_all add: less_mult_imp_div_less)
  ultimately have ok: "date_ok (gmtime t)" using yd md y m by (simp add: gmtime_def date_ok_def Let_def)
  have "timegm (gmtime t) = (days_before_year y + days_before_month y m + md) * 86400 +
      (t mod 86400 div 3600 * 3600 + t mod 86400 mod 3600 div 60 * 60 + t mod 86400 mod 60)"
    using y m by (simp add: gmtime_def timegm_def Let_def)
  also have "days_before_year y + days_before_month y m + md = t div 86400" using yd(1) md(1) by simp
  finally show ?thesis using ok unfolding seconds_of_day by simp
qed

section \<open>Texts\<close>

text \<open>\<open>toFormattedString\<close> of a number of microseconds.\<close>

definition toFormattedString :: "bool \<Rightarrow> nat \<Rightarrow> string" where
  "toFormattedString showMicroseconds us =
     (case gmtime (us div 1000000) of (y, mo, d, h, mi, s) \<Rightarrow>
        let date = pad_with (CHR '' '') 4 (dec_nat y) @ d2 mo @ d2 d @ '' '' @ d2 h @ '':'' @ d2 mi @ '':'' @ d2 s
        in snprintf_buf 64
             (if showMicroseconds then date @ ''.'' @ pad_with (CHR ''0'') 6 (dec_nat (us mod 1000000)) else date))"

text \<open>\<open>strftime\<close> with \<open>.%Y%m%d-%H%M%S\<close> into a buffer of 24 bytes; a longer result would leave it unspecified.\<close>

definition log_stamp :: "tm \<Rightarrow> string" where
  "log_stamp t = (case t of (y, mo, d, h, mi, s) \<Rightarrow>
     ''.'' @ dec_nat y @ d2 mo @ d2 d @ ''-'' @ d2 h @ d2 mi @ d2 s)"

text \<open>\<open>baseName.substr(0, baseName.rfind("."))\<close>: all of it when there is no dot.\<close>

definition before_last_dot :: "string \<Rightarrow> string" where
  "before_last_dot f = (if CHR ''.'' \<in> set f then rev (tl (dropWhile (\<lambda>c. c \<noteq> CHR ''.'') (rev f))) else f)"

definition getlogFileName :: "nat \<Rightarrow> string \<Rightarrow> string" where
  "getlogFileName now baseName = before_last_dot baseName @ log_stamp (gmtime now) @ ''.log''"

section \<open>Reading the texts back\<close>

text \<open>What a reader makes of the columns of a formatted time stamp.\<close>

definition column :: "nat \<Rightarrow> nat \<Rightarrow> string \<Rightarrow> nat" where
  "column i n t = digits_value 0 (take n (drop i t))"

definition read_stamp :: "string \<Rightarrow> nat" where
  "read_stamp t = timegm (column 0 4 t, column 4 2 t, column 6 2 t, column 9 2 t, column 12 2 t, column 15 2 t) * 1000000 +
     column 18 6 t"

definition year_of :: "nat \<Rightarrow> nat" where
  "year_of secs = fst (gmtime secs)"

lemma length_year: "1970 \<le> y \<Longrightarrow> y < 10000 \<Longrightarrow> length (dec_nat y) = 4"
proof -
  assume y: "1970 \<le> y" "y < 10000"
  have "length (dec_nat y) \<le> 4" using y by (intro length_dec_nat_le) simp_all
  moreover have "\<not> y < 10" "\<not> y div 10 < 10" "\<not> y div 10 div 10 < 10" using y by arith+
  then have "3 < length (dec_nat y)"
    using dec_nat_ne [of "y div 10 div 10 div 10"]
    by (simp add: dec_nat.simps [of y] dec_nat.simps [of "y div 10"] dec_nat.simps [of "y div 10 div 10"]
        del: dec_nat_ne div_mult2_numeral_eq)
  ultimately show ?thesis by simp
qed

lemma date_ok_bounds:
  "date_ok (y, m, d, h, mi, s) \<Longrightarrow> m < 100 \<and> d < 100 \<and> h < 92 \<and> mi < 100 \<and> s < 100"
  by (auto simp: date_ok_def days_in_month_def split: if_splits)

lemma micros_digits:
  "length (pad_with (CHR ''0'') 6 (dec_nat (us mod 1000000))) = 6"
  "digits_value 0 (pad_with (CHR ''0'') 6 (dec_nat (us mod 1000000))) = us mod 1000000"
proof -
  have "length (dec_nat (us mod 1000000)) \<le> 6" by (rule length_dec_nat_le) simp_all
  then show "length (pad_with (CHR ''0'') 6 (dec_nat (us mod 1000000))) = 6" by (simp add: length_pad_with)
qed (simp add: pad_with_def digits_value_zeros digits_value_dec_nat)

text \<open>C24: a formatted time stamp determines the time. For a date whose year has four digits, the text with
  microseconds has 24 characters and reading its columns gives back the microseconds since the epoch; the text without
  them is its first 17 characters.\<close>

theorem formatted_stamp_roundtrip:
  assumes "year_of (us div 1000000) < 10000"
  shows "length (toFormattedString True us) = 24 \<and> read_stamp (toFormattedString True us) = us \<and>
    toFormattedString False us = take 17 (toFormattedString True us)"
proof -
  obtain y mo d h mi s where g: "gmtime (us div 1000000) = (y, mo, d, h, mi, s)" by (metis prod_cases6)
  have ok: "date_ok (y, mo, d, h, mi, s)" and t: "timegm (y, mo, d, h, mi, s) = us div 1000000"
    using gmtime_timegm [of "us div 1000000"] g by simp_all
  have y: "length (dec_nat y) = 4" using assms ok g by (intro length_year) (simp_all add: year_of_def date_ok_def)
  have two: "length (d2 mo) = 2" "length (d2 d) = 2" "length (d2 h) = 2" "length (d2 mi) = 2" "length (d2 s) = 2"
    using date_ok_bounds [OF ok] by (simp_all add: length_d2)
  let ?u = "pad_with (CHR ''0'') 6 (dec_nat (us mod 1000000))"
  have tx: "toFormattedString True us =
      dec_nat y @ d2 mo @ d2 d @ '' '' @ d2 h @ '':'' @ d2 mi @ '':'' @ d2 s @ ''.'' @ ?u"
    "toFormattedString False us = dec_nat y @ d2 mo @ d2 d @ '' '' @ d2 h @ '':'' @ d2 mi @ '':'' @ d2 s"
    using y two micros_digits(1) [of us] by (simp_all add: toFormattedString_def g snprintf_buf_def pad_with_def [of _ 4])
  have "column 0 4 (toFormattedString True us) = y" "column 4 2 (toFormattedString True us) = mo"
    "column 6 2 (toFormattedString True us) = d" "column 9 2 (toFormattedString True us) = h"
    "column 12 2 (toFormattedString True us) = mi" "column 15 2 (toFormattedString True us) = s"
    "column 18 6 (toFormattedString True us) = us mod 1000000"
    using y two micros_digits [of us] by (simp_all add: column_def tx digits_value_dec_nat digits_value_d2)
  with t y two micros_digits(1) [of us] show ?thesis by (simp add: read_stamp_def tx)
qed

theorem formatted_stamp_roundtrip_witness:
  "read_stamp (toFormattedString True 1582934400000007) = 1582934400000007 \<and> gmtime 1582934400 = (2020, 2, 29, 0, 0, 0)"
proof -
  have y: "civil_year 1970 18321 = (2020, 59)"
    by (simp add: civil_year.simps days_in_year_def leap_year_def)
  then have g: "gmtime 1582934400 = (2020, 2, 29, 0, 0, 0)"
    by (simp add: gmtime_def civil_month.simps days_in_month_def leap_year_def)
  with formatted_stamp_roundtrip [of 1582934400000007] show ?thesis by (simp add: year_of_def)
qed

text \<open>With this calendar a log line's time never fails its assertions, for years of four digits.\<close>

lemma formatTime_gmtime:
  assumes "year_of (now div 1000000) < 10000"
  shows "\<exists>tc' b'. formatTime gmtime now tc b = Inr (tc', b')"
proof -
  obtain y mo d h mi s where g: "gmtime (now div 1000000) = (y, mo, d, h, mi, s)" by (metis prod_cases6)
  have ok: "date_ok (y, mo, d, h, mi, s)" using gmtime_timegm [of "now div 1000000"] g by simp
  have y: "length (dec_nat y) = 4" using assms ok g by (intro length_year) (simp_all add: year_of_def date_ok_def)
  have "length (d2 mo) = 2" "length (d2 d) = 2" "length (d2 (h + 8)) = 2" "length (d2 mi) = 2" "length (d2 s) = 2"
    using date_ok_bounds [OF ok] by (simp_all add: length_d2)
  with y have "length (time_text (gmtime (now div 1000000))) = 19" by (simp add: time_text_def g length_pad_with)
  with micros_digits(1) [of now] show ?thesis by (simp add: formatTime_def Let_def)
qed

text \<open>The name of a log file: the name up to its last dot, the date and the suffix.\<close>

lemma before_last_dot_ext: "CHR ''.'' \<notin> set ext \<Longrightarrow> before_last_dot (f @ ''.'' @ ext) = f"
proof -
  assume "CHR ''.'' \<notin> set ext"
  then have "dropWhile (\<lambda>c. c \<noteq> CHR ''.'') (rev ext @ CHR ''.'' # rev f) = CHR ''.'' # rev f"
    by (subst dropWhile_append2) auto
  then show ?thesis by (simp add: before_last_dot_def)
qed

lemma getlogFileName_text:
  assumes "CHR ''.'' \<notin> set ext" and "year_of now < 10000"
  shows "\<exists>stamp. getlogFileName now (f @ ''.'' @ ext) = f @ stamp @ ''.log'' \<and> length stamp = 16"
proof -
  obtain y mo d h mi s where g: "gmtime now = (y, mo, d, h, mi, s)" by (metis prod_cases6)
  have ok: "date_ok (y, mo, d, h, mi, s)" using gmtime_timegm [of now] g by simp
  have "length (dec_nat y) = 4" using assms(2) ok g by (intro length_year) (simp_all add: year_of_def date_ok_def)
  then have "length (log_stamp (gmtime now)) = 16"
    using date_ok_bounds [OF ok] by (simp add: log_stamp_def g length_d2)
  with before_last_dot_ext [OF assms(1)] show ?thesis by (simp add: getlogFileName_def)
qed

end
