(* ===== verification/TA_Ownership.thy ===== *)
theory TA_Ownership
  imports TA_Prelude
begin

text \<open>
  Owners of heap objects: the vector of pointers (\<open>src/Logger/ptr_vector.h\<close>), the scoped pointer
  (\<open>src/Logger/scoped_ptr.h\<close>), and the atomic counters (\<open>src/common/Atomic.h\<close>).

  Of the heap only the addresses of the live objects matter; \<open>delete\<close> of an address that is not live is a fault, of a null
  pointer it does nothing. \<open>operator new\<close> is the parameter \<open>alloc\<close>.
\<close>

section \<open>Vectors of pointers\<close>

definition delete_obj :: "nat \<Rightarrow> nat set \<Rightarrow> nat set res" where
  "delete_obj p H = (if p = 0 then Inr H else if p \<in> H then Inr (H - {p}) else Inl Dangling)"

text \<open>A \<open>ptr_vector\<close> with the heap.\<close>

record ptr_vec =
  pv_vector :: "nat list"
  pv_heap :: "nat set"

text \<open>The macro \<open>ASSERT\<close> of the header aborts.\<close>

definition pv_assert :: "bool \<Rightarrow> string \<Rightarrow> 'a res \<Rightarrow> 'a res" where
  "pv_assert c msg k = (if c then k else Inl (Aborted msg))"

definition pv_delete_all :: "nat list \<Rightarrow> ptr_vec \<Rightarrow> ptr_vec res" where
  "pv_delete_all ps s = bind_res (fold_res delete_obj ps (pv_heap s)) (\<lambda>H. Inr (s\<lparr>pv_heap := H\<rparr>))"

definition pv_clear :: "ptr_vec \<Rightarrow> ptr_vec res" where
  "pv_clear s = bind_res (pv_delete_all (pv_vector s) s) (\<lambda>s1. Inr (s1\<lparr>pv_vector := []\<rparr>))"

definition pv_dtor :: "ptr_vec \<Rightarrow> ptr_vec res" where
  "pv_dtor s = pv_clear s"

text \<open>\<open>push_back\<close> owns its argument in any case: if the vector cannot grow, the argument is deleted and the exception goes on
  (the boolean).\<close>

definition pv_push_back :: "bool \<Rightarrow> nat \<Rightarrow> ptr_vec \<Rightarrow> (bool \<times> ptr_vec) res" where
  "pv_push_back grows p s =
     pv_assert (p \<noteq> 0) ''NULL point at ptr_vector push_back()''
       (if grows then Inr (False, s\<lparr>pv_vector := pv_vector s @ [p]\<rparr>)
        else bind_res (delete_obj p (pv_heap s)) (\<lambda>H. Inr (True, s\<lparr>pv_heap := H\<rparr>)))"

definition pv_pop_back :: "ptr_vec \<Rightarrow> (nat \<times> ptr_vec) res" where
  "pv_pop_back s =
     pv_assert (pv_vector s \<noteq> []) ''pop_back() on empty container''
       (Inr (last (pv_vector s), s\<lparr>pv_vector := butlast (pv_vector s)\<rparr>))"

text \<open>\<open>size_type\<close> is \<open>unsigned int\<close>.\<close>

definition pv_size :: "ptr_vec \<Rightarrow> nat" where
  "pv_size s = length (pv_vector s) mod 2 ^ 32"

definition pv_empty :: "ptr_vec \<Rightarrow> bool" where
  "pv_empty s \<longleftrightarrow> pv_vector s = []"

definition pv_at :: "nat \<Rightarrow> ptr_vec \<Rightarrow> nat res" where
  "pv_at n s = pv_assert (n < pv_size s) ''operator[] n out of the border'' (Inr (pv_vector s ! n))"

text \<open>\<open>new T\<close>, or an exception.\<close>

definition new_obj :: "(nat set \<Rightarrow> nat option) \<Rightarrow> ptr_vec \<Rightarrow> (nat \<times> ptr_vec) option" where
  "new_obj alloc s =
     (case alloc (pv_heap s) of None \<Rightarrow> None | Some p \<Rightarrow> Some (p, s\<lparr>pv_heap := insert p (pv_heap s)\<rparr>))"

text \<open>\<open>push_back(new T)\<close>. \<open>grows n\<close> says whether a vector of \<open>n\<close> elements can take one more; the boolean is the exception.\<close>

definition push_new :: "(nat set \<Rightarrow> nat option) \<Rightarrow> (nat \<Rightarrow> bool) \<Rightarrow> ptr_vec \<Rightarrow> (bool \<times> ptr_vec) res" where
  "push_new alloc grows s =
     (case new_obj alloc s of
        None \<Rightarrow> Inr (True, s)
      | Some (p, s1) \<Rightarrow> pv_push_back (grows (length (pv_vector s1))) p s1)"

text \<open>The loop of \<open>resize\<close>; an exception leaves it.\<close>

fun pv_grow :: "(nat set \<Rightarrow> nat option) \<Rightarrow> (nat \<Rightarrow> bool) \<Rightarrow> nat \<Rightarrow> ptr_vec \<Rightarrow> (bool \<times> ptr_vec) res" where
  "pv_grow alloc grows 0 s = Inr (False, s)"
| "pv_grow alloc grows (Suc k) s =
     bind_res (push_new alloc grows s) (\<lambda>(e, s1). if e then Inr (True, s1) else pv_grow alloc grows k s1)"

definition pv_resize :: "(nat set \<Rightarrow> nat option) \<Rightarrow> (nat \<Rightarrow> bool) \<Rightarrow> nat \<Rightarrow> ptr_vec \<Rightarrow> (bool \<times> ptr_vec) res" where
  "pv_resize alloc grows n s =
     (let sz = pv_size s
      in bind_res
           (if n < sz
            then bind_res (pv_delete_all (drop n (pv_vector s)) s) (\<lambda>s1. Inr (False, s1\<lparr>pv_vector := take n (pv_vector s1)\<rparr>))
            else if sz < n then pv_grow alloc grows (n - sz) s
            else Inr (False, s))
           (\<lambda>(e, s1). if e then Inr (True, s1)
                      else pv_assert (n = pv_size s1) ''resize error size asymmetry'' (Inr (False, s1))))"

text \<open>\<open>swap\<close> of two vectors.\<close>

definition pv_swap :: "nat list \<Rightarrow> ptr_vec \<Rightarrow> nat list \<times> ptr_vec" where
  "pv_swap v s = (pv_vector s, s\<lparr>pv_vector := v\<rparr>)"

section \<open>Scoped pointers\<close>

definition scoped_dtor :: "nat \<Rightarrow> nat set \<Rightarrow> nat set res" where
  "scoped_dtor m H = delete_obj m H"

definition scoped_reset :: "nat \<Rightarrow> nat \<Rightarrow> nat set \<Rightarrow> (nat \<times> nat set) res" where
  "scoped_reset p m H =
     bind_res (if p \<noteq> m \<and> m \<noteq> 0 then delete_obj m H else Inr H) (\<lambda>H1. Inr (p, H1))"

definition scoped_bool :: "nat \<Rightarrow> bool" where
  "scoped_bool m \<longleftrightarrow> m \<noteq> 0"

section \<open>Atomic counters\<close>

text \<open>Each operation is one atomic step on the value; it returns a result and the new value.\<close>

definition atomic_get :: "'a::len word \<Rightarrow> 'a word \<times> 'a word" where
  "atomic_get v = (v, if v = 0 then 0 else v)"

definition getAndAdd :: "'a::len word \<Rightarrow> 'a word \<Rightarrow> 'a word \<times> 'a word" where
  "getAndAdd x v = (v, v + x)"

definition addAndGet :: "'a::len word \<Rightarrow> 'a word \<Rightarrow> 'a word \<times> 'a word" where
  "addAndGet x v = (let (r, v1) = getAndAdd x v in (r + x, v1))"

definition incrementAndGet :: "'a::len word \<Rightarrow> 'a word \<times> 'a word" where
  "incrementAndGet v = addAndGet 1 v"

definition decrementAndGet :: "'a::len word \<Rightarrow> 'a word \<times> 'a word" where
  "decrementAndGet v = addAndGet (- 1) v"

text \<open>The increments of any number of threads, in the order in which they happen.\<close>

fun increments :: "nat \<Rightarrow> 'a::len word \<Rightarrow> 'a word list" where
  "increments 0 v = []"
| "increments (Suc k) v = (let (r, v1) = incrementAndGet v in r # increments k v1)"

section \<open>Clients\<close>

text \<open>A client of a vector: it pushes new objects, takes objects out and keeps them, puts one it keeps back, deletes one it keeps,
  and resizes and clears the vector.\<close>

record pv_client =
  cl_vec :: ptr_vec
  cl_held :: "nat list"

datatype pv_call = PushNew | PopKeep | PushKept nat | DeleteKept nat | ResizeTo nat | ClearAll

definition on_vec :: "(bool \<times> ptr_vec) res \<Rightarrow> pv_client \<Rightarrow> pv_client res" where
  "on_vec m c = bind_res m (\<lambda>(e, s). Inr (c\<lparr>cl_vec := s\<rparr>))"

fun exec_pv :: "(nat set \<Rightarrow> nat option) \<Rightarrow> (nat \<Rightarrow> bool) \<Rightarrow> pv_call \<Rightarrow> pv_client \<Rightarrow> pv_client res" where
  "exec_pv alloc grows PushNew c = on_vec (push_new alloc grows (cl_vec c)) c"
| "exec_pv alloc grows PopKeep c =
     bind_res (pv_pop_back (cl_vec c)) (\<lambda>(p, s1). Inr (c\<lparr>cl_vec := s1, cl_held := p # cl_held c\<rparr>))"
| "exec_pv alloc grows (PushKept i) c =
     (if i < length (cl_held c)
      then on_vec (pv_push_back (grows (length (pv_vector (cl_vec c)))) (cl_held c ! i) (cl_vec c))
             (c\<lparr>cl_held := remove1 (cl_held c ! i) (cl_held c)\<rparr>)
      else Inr c)"
| "exec_pv alloc grows (DeleteKept i) c =
     (if i < length (cl_held c)
      then bind_res (pv_delete_all [cl_held c ! i] (cl_vec c))
             (\<lambda>s. Inr (c\<lparr>cl_vec := s, cl_held := remove1 (cl_held c ! i) (cl_held c)\<rparr>))
      else Inr c)"
| "exec_pv alloc grows (ResizeTo n) c = on_vec (pv_resize alloc grows n (cl_vec c)) c"
| "exec_pv alloc grows ClearAll c = bind_res (pv_clear (cl_vec c)) (\<lambda>s. Inr (c\<lparr>cl_vec := s\<rparr>))"

section \<open>Lemmas\<close>

text \<open>\<open>operator new\<close> returns an address that is neither null nor in use.\<close>

definition alloc_fresh :: "(nat set \<Rightarrow> nat option) \<Rightarrow> bool" where
  "alloc_fresh alloc \<longleftrightarrow> (\<forall>H p. alloc H = Some p \<longrightarrow> p \<notin> H \<and> p \<noteq> 0)"

text \<open>The objects outside of both, those of the vector and those the client keeps are apart and make up the heap.\<close>

definition owns :: "nat set \<Rightarrow> nat list \<Rightarrow> ptr_vec \<Rightarrow> bool" where
  "owns H0 held s \<longleftrightarrow> distinct (pv_vector s @ held) \<and> 0 \<notin> set (pv_vector s @ held) \<and>
     set (pv_vector s @ held) \<inter> H0 = {} \<and> pv_heap s = H0 \<union> set (pv_vector s @ held)"

abbreviation only_aborts :: "fault \<Rightarrow> bool" where
  "only_aborts e \<equiv> \<exists>msg. e = Aborted msg"

lemma pv_assert_yields: "(c \<Longrightarrow> yields only_aborts Q k) \<Longrightarrow> yields only_aborts Q (pv_assert c msg k)"
  by (simp add: pv_assert_def)

lemma delete_all_set:
  "distinct ps \<Longrightarrow> 0 \<notin> set ps \<Longrightarrow> set ps \<subseteq> H \<Longrightarrow> fold_res delete_obj ps H = Inr (H - set ps)"
proof (induction ps arbitrary: H)
  case (Cons p ps)
  then have "fold_res delete_obj ps (H - {p}) = Inr (H - {p} - set ps)" by (intro Cons.IH) auto
  moreover have "H - {p} - set ps = H - set (p # ps)" by auto
  moreover have "delete_obj p H = Inr (H - {p})" using Cons.prems by (simp add: delete_obj_def)
  ultimately show ?case by simp
qed simp

lemma pv_delete_all_ok:
  "distinct ps \<Longrightarrow> 0 \<notin> set ps \<Longrightarrow> set ps \<subseteq> pv_heap s \<Longrightarrow>
   pv_delete_all ps s = Inr (s\<lparr>pv_heap := pv_heap s - set ps\<rparr>)"
  by (simp add: pv_delete_all_def delete_all_set)

lemma clear_owns:
  assumes "owns H0 held s"
  shows "\<exists>s'. pv_clear s = Inr s' \<and> owns H0 held s' \<and> pv_vector s' = []"
proof -
  have "pv_delete_all (pv_vector s) s = Inr (s\<lparr>pv_heap := pv_heap s - set (pv_vector s)\<rparr>)"
    using assms by (intro pv_delete_all_ok) (auto simp: owns_def)
  with assms show ?thesis by (auto simp: pv_clear_def owns_def)
qed

lemma push_owns:
  assumes "owns H0 (p # held) s"
  shows "yields only_aborts (\<lambda>(e, s1). owns H0 held s1 \<and> pv_vector s1 = (if e then pv_vector s else pv_vector s @ [p]))
    (pv_push_back g p s)"
  using assms by (auto simp: pv_push_back_def pv_assert_def delete_obj_def owns_def)

lemma push_new_owns:
  assumes "alloc_fresh alloc" and "owns H0 held s"
  shows "yields only_aborts (\<lambda>(e, s1). owns H0 held s1 \<and>
      (if e then pv_vector s1 = pv_vector s else \<exists>p. pv_vector s1 = pv_vector s @ [p])) (push_new alloc grows s)"
proof (cases "alloc (pv_heap s)")
  case None
  with assms show ?thesis by (simp add: push_new_def new_obj_def)
next
  case (Some p)
  let ?s = "s\<lparr>pv_heap := insert p (pv_heap s)\<rparr>"
  have "owns H0 (p # held) ?s" using assms Some by (auto simp: alloc_fresh_def owns_def)
  then have "yields only_aborts (\<lambda>(e, s1). owns H0 held s1 \<and>
      (if e then pv_vector s1 = pv_vector s else \<exists>p. pv_vector s1 = pv_vector s @ [p])) (pv_push_back g p ?s)" for g
    by (rule yields_mono [OF push_owns]) (auto split: if_splits)
  with Some show ?thesis by (simp add: push_new_def new_obj_def)
qed

lemma grow_owns:
  assumes "alloc_fresh alloc" and "owns H0 held s"
  shows "yields only_aborts (\<lambda>(e, s1). owns H0 held s1 \<and>
      (\<exists>ps. pv_vector s1 = pv_vector s @ ps \<and> (\<not> e \<longrightarrow> length ps = k))) (pv_grow alloc grows k s)"
  using assms(2)
proof (induction k arbitrary: s)
  case (Suc k)
  show ?case
    unfolding pv_grow.simps
  proof (rule yields_bind [OF push_new_owns [OF assms(1) Suc.prems]], clarify)
    fix e s1
    assume s1: "owns H0 held s1" "if e then pv_vector s1 = pv_vector s else \<exists>p. pv_vector s1 = pv_vector s @ [p]"
    show "yields only_aborts (\<lambda>(e, s1). owns H0 held s1 \<and> (\<exists>ps. pv_vector s1 = pv_vector s @ ps \<and> (\<not> e \<longrightarrow> length ps = Suc k)))
        (if e then Inr (True, s1) else pv_grow alloc grows k s1)"
      using s1 Suc.IH [OF s1(1)] by (auto elim!: yields_mono)
  qed
qed simp

text \<open>\<open>resize\<close> keeps the prefix and has the size that was asked for, up to an exception.\<close>

lemma resize_owns:
  assumes "alloc_fresh alloc" and "owns H0 held s" and "n < 2 ^ 32"
  shows "yields only_aborts (\<lambda>(e, s1). owns H0 held s1 \<and> (\<not> e \<longrightarrow> pv_size s1 = n) \<and>
      (\<exists>k ps. pv_vector s1 = take k (pv_vector s) @ ps \<and> min n (pv_size s) \<le> k)) (pv_resize alloc grows n s)"
proof -
  let ?Q = "\<lambda>(e, s1). owns H0 held s1 \<and> (\<not> e \<longrightarrow> pv_size s1 = n) \<and>
      (\<exists>k ps. pv_vector s1 = take k (pv_vector s) @ ps \<and> min n (pv_size s) \<le> k)"
  have keep: "\<exists>k qs. pv_vector s @ ps = take k (pv_vector s) @ qs \<and> min n (pv_size s) \<le> k" for ps
    by (rule exI [of _ "length (pv_vector s)"]) (simp add: pv_size_def min.coboundedI2)
  consider "n < pv_size s" | "pv_size s < n" | "n = pv_size s" by linarith
  then show ?thesis
  proof cases
    case 1
    have v: "take n (pv_vector s) @ drop n (pv_vector s) = pv_vector s" by simp
    have d: "set (take n (pv_vector s)) \<inter> set (drop n (pv_vector s)) = {}"
      using assms(2) by (intro set_take_disj_set_drop_if_distinct) (auto simp: owns_def)
    have del: "pv_delete_all (drop n (pv_vector s)) s = Inr (s\<lparr>pv_heap := pv_heap s - set (drop n (pv_vector s))\<rparr>)"
      using assms(2) by (intro pv_delete_all_ok) (auto simp: owns_def dest: in_set_dropD)
    have len: "n < length (pv_vector s)" using 1 mod_less_eq_dividend [of "length (pv_vector s)" "2 ^ 32"]
      by (simp add: pv_size_def)
    let ?s = "s\<lparr>pv_heap := pv_heap s - set (drop n (pv_vector s)), pv_vector := take n (pv_vector s)\<rparr>"
    have "set (pv_vector s) = set (take n (pv_vector s)) \<union> set (drop n (pv_vector s))" using v by (metis set_append)
    then have "owns H0 held ?s" using assms(2) d unfolding owns_def by auto
    with 1 len del assms(3) show ?thesis
      by (auto simp: pv_resize_def pv_assert_def pv_size_def Let_def intro!: exI [of _ n] exI [of _ "[]"])
  next
    case 2
    have "yields only_aborts ?Q (bind_res (pv_grow alloc grows (n - pv_size s) s) (\<lambda>(e, s1). if e then Inr (True, s1)
        else pv_assert (n = pv_size s1) ''resize error size asymmetry'' (Inr (False, s1))))"
      using 2 by (intro yields_bind [OF grow_owns [OF assms(1,2)]])
        (use keep assms(3) in \<open>auto simp: pv_assert_def\<close>)
    with 2 show ?thesis by (simp add: pv_resize_def Let_def)
  next
    case 3
    with assms(2) keep [of "[]"] show ?thesis by (auto simp: pv_resize_def pv_assert_def Let_def)
  qed
qed

definition client_owns :: "nat set \<Rightarrow> pv_client \<Rightarrow> bool" where
  "client_owns H0 c \<longleftrightarrow> owns H0 (cl_held c) (cl_vec c)"

lemma held_first: "i < length held \<Longrightarrow> owns H0 held s \<Longrightarrow> owns H0 (held ! i # remove1 (held ! i) held) s"
proof -
  assume i: "i < length held" and o: "owns H0 held s"
  then have "set (held ! i # remove1 (held ! i) held) = set held" "distinct (held ! i # remove1 (held ! i) held)"
    by (auto simp: owns_def set_remove1_eq insert_absorb)
  with o show ?thesis unfolding owns_def distinct_append set_append by simp
qed

lemma exec_pv_owns:
  assumes "alloc_fresh alloc" and "client_owns H0 c" and "\<And>n. call = ResizeTo n \<Longrightarrow> n < 2 ^ 32"
  shows "yields only_aborts (client_owns H0) (exec_pv alloc grows call c)"
proof (cases call)
  case PushNew
  then show ?thesis
    using push_new_owns [OF assms(1) assms(2) [unfolded client_owns_def]]
    by (auto simp: on_vec_def client_owns_def intro!: yields_bind elim: yields_mono)
next
  case PopKeep
  then show ?thesis
    using assms(2)
    by (cases "pv_vector (cl_vec c)" rule: rev_cases) (auto simp: pv_pop_back_def pv_assert_def client_owns_def owns_def)
next
  case (PushKept i)
  show ?thesis
  proof (cases "i < length (cl_held c)")
    case True
    with assms(2) have "owns H0 (cl_held c ! i # remove1 (cl_held c ! i) (cl_held c)) (cl_vec c)"
      by (auto simp: client_owns_def intro: held_first)
    from push_owns [OF this] True PushKept show ?thesis
      by (auto simp: on_vec_def client_owns_def intro!: yields_bind elim: yields_mono)
  qed (use PushKept assms(2) in simp)
next
  case (DeleteKept i)
  show ?thesis
  proof (cases "i < length (cl_held c)")
    case True
    with assms(2) have o: "owns H0 (cl_held c ! i # remove1 (cl_held c ! i) (cl_held c)) (cl_vec c)"
      by (auto simp: client_owns_def intro: held_first)
    then have "pv_delete_all [cl_held c ! i] (cl_vec c) =
        Inr ((cl_vec c)\<lparr>pv_heap := pv_heap (cl_vec c) - {cl_held c ! i}\<rparr>)"
      using pv_delete_all_ok [of "[cl_held c ! i]" "cl_vec c"] by (auto simp: owns_def)
    with o True DeleteKept show ?thesis by (auto simp: client_owns_def owns_def)
  qed (use DeleteKept assms(2) in simp)
next
  case (ResizeTo n)
  then show ?thesis
    using resize_owns [OF assms(1) assms(2) [unfolded client_owns_def] assms(3)]
    by (auto simp: on_vec_def client_owns_def intro!: yields_bind elim: yields_mono)
next
  case ClearAll
  then show ?thesis using clear_owns [OF assms(2) [unfolded client_owns_def]] by (auto simp: client_owns_def)
qed

section \<open>Properties\<close>

text \<open>C33: a vector of pointers owns its elements. A client that starts with an empty vector on a heap of other objects
  pushes, takes out, puts back and deletes objects, resizes and clears in any order, with memory running out at any point;
  then the vector is destroyed. No object is deleted twice and no dangling pointer followed: the only way to stop is an abort
  of the header's own check, on taking from an empty vector. At the end the live objects are the other ones and those the
  client took out and kept: nothing leaks.\<close>

theorem ptr_vector_owns:
  assumes "alloc_fresh alloc" and "\<And>n. ResizeTo n \<in> set calls \<Longrightarrow> n < 2 ^ 32"
  shows "yields (\<lambda>e. \<exists>msg. e = Aborted msg) (\<lambda>(held, s). pv_vector s = [] \<and> pv_heap s = H0 \<union> set held \<and> H0 \<inter> set held = {})
    (bind_res (fold_res (exec_pv alloc grows) calls \<lparr>cl_vec = \<lparr>pv_vector = [], pv_heap = H0\<rparr>, cl_held = []\<rparr>)
      (\<lambda>c. bind_res (pv_dtor (cl_vec c)) (\<lambda>s. Inr (cl_held c, s))))"
proof -
  let ?c = "\<lparr>cl_vec = \<lparr>pv_vector = [], pv_heap = H0\<rparr>, cl_held = []\<rparr>"
  have "yields only_aborts (client_owns H0) (fold_res (exec_pv alloc grows) calls ?c)"
  proof (rule yields_fold)
    show "yields only_aborts (client_owns H0) (exec_pv alloc grows x c)" if "x \<in> set calls" "client_owns H0 c" for x c
      by (rule exec_pv_owns [OF assms(1) that(2)]) (use assms(2) that(1) in blast)
  qed (simp add: client_owns_def owns_def)
  then show ?thesis
  proof (rule yields_bind)
    fix c
    assume "client_owns H0 c"
    then obtain s where "pv_dtor (cl_vec c) = Inr s" "owns H0 (cl_held c) s" "pv_vector s = []"
      using clear_owns [of H0 "cl_held c" "cl_vec c"] unfolding client_owns_def pv_dtor_def by blast
    then show "yields only_aborts (\<lambda>(held, s). pv_vector s = [] \<and> pv_heap s = H0 \<union> set held \<and> H0 \<inter> set held = {})
        (bind_res (pv_dtor (cl_vec c)) (\<lambda>s. Inr (cl_held c, s)))"
      by (auto simp: owns_def)
  qed
qed

definition sample_new :: "nat set \<Rightarrow> nat option" where
  "sample_new H = (if 7 \<notin> H then Some 7 else if 8 \<notin> H then Some 8 else None)"

theorem ptr_vector_owns_witness:
  "yields (\<lambda>e. \<exists>msg. e = Aborted msg) (\<lambda>(held, s). pv_heap s = {3, 8} \<and> held = [8])
    (bind_res (fold_res (exec_pv sample_new (\<lambda>n. n < 2)) [ResizeTo 5, PopKeep]
        \<lparr>cl_vec = \<lparr>pv_vector = [], pv_heap = {3}\<rparr>, cl_held = []\<rparr>)
      (\<lambda>c. bind_res (pv_dtor (cl_vec c)) (\<lambda>s. Inr (cl_held c, s))))"
proof -
  let ?m = "bind_res (fold_res (exec_pv sample_new (\<lambda>n. n < 2)) [ResizeTo 5, PopKeep]
        \<lparr>cl_vec = \<lparr>pv_vector = [], pv_heap = {3}\<rparr>, cl_held = []\<rparr>)
      (\<lambda>c. bind_res (pv_dtor (cl_vec c)) (\<lambda>s. Inr (cl_held c, s)))"
  have "alloc_fresh sample_new" by (auto simp: alloc_fresh_def sample_new_def split: if_splits)
  from ptr_vector_owns [OF this, of "[ResizeTo 5, PopKeep]" "{3}" "\<lambda>n. n < 2"]
  have *: "yields only_aborts (\<lambda>(held, s). pv_vector s = [] \<and> pv_heap s = {3} \<union> set held \<and> {3} \<inter> set held = {}) ?m"
    by simp
  have g: "pv_grow a gr 5 s = pv_grow a gr (Suc (Suc (Suc (Suc (Suc 0))))) s" for a gr s
    by (rule arg_cong [of _ _ "\<lambda>n. pv_grow a gr n s"]) simp
  have "\<exists>s. ?m = Inr ([8], s)"
    by (simp add: g on_vec_def pv_resize_def pv_size_def push_new_def new_obj_def sample_new_def pv_push_back_def pv_assert_def
        pv_pop_back_def pv_dtor_def pv_clear_def pv_delete_all_def delete_obj_def)
  with * show ?thesis by auto
qed

lemma increments_eq: "increments k v = map (\<lambda>i. v + of_nat (Suc i)) [0..<k]"
proof (induction k arbitrary: v)
  case (Suc k)
  show ?case
    unfolding map_upt_Suc using Suc [of "v + 1"]
    by (simp add: incrementAndGet_def addAndGet_def getAndAdd_def add_ac)
qed simp

text \<open>The results of \<open>incrementAndGet\<close>. Whatever threads increment a counter and in whatever order, at most \<open>2 ^ w\<close>
  increments return pairwise different values, the counter's value plus 1, 2 and so on, modulo \<open>2 ^ w\<close>.\<close>

theorem increments_distinct:
  assumes "k \<le> 2 ^ LENGTH('a)"
  shows "distinct (increments k (v :: 'a::len word)) \<and>
    (\<forall>i < k. unat (increments k v ! i) = (unat v + i + 1) mod 2 ^ LENGTH('a))"
proof -
  have inj: "inj_on (\<lambda>i. v + of_nat (Suc i)) {0..<k}"
  proof (rule inj_onI)
    fix i j
    assume ij: "i \<in> {0..<k}" "j \<in> {0..<k}" and "v + of_nat (Suc i) = v + of_nat (Suc j)"
    then have "(of_nat i :: 'a word) = of_nat j" by simp
    then have "i mod 2 ^ LENGTH('a) = j mod 2 ^ LENGTH('a)" by (metis unat_of_nat)
    with ij assms show "i = j" by simp
  qed
  have "unat (v + of_nat (Suc i)) = (unat v + i + 1) mod 2 ^ LENGTH('a)" for i
    using unat_word_ariths(1) [of v "of_nat (Suc i)"] unat_of_nat [of "Suc i", where 'a = 'a]
    by (simp add: mod_simps del: of_nat_Suc)
  with inj show ?thesis by (simp add: increments_eq distinct_map del: of_nat_Suc)
qed

theorem increments_distinct_witness:
  "distinct (increments 3 (2147483647 :: 32 word)) \<and> unat (increments 3 (2147483647 :: 32 word) ! 1) = 2147483649"
  using increments_distinct [of 3, where 'a = 32 and v = 2147483647] by simp

text \<open>A scoped pointer deletes what it pointed to when it is set to another object, and not when it is set to the same one.\<close>

lemma scoped_reset_frees:
  "m \<in> H \<Longrightarrow> m \<noteq> 0 \<Longrightarrow> scoped_reset p m H = Inr (p, if p = m then H else H - {m})"
  by (simp add: scoped_reset_def delete_obj_def)

end
