(* ===== verification/TA_LoopLife.thy ===== *)
theory TA_LoopLife
  imports TA_Reactor TA_TimerQueue
begin

text \<open>
  The life of an \<open>EventLoop\<close> object (\<open>src/Reactor/EventLoop.cpp\<close>) with the parts it owns: the poller of
  \<open>TA_Reactor\<close>, the timer queue of \<open>TA_TimerQueue\<close> with its descriptor's channel, and the wake-up channel. The
  thread-local pointer \<open>t_loopInThisThread\<close> is a map from threads to loops. Construction and destruction follow the order of
  the members in the class. The functions that add timers compose the clock and the queue.
\<close>

section \<open>Construction and destruction\<close>

record loop_object =
  lo_threadId :: nat
  lo_looping :: bool
  lo_poller :: reactor
  lo_timers :: timer_queue
  lo_timerChannel :: nat
  lo_wakeupChannel :: nat

text \<open>\<open>createEventfd\<close>: the descriptor the kernel gave, or an abort.\<close>

definition createEventfd :: "int \<Rightarrow> int res" where
  "createEventfd evtfd = (if evtfd < 0 then Inl (Aborted ''Failed in eventfd'') else Inr evtfd)"

text \<open>\<open>new Channel(loop, fd)\<close> at address \<open>p\<close>, \<open>setReadCallBack\<close> and \<open>enableReading\<close>, as both members do.\<close>

definition watch_fd :: "nat \<Rightarrow> int \<Rightarrow> nat \<Rightarrow> reactor \<Rightarrow> reactor res" where
  "watch_fd p fd cb r = enableReading p (put_chan p ((Channel_ctor fd)\<lparr>ch_readCallBack := Some cb\<rparr>) r)"

text \<open>The callbacks of the two channels: \<open>TimerQueue::handleRead\<close> and \<open>EventLoop::handleRead\<close>.\<close>

definition cb_timerRead :: nat where "cb_timerRead = 1"
definition cb_wakeupRead :: nat where "cb_wakeupRead = 2"

text \<open>The constructor, called in thread \<open>tid\<close> for an object at \<open>addr\<close>; \<open>tp\<close> and \<open>wp\<close> are the addresses of the two
  channels. The boolean says that another loop of the thread was reported in the log.\<close>

definition EventLoop_construct :: "nat \<Rightarrow> nat \<Rightarrow> int \<Rightarrow> nat \<Rightarrow> int \<Rightarrow> nat \<Rightarrow> (nat \<rightharpoonup> nat) \<Rightarrow>
    (bool \<times> loop_object \<times> (nat \<rightharpoonup> nat)) res" where
  "EventLoop_construct tid addr timerfd tp evtfd wp locals =
     bind_res (watch_fd tp timerfd cb_timerRead Epoll_ctor) (\<lambda>r1.
     bind_res (createEventfd evtfd) (\<lambda>fd.
     let (other, locals1) = (if locals tid \<noteq> None then (True, locals) else (False, locals(tid \<mapsto> addr)))
     in bind_res (watch_fd wp fd cb_wakeupRead r1) (\<lambda>r2.
        Inr (other, \<lparr>lo_threadId = tid, lo_looping = False, lo_poller = r2, lo_timers = TimerQueue_ctor,
                     lo_timerChannel = tp, lo_wakeupChannel = wp\<rparr>, locals1))))"

definition unwatch :: "nat \<Rightarrow> reactor \<Rightarrow> reactor res" where
  "unwatch p r = bind_res (disableAll p r) (channel_remove p)"

text \<open>\<open>delete\<close> of a timer, and the destructor of the queue.\<close>

definition delete_timer :: "timer_entry \<Rightarrow> timer_queue \<Rightarrow> timer_queue res" where
  "delete_timer e q = bind_res (timer_at (snd e) q) (\<lambda>t. Inr (q\<lparr>tq_heap := (tq_heap q)(snd e := None)\<rparr>))"

definition TimerQueue_dtor :: "timer_queue \<Rightarrow> timer_queue res" where
  "TimerQueue_dtor q = fold_res delete_timer (m_timers q) q"

text \<open>The destructor, called in thread \<open>tid\<close>: its body, then the members from the last to the first.\<close>

definition EventLoop_destroy :: "nat \<Rightarrow> loop_object \<Rightarrow> (nat \<rightharpoonup> nat) \<Rightarrow> (loop_object \<times> (nat \<rightharpoonup> nat)) res" where
  "EventLoop_destroy tid lo locals =
     cassert (\<not> lo_looping lo) ''!m_looping''
       (bind_res (unwatch (lo_wakeupChannel lo) (lo_poller lo)) (\<lambda>r1.
        bind_res (unwatch (lo_timerChannel lo) r1) (\<lambda>r2.
        bind_res (TimerQueue_dtor (lo_timers lo)) (\<lambda>q.
        Inr (lo\<lparr>lo_poller := r2, lo_timers := q\<rparr>, locals(tid := None))))))"

definition getEventLoopOfCurrentThread :: "nat \<Rightarrow> (nat \<rightharpoonup> nat) \<Rightarrow> nat option" where
  "getEventLoopOfCurrentThread tid locals = locals tid"

text \<open>\<open>EventLoop::updateChannel\<close> and \<open>removeChannel\<close>, called for the channel at \<open>p\<close> of loop \<open>own\<close> on the loop \<open>self\<close>. The test of the
  thread only writes a log line.\<close>

definition loop_updateChannel :: "nat \<Rightarrow> nat \<Rightarrow> nat \<Rightarrow> reactor \<Rightarrow> reactor res" where
  "loop_updateChannel self own p r = cassert (own = self) ''channel->ownerLoop() == this'' (updateChannel p r)"

definition loop_removeChannel :: "nat \<Rightarrow> nat \<Rightarrow> nat \<Rightarrow> reactor \<Rightarrow> reactor res" where
  "loop_removeChannel self own p r = cassert (own = self) ''channel->ownerLoop() == this'' (removeChannel p r)"

text \<open>The destructor of an acceptor with the spare descriptor \<open>idleFd\<close> and the listening socket \<open>sockfd\<close>: its body, then the members
  from the last to the first. The list has the descriptors closed, in order.\<close>

definition Acceptor_dtor :: "nat \<Rightarrow> int \<Rightarrow> int \<Rightarrow> reactor \<Rightarrow> (int list \<times> reactor) res" where
  "Acceptor_dtor p idleFd sockfd r = bind_res (unwatch p r) (\<lambda>r1. Inr ([idleFd, sockfd], r1))"

section \<open>Timers of a loop\<close>

definition runAt :: "((nat \<rightharpoonup> timer) \<Rightarrow> nat option) \<Rightarrow> (nat \<Rightarrow> int) \<Rightarrow> int \<Rightarrow> nat \<Rightarrow> timer_queue \<Rightarrow>
    (active_timer \<times> timer_queue) res" where
  "runAt alloc clock time cb q = addTimer alloc clock cb time 0 q"

definition runAfter :: "((nat \<rightharpoonup> timer) \<Rightarrow> nat option) \<Rightarrow> (nat \<Rightarrow> int) \<Rightarrow> rat \<Rightarrow> nat \<Rightarrow> timer_queue \<Rightarrow>
    (active_timer \<times> timer_queue) res" where
  "runAfter alloc clock delay cb q = (let (now, q1) = now_reading clock q in runAt alloc clock (addTime now delay) cb q1)"

definition runEvery :: "((nat \<rightharpoonup> timer) \<Rightarrow> nat option) \<Rightarrow> (nat \<Rightarrow> int) \<Rightarrow> rat \<Rightarrow> nat \<Rightarrow> timer_queue \<Rightarrow>
    (active_timer \<times> timer_queue) res" where
  "runEvery alloc clock interval cb q =
     (let (now, q1) = now_reading clock q in addTimer alloc clock cb (addTime now interval) interval q1)"

section \<open>Lemmas\<close>

lemma watch_fd_ok:
  assumes "rx_inv r" and "rx_room r" and "rx_chans r p = None" and "owner r fd = None"
  shows "\<exists>r' i. watch_fd p fd cb r = Inr r' \<and> rx_inv r' \<and> ep_kernel r' = (ep_kernel r)(fd \<mapsto> kReadEvent) \<and>
    owner r' = (owner r)(fd \<mapsto> p) \<and>
    rx_chans r' = (rx_chans r)(p \<mapsto> (Channel_ctor fd)\<lparr>ch_readCallBack := Some cb, ch_events := kReadEvent,
      ch_addedToLoop := True, ch_index := i\<rparr>)"
proof -
  let ?c = "(Channel_ctor fd)\<lparr>ch_readCallBack := Some cb\<rparr>"
  let ?r = "put_chan p ?c r"
  have "rx_inv ?r" using assms(1,3) by (force simp: rx_inv_def put_chan_def)
  moreover have "rx_room ?r" "owner ?r = owner r" "ep_kernel ?r = ep_kernel r" "rx_chans ?r = (rx_chans r)(p \<mapsto> ?c)"
    using assms(2) by (simp_all add: rx_room_def put_chan_def owner_def)
  ultimately show ?thesis
    using set_interest_ok [of ?r p ?c "\<lambda>ev. ev OR kReadEvent"] assms(4)
    by (auto simp: watch_fd_def enableReading_def Channel_ctor_def)
qed

lemma unwatch_ok:
  assumes "rx_inv r" and "rx_chans r p = Some c" and "owner r (ch_fd c) = Some p"
  shows "\<exists>r' c'. unwatch p r = Inr r' \<and> rx_inv r' \<and> ep_kernel r' = (ep_kernel r)(ch_fd c := None) \<and>
    owner r' = (owner r)(ch_fd c := None) \<and> rx_chans r' = (rx_chans r)(p \<mapsto> c')"
proof -
  obtain r1 where r1: "disableAll p r = Inr r1" "rx_inv r1" "ep_kernel r1 = (ep_kernel r)(ch_fd c \<mapsto> kNoneEvent)"
      "ep_channels r1 = ep_channels r" "rx_chans r1 = (rx_chans r)(p \<mapsto> c\<lparr>ch_events := kNoneEvent, ch_addedToLoop := True\<rparr>)"
    using set_interest_registered [OF assms, of "\<lambda>ev. kNoneEvent"] by (auto simp: disableAll_def)
  let ?c = "c\<lparr>ch_events := kNoneEvent, ch_addedToLoop := True\<rparr>"
  have "rx_chans r1 p = Some ?c" "owner r1 (ch_fd ?c) = Some p" "isNoneEvent ?c"
    using r1 assms(3) by (simp_all add: owner_def isNoneEvent_def)
  from channel_remove_ok [OF r1(2) this] r1 show ?thesis by (auto simp: unwatch_def owner_def)
qed

text \<open>A channel of the loop whose interest changes or that is removed passes the test of its owner.\<close>

lemma loop_channel_calls:
  assumes "rx_inv r" and "rx_room r" and "rx_chans r p = Some c"
    and "ch_index c < 0 \<and> owner r (ch_fd c) = None \<or> owner r (ch_fd c) = Some p"
  shows "(\<exists>r'. loop_updateChannel self own p r = Inr r' \<and> ep_kernel r' = (ep_kernel r)(ch_fd c \<mapsto> ch_events c)) \<longleftrightarrow> own = self"
proof -
  have "\<exists>r'. updateChannel p r = Inr r' \<and> ep_kernel r' = (ep_kernel r)(ch_fd c \<mapsto> ch_events c)"
    using epl.upd_new [OF assms(1-3)] epl.upd_old [OF assms(1,3)] assms(4) by auto
  then show ?thesis by (auto simp: loop_updateChannel_def cassert_def)
qed

text \<open>An acceptor is destroyed whether it listened or not: a channel that was never registered is registered by \<open>disableAll\<close>
  and then removed. Its descriptor leaves the poller before it is closed.\<close>

lemma Acceptor_dtor_ok:
  assumes "rx_inv r" and "rx_room r" and "rx_chans r p = Some c" and "ch_fd c = sockfd"
    and "ch_index c < 0 \<and> owner r sockfd = None \<or> owner r sockfd = Some p"
  shows "\<exists>r'. Acceptor_dtor p idleFd sockfd r = Inr ([idleFd, sockfd], r') \<and> rx_inv r' \<and>
    ep_kernel r' = (ep_kernel r)(sockfd := None) \<and> owner r' = (owner r)(sockfd := None)"
proof -
  obtain r1 i where r1: "disableAll p r = Inr r1" "rx_inv r1" "ep_kernel r1 = (ep_kernel r)(sockfd \<mapsto> kNoneEvent)"
      "owner r1 = (owner r)(sockfd \<mapsto> p)"
      "rx_chans r1 = (rx_chans r)(p \<mapsto> c\<lparr>ch_events := kNoneEvent, ch_addedToLoop := True, ch_index := i\<rparr>)"
    using set_interest_ok [OF assms(1-3), of "\<lambda>ev. kNoneEvent"] assms(4,5) by (auto simp: disableAll_def)
  let ?c = "c\<lparr>ch_events := kNoneEvent, ch_addedToLoop := True, ch_index := i\<rparr>"
  have "rx_chans r1 p = Some ?c" "owner r1 (ch_fd ?c) = Some p" "isNoneEvent ?c"
    using r1 assms(4) by (simp_all add: isNoneEvent_def)
  from channel_remove_ok [OF r1(2) this] r1 assms(4) show ?thesis by (auto simp: Acceptor_dtor_def unwatch_def)
qed

lemma delete_timers:
  assumes "distinct (map snd es)" and "\<forall>e \<in> set es. tq_heap q (snd e) \<noteq> None"
  shows "\<exists>q'. fold_res delete_timer es q = Inr q' \<and> tq_heap q' = tq_heap q |` (- snd ` set es)"
  using assms
proof (induction es arbitrary: q)
  case (Cons e es)
  let ?q = "q\<lparr>tq_heap := (tq_heap q)(snd e := None)\<rparr>"
  obtain t where "tq_heap q (snd e) = Some t" using Cons.prems(2) by auto
  then have "delete_timer e q = Inr ?q" by (simp add: delete_timer_def timer_at_def)
  moreover have "\<exists>q'. fold_res delete_timer es ?q = Inr q' \<and> tq_heap q' = tq_heap ?q |` (- snd ` set es)"
    by (rule Cons.IH) (use Cons.prems in \<open>auto simp: image_iff\<close>)
  ultimately show ?case by (auto simp: restrict_map_def fun_eq_iff)
qed (simp add: restrict_map_def)

text \<open>The destructor of a consistent queue deletes every timer once.\<close>

lemma TimerQueue_dtor_frees:
  assumes "tq_wf q"
  shows "\<exists>q'. TimerQueue_dtor q = Inr q' \<and> tq_heap q' = Map.empty"
proof -
  have inv: "tq_inv {} q" using assms by (simp add: tq_wf_def)
  have "inj_on snd (set (m_timers q))"
  proof (rule inj_onI)
    fix x y
    assume xy: "x \<in> set (m_timers q)" "y \<in> set (m_timers q)" "snd x = snd y"
    obtain t where "tq_heap q (snd x) = Some t" "tm_expiration t = fst x"
      using tq_inv_entry [OF inv, of "fst x" "snd x"] xy(1) by auto
    moreover obtain u where "tq_heap q (snd y) = Some u" "tm_expiration u = fst y"
      using tq_inv_entry [OF inv, of "fst y" "snd y"] xy(2) by auto
    ultimately show "x = y" using xy(3) by (auto simp: prod_eq_iff)
  qed
  then have d: "distinct (map snd (m_timers q))"
    using oset_wf_distinct [OF tq_invD(1) [OF inv]] by (simp add: distinct_map)
  have "\<forall>e \<in> set (m_timers q). tq_heap q (snd e) \<noteq> None" using tq_inv_entry [OF inv] by force
  moreover have "tq_heap q |` (- snd ` set (m_timers q)) = Map.empty"
  proof
    fix x
    have "x \<notin> snd ` set (m_timers q) \<Longrightarrow> x \<notin> dom (tq_heap q)" using tq_invD(4) [OF inv] by simp
    then show "(tq_heap q |` (- snd ` set (m_timers q))) x = None" by (auto simp: restrict_map_def domIff)
  qed
  ultimately show ?thesis unfolding TimerQueue_dtor_def using delete_timers [OF d, of q] by metis
qed

lemma fresh_poller: "rx_inv Epoll_ctor" "owner Epoll_ctor = Map.empty" "rx_chans Epoll_ctor = Map.empty"
    "ep_kernel Epoll_ctor = Map.empty"
  by (simp_all add: rx_inv_def Epoll_ctor_def owner_def kInitEpollEventsSize_def kMaxEpollConcurrencySize_def)

lemma rx_room_small:
  assumes "rx_inv r" and "owner r = [fd \<mapsto> p]"
  shows "rx_room r"
proof -
  have "dom (map_of (ep_channels r)) = {fd}" using assms(2) by (simp add: owner_def)
  then have "fst ` set (ep_channels r) = {fd}" by (simp add: dom_map_of_conv_image_fst)
  moreover have "distinct (map fst (ep_channels r))" using assms(1) by (simp add: rx_inv_def oset_wf_distinct)
  ultimately have "length (ep_channels r) = 1"
    by (metis card.empty card_insert_disjoint distinct_card empty_iff finite.emptyI length_map list.set_map One_nat_def)
  then show ?thesis by (simp add: rx_room_def)
qed

section \<open>Properties\<close>

text \<open>C16: the life of a loop. The constructor, given two different descriptors and two new channels, succeeds: exactly these
  descriptors are watched for reading, and the loop is the loop of the thread unless the thread had one already, which is
  only reported. Destroyed with any consistent set of timers in its queue, the loop gives all back and the destructor
  succeeds: no descriptor is watched any more, every timer is deleted, and the thread has no loop, even if the loop it had was another one.\<close>

theorem loop_life:
  assumes "timerfd \<noteq> evtfd" and "0 \<le> evtfd" and "tp \<noteq> wp"
  shows "\<exists>other lo locals'. EventLoop_construct tid addr timerfd tp evtfd wp locals = Inr (other, lo, locals') \<and>
    rx_inv (lo_poller lo) \<and> ep_kernel (lo_poller lo) = [timerfd \<mapsto> kReadEvent, evtfd \<mapsto> kReadEvent] \<and>
    getEventLoopOfCurrentThread tid locals' = (if locals tid = None then Some addr else locals tid) \<and> (other \<longleftrightarrow> locals tid \<noteq> None) \<and>
    (\<forall>q. tq_wf q \<longrightarrow> (\<exists>lo' gone. EventLoop_destroy tid (lo\<lparr>lo_timers := q\<rparr>) locals' = Inr (lo', gone) \<and>
      ep_kernel (lo_poller lo') = Map.empty \<and> tq_heap (lo_timers lo') = Map.empty \<and> gone tid = None))"
proof -
  obtain r1 i where r1: "watch_fd tp timerfd cb_timerRead Epoll_ctor = Inr r1" "rx_inv r1" "ep_kernel r1 = [timerfd \<mapsto> kReadEvent]"
      "owner r1 = [timerfd \<mapsto> tp]" "rx_chans r1 = [tp \<mapsto> (Channel_ctor timerfd)\<lparr>ch_readCallBack := Some cb_timerRead,
        ch_events := kReadEvent, ch_addedToLoop := True, ch_index := i\<rparr>]"
    using watch_fd_ok [of Epoll_ctor tp timerfd cb_timerRead] fresh_poller by (auto simp: rx_room_def Epoll_ctor_def)
  obtain r2 j where r2: "watch_fd wp evtfd cb_wakeupRead r1 = Inr r2" "rx_inv r2"
      "ep_kernel r2 = [timerfd \<mapsto> kReadEvent, evtfd \<mapsto> kReadEvent]" "owner r2 = [timerfd \<mapsto> tp, evtfd \<mapsto> wp]"
      "rx_chans r2 = (rx_chans r1)(wp \<mapsto> (Channel_ctor evtfd)\<lparr>ch_readCallBack := Some cb_wakeupRead,
        ch_events := kReadEvent, ch_addedToLoop := True, ch_index := j\<rparr>)"
    using watch_fd_ok [OF r1(2) rx_room_small [OF r1(2,4)], of wp evtfd cb_wakeupRead] r1 assms by auto
  obtain r3 c' where r3: "unwatch wp r2 = Inr r3" "rx_inv r3" "ep_kernel r3 = [timerfd \<mapsto> kReadEvent]" "owner r3 = [timerfd \<mapsto> tp]"
      "rx_chans r3 = (rx_chans r2)(wp \<mapsto> c')"
    using unwatch_ok [OF r2(2), of wp] r2 r1 assms by (auto simp: Channel_ctor_def)
  obtain r4 where r4: "unwatch tp r3 = Inr r4" "ep_kernel r4 = Map.empty"
    using unwatch_ok [OF r3(2), of tp] r3 r2 r1 assms by (auto simp: Channel_ctor_def)
  have destroy: "\<exists>lo' gone. EventLoop_destroy tid (lo\<lparr>lo_timers := q\<rparr>) loc = Inr (lo', gone) \<and>
      ep_kernel (lo_poller lo') = Map.empty \<and> tq_heap (lo_timers lo') = Map.empty \<and> gone tid = None"
    if "tq_wf q" "\<not> lo_looping lo" "lo_wakeupChannel lo = wp" "lo_timerChannel lo = tp" "lo_poller lo = r2" for lo q loc
    using TimerQueue_dtor_frees [OF that(1)] that r3(1) r4 by (auto simp: EventLoop_destroy_def)
  let ?lo = "\<lparr>lo_threadId = tid, lo_looping = False, lo_poller = r2, lo_timers = TimerQueue_ctor,
    lo_timerChannel = tp, lo_wakeupChannel = wp\<rparr>"
  show ?thesis
    using r1(1) r2(1,2,3) assms(2) destroy [of _ ?lo, simplified]
    by (auto simp: EventLoop_construct_def createEventfd_def getEventLoopOfCurrentThread_def)
qed

theorem loop_life_witness:
  "\<exists>other lo locals'. EventLoop_construct 5 100 3 10 4 11 Map.empty = Inr (other, lo, locals') \<and>
    ep_kernel (lo_poller lo) = [3 \<mapsto> kReadEvent, 4 \<mapsto> kReadEvent] \<and> getEventLoopOfCurrentThread 5 locals' = Some 100"
  using loop_life [of 3 4 10 11 5 100 Map.empty] by auto

text \<open>Timers of a loop. On a consistent and armed queue \<open>runAt\<close>, \<open>runAfter\<close> and \<open>runEvery\<close> add a timer that is live
  under the returned id, keep the queue consistent, and let it expire at the given time, or the given
  number of seconds after the reading of the clock; only the timer of \<open>runEvery\<close> repeats, if its interval is positive.\<close>

theorem run_timers:
  assumes "tq_wf q" and "alloc_ok alloc" and "alloc (tq_heap q) = Some p" and "now = clock (tq_clockReads q)"
    and "(operation, expiry, interval) \<in> {(runAt alloc clock time cb, time, 0), (runAfter alloc clock delay cb, addTime now delay, 0),
      (runEvery alloc clock period cb, addTime now period, period)}"
  shows "\<exists>q'. operation q = Inr ((p, tq_numCreated q + 1), q') \<and> tq_wf q' \<and>
    m_timers q' = oset_insert (expiry, p) (m_timers q) \<and>
    tq_heap q' p = Some \<lparr>tm_callBack = cb, tm_expiration = expiry, tm_interval = interval, tm_repeat = (0 < interval),
      tm_sequence = tq_numCreated q + 1\<rparr>"
proof -
  let ?q = "q\<lparr>tq_clockReads := Suc (tq_clockReads q)\<rparr>"
  have add: "\<exists>q'. addTimer alloc clock cb e i r = Inr ((p, tq_numCreated q + 1), q') \<and> tq_wf q' \<and>
      m_timers q' = oset_insert (e, p) (m_timers q) \<and>
      tq_heap q' p = Some \<lparr>tm_callBack = cb, tm_expiration = e, tm_interval = i, tm_repeat = (0 < i), tm_sequence = tq_numCreated q + 1\<rparr>"
    if "r = q \<or> r = ?q" for e i r
    using addTimer_ok [of "{}" r alloc p clock cb e i] that assms(1-3) by (auto simp: tq_wf_def tq_inv_def Timer_ctor_def)
  from assms(5) show ?thesis
    using add [of q time 0] add [of ?q "addTime now delay" 0] add [of ?q "addTime now period" period]
    by (auto simp: runAt_def runAfter_def runEvery_def now_reading_def assms(4))
qed

theorem run_timers_witness:
  "\<exists>q'. runEvery sample_alloc (\<lambda>n. 100) 2 30 sample_queue = Inr ((3, 3), q') \<and> tq_wf q' \<and>
     map_option tm_expiration (tq_heap q' 3) = Some 2000100 \<and> map_option tm_repeat (tq_heap q' 3) = Some True"
proof -
  have a: "addTime 100 2 = 2000100" by (simp add: addTime_def trunc_rat_def kMicroSecondsPerSecond_def)
  have al: "sample_alloc (tq_heap sample_queue) = Some 3" by (simp add: sample_alloc_def TimerQueue_ctor_def)
  have "\<exists>q'. runEvery sample_alloc (\<lambda>n. 100) 2 30 sample_queue = Inr ((3, tq_numCreated sample_queue + 1), q') \<and> tq_wf q' \<and>
      m_timers q' = oset_insert (addTime 100 2, 3) (m_timers sample_queue) \<and>
      tq_heap q' 3 = Some \<lparr>tm_callBack = 30, tm_expiration = addTime 100 2, tm_interval = 2, tm_repeat = (0 < (2::rat)),
        tm_sequence = tq_numCreated sample_queue + 1\<rparr>"
    by (rule run_timers [OF sample_queue_wf(1,3) al refl, where period = 2 and clock = "\<lambda>n. 100" and time = 0 and delay = 0])
      simp
  then show ?thesis by (auto simp: a TimerQueue_ctor_def)
qed

end
