(* ===== verification/TA_RemoteSend.thy ===== *)
theory TA_RemoteSend
  imports TA_TcpConnection
begin

text \<open>
  Sending from another thread than the loop's (\<open>src/Tcp/TcpConnection.cpp\<close>, the three overloads of \<open>send\<close>). The call queues a functor
  that holds the address and the length of the message, not the bytes; they are read when the loop runs it. The memory the
  messages live in is an explicit store: what the caller does with it in between decides what is sent.
\<close>

section \<open>Queued sends\<close>

text \<open>A queued call of \<open>sendInLoop\<close>: address and length.\<close>

type_synonym send_task = "nat \<times> nat"

definition send_remote :: "nat \<Rightarrow> nat \<Rightarrow> conn_state \<Rightarrow> send_task list \<Rightarrow> send_task list" where
  "send_remote message len st tasks = (if st = kConnected then tasks @ [(message, len)] else tasks)"

definition send_remote_string :: "nat \<Rightarrow> (nat \<rightharpoonup> string) \<Rightarrow> conn_state \<Rightarrow> send_task list \<Rightarrow> send_task list res" where
  "send_remote_string message mem st tasks =
     (case mem message of None \<Rightarrow> Inl Dangling | Some s \<Rightarrow> Inr (send_remote message (length s) st tasks))"

text \<open>With a \<open>Buffer\<close> the readable bytes are at the address \<open>data\<close>; the buffer is emptied at once.\<close>

definition send_remote_buffer :: "nat \<Rightarrow> buffer \<Rightarrow> conn_state \<Rightarrow> send_task list \<Rightarrow> send_task list \<times> buffer" where
  "send_remote_buffer data message st tasks =
     (if st = kConnected then (send_remote data (readableBytes message) st tasks, retrieveAll message) else (tasks, message))"

text \<open>The loop runs one functor: it reads the bytes the address holds now.\<close>

definition run_send :: "(string \<Rightarrow> nat + nat) \<Rightarrow> (nat \<rightharpoonup> string) \<Rightarrow> send_task \<Rightarrow> tcp_io \<Rightarrow> tcp_io res" where
  "run_send sys_write mem t io =
     (case mem (fst t) of
        None \<Rightarrow> Inl Dangling
      | Some s \<Rightarrow> if length s < snd t then Inl OutOfRange else sendInLoop sys_write (take (snd t) s) io)"

section \<open>Properties\<close>

lemma run_sends_ok:
  assumes "\<forall>t \<in> set tasks. \<exists>s. mem (fst t) = Some s \<and> snd t = length s \<and> length s < 2 ^ 64"
    and "io_inv io" and "cn_state (io_conn io) \<noteq> kDisConnected" and "write_ok w" and "\<not> fatal_write w"
    and "out_room (length (concat (map (the \<circ> mem \<circ> fst) tasks))) io"
  shows "\<exists>io'. fold_res (run_send w mem) tasks io = Inr io' \<and>
    io_wire io' @ out_bytes io' = io_wire io @ out_bytes io @ concat (map (the \<circ> mem \<circ> fst) tasks)"
proof -
  have same: "fold_res (run_send w mem) ts io = fold_res (\<lambda>(w, d). sendInLoop w d) (map (\<lambda>t. (w, the (mem (fst t)))) ts) io"
    if "set ts \<subseteq> set tasks" for ts io
    using that
  proof (induction ts arbitrary: io)
    case (Cons t ts)
    then obtain s where "mem (fst t) = Some s" "snd t = length s" using assms(1) by force
    moreover have "fold_res (run_send w mem) ts = fold_res (\<lambda>(w, d). sendInLoop w d) (map (\<lambda>t. (w, the (mem (fst t)))) ts)"
      using Cons by (intro ext) simp
    moreover from calculation have "run_send w mem t io = sendInLoop w (the (mem (fst t))) io" by (simp add: run_send_def)
    ultimately show ?case by simp
  qed simp
  let ?msgs = "map (\<lambda>t. (w, the (mem (fst t)))) tasks"
  have snds: "map snd ?msgs = map (the \<circ> mem \<circ> fst) tasks" by simp
  have ok: "\<forall>(v, d) \<in> set ?msgs. write_ok v \<and> \<not> fatal_write v \<and> length d < 2 ^ 64"
    using assms(1,4,5) by force
  show ?thesis using sends_ok [OF assms(2,3) ok, unfolded snds, OF assms(6)] same [of tasks io] by auto
qed

text \<open>C32: sending from another thread. Messages that are queued from another thread and whose memory is still the same when the
  loop runs the functors are sent in order. If the memory of the first one was freed in the meantime, as that of a
  temporary string is when \<open>send\<close> returns, the loop reads a dangling pointer; if it was reused for another text of the same
  length, as the vector of an emptied buffer is, the other text is sent.\<close>

theorem remote_send_memory:
  assumes "io_inv io" and "cn_state (io_conn io) = kConnected" and "write_ok w" and "\<not> fatal_write w"
    and "\<forall>p \<in> set ps. \<exists>s. mem p = Some s \<and> length s < 2 ^ 64" and "out_room (length (concat (map (the \<circ> mem) ps))) io"
    and "fold_res (\<lambda>p. send_remote_string p mem (cn_state (io_conn io))) ps [] = Inr tasks"
  shows "(\<exists>io'. fold_res (run_send w mem) tasks io = Inr io' \<and>
      io_wire io' @ out_bytes io' = io_wire io @ out_bytes io @ concat (map (the \<circ> mem) ps)) \<and>
    (ps \<noteq> [] \<longrightarrow> fold_res (run_send w (mem(hd ps := None))) tasks io = Inl Dangling) \<and>
    (\<forall>p s. ps = [p] \<longrightarrow> length s = length (the (mem p)) \<longrightarrow>
      fold_res (run_send w (mem(p \<mapsto> s))) tasks io = sendInLoop w s io)"
proof -
  have queued: "fold_res (\<lambda>p. send_remote_string p mem kConnected) qs ts = Inr (ts @ map (\<lambda>p. (p, length (the (mem p)))) qs)"
    if "set qs \<subseteq> set ps" for qs ts
    using that
  proof (induction qs arbitrary: ts)
    case (Cons q qs)
    then obtain s where "mem q = Some s" using assms(5) by auto
    with Cons show ?case by (simp add: send_remote_string_def send_remote_def)
  qed simp
  have tasks: "tasks = map (\<lambda>p. (p, length (the (mem p)))) ps" using queued [of ps "[]"] assms(2,7) by simp
  have "map (the \<circ> mem \<circ> fst) tasks = map (the \<circ> mem) ps" by (simp add: tasks)
  moreover have "\<forall>t \<in> set tasks. \<exists>s. mem (fst t) = Some s \<and> snd t = length s \<and> length s < 2 ^ 64"
    using assms(5) by (force simp: tasks)
  ultimately have "\<exists>io'. fold_res (run_send w mem) tasks io = Inr io' \<and>
      io_wire io' @ out_bytes io' = io_wire io @ out_bytes io @ concat (map (the \<circ> mem) ps)"
    using run_sends_ok [of tasks mem io w] assms(1-4,6) by simp
  moreover have "ps \<noteq> [] \<longrightarrow> fold_res (run_send w (mem(hd ps := None))) tasks io = Inl Dangling"
    by (cases ps) (simp_all add: tasks run_send_def)
  moreover have "fold_res (run_send w (mem(p \<mapsto> s))) tasks io = sendInLoop w s io" if "ps = [p]" "length s = length (the (mem p))" for p s
    using that by (cases "sendInLoop w s io") (simp_all add: tasks run_send_def)
  ultimately show ?thesis by blast
qed

theorem remote_send_memory_witness:
  "(\<exists>io'. fold_res (run_send (\<lambda>s. Inr (length s)) [7 \<mapsto> ''hello'']) [(7, 5)] sample_io = Inr io' \<and> io_wire io' @ out_bytes io' = ''hello'') \<and>
   fold_res (run_send (\<lambda>s. Inr (length s)) (([7 \<mapsto> ''hello''])(7 := None))) [(7, 5)] sample_io = Inl Dangling"
proof -
  have "fold_res (\<lambda>p. send_remote_string p [7 \<mapsto> ''hello''] (cn_state (io_conn sample_io))) [7] [] = Inr [(7, 5)]"
    by (simp add: sample_io_facts send_remote_string_def send_remote_def)
  from remote_send_memory [OF sample_io_facts(1,6) _ _ _ _ this, of "\<lambda>s. Inr (length s)"]
  have "(\<exists>io'. fold_res (run_send (\<lambda>s. Inr (length s)) [7 \<mapsto> ''hello'']) [(7, 5)] sample_io = Inr io' \<and>
      io_wire io' @ out_bytes io' = io_wire sample_io @ out_bytes sample_io @ concat (map (the \<circ> [7 \<mapsto> ''hello'']) [7])) \<and>
    fold_res (run_send (\<lambda>s. Inr (length s)) (([7 \<mapsto> ''hello''])(hd [7] := None))) [(7, 5)] sample_io = Inl Dangling"
    by (auto simp: sample_io_facts write_ok_def fatal_write_def)
  then show ?thesis by (simp only: sample_io_facts) simp
qed

end
