(* ===== verification/TA_EchoServer.thy ===== *)
theory TA_EchoServer
  imports TA_TcpConnection
begin

text \<open>
  The echo server (\<open>example/tcp_server_example.cpp\<close>): its message callback on top of the connection and the buffer. The
  callback gives \<open>buffer->peek()\<close> to \<open>send(const std::string&)\<close>: the conversion reads a C string, up to the first null character
  of the vector, wherever the readable bytes end. What lies behind them is what earlier messages left there.
\<close>

section \<open>The callback\<close>

text \<open>The C string at an index of the vector; without a null character the read leaves the vector.\<close>

definition c_text_at :: "nat \<Rightarrow> buffer \<Rightarrow> string res" where
  "c_text_at i b =
     (let bs = drop i (m_buffer b)
      in if CHR 0x00 \<in> set bs then Inr (takeWhile (\<lambda>c. c \<noteq> CHR 0x00) bs) else Inl OutOfRange)"

text \<open>\<open>on_message\<close>; the log line before it reads the same text.\<close>

definition echo_on_message :: "(string \<Rightarrow> nat + nat) \<Rightarrow> tcp_io \<Rightarrow> tcp_io res" where
  "echo_on_message sys_write io =
     bind_res (c_text_at (peek (cn_inputBuffer (io_conn io))) (cn_inputBuffer (io_conn io))) (\<lambda>message.
     bind_res (send sys_write message io) (\<lambda>io1.
       let b = cn_inputBuffer (io_conn io1)
       in bind_res (retrieve (readableBytes b) b) (\<lambda>b1. Inr (set_input b1 io1))))"

text \<open>One readable event: the kernel delivers the bytes \<open>m\<close>, and accepts what \<open>sys_write\<close> says of the answer.\<close>

definition echo_event :: "(tcp_io \<Rightarrow> tcp_io res) \<Rightarrow> (string \<Rightarrow> nat + nat) \<times> string \<Rightarrow> tcp_io \<Rightarrow> tcp_io res" where
  "echo_event on_close = (\<lambda>(sys_write, m). tcp_handleRead (\<lambda>lens. Inr m) (echo_on_message sys_write) on_close)"

text \<open>The answers: each message is followed by the end of the previous answer, if that was longer.\<close>

fun echo_answers :: "string \<Rightarrow> string list \<Rightarrow> string list" where
  "echo_answers prev [] = []"
| "echo_answers prev (m # ms) = (let r = m @ drop (length m) prev in r # echo_answers r ms)"

section \<open>Lemmas\<close>

text \<open>Between two messages the vector holds the last answer, followed by null characters.\<close>

definition echo_ready :: "nat \<Rightarrow> string \<Rightarrow> tcp_io \<Rightarrow> bool" where
  "echo_ready space prev io \<longleftrightarrow> io_inv io \<and> cn_state (io_conn io) = kConnected \<and>
     m_readerIndex (cn_inputBuffer (io_conn io)) = 8 \<and> m_writerIndex (cn_inputBuffer (io_conn io)) = 8 \<and>
     length (m_buffer (cn_inputBuffer (io_conn io))) = 8 + space \<and>
     drop 8 (m_buffer (cn_inputBuffer (io_conn io))) = prev @ replicate (space - length prev) (CHR 0x00) \<and>
     length prev \<le> space \<and> CHR 0x00 \<notin> set prev"

definition plain_message :: "nat \<Rightarrow> string \<Rightarrow> bool" where
  "plain_message space m \<longleftrightarrow> 0 < length m \<and> length m < space \<and> CHR 0x00 \<notin> set m"

lemma takeWhile_zeros:
  "CHR 0x00 \<notin> set r \<Longrightarrow> takeWhile (\<lambda>c. c \<noteq> CHR 0x00) (r @ replicate k (CHR 0x00)) = r"
  by (induction r) (auto simp: takeWhile_eq_Nil_iff)

text \<open>What a read leaves behind the reader index.\<close>

lemma echo_read:
  assumes "echo_ready space prev io" and "length m \<le> space"
  defines "b \<equiv> cn_inputBuffer (io_conn io)"
  defines "b1 \<equiv> b\<lparr>m_buffer := write_at 8 m (m_buffer b), m_writerIndex := 8 + length m\<rparr>"
  shows "readFd (\<lambda>lens. Inr m) b = Inr (int (length m), None, b1)" and "buf_wf b1"
    and "drop 8 (m_buffer b1) = m @ drop (length m) prev @ replicate (space - max (length m) (length prev)) (CHR 0x00)"
    and "length (m_buffer b1) = 8 + space"
proof -
  have b: "m_readerIndex b = 8" "m_writerIndex b = 8" "length (m_buffer b) = 8 + space" "buf_wf b"
      "drop 8 (m_buffer b) = prev @ replicate (space - length prev) (CHR 0x00)" "length prev \<le> space"
    using assms(1) by (auto simp: echo_ready_def b_def io_inv_def)
  show "readFd (\<lambda>lens. Inr m) b = Inr (int (length m), None, b1)"
    using b assms(2) by (simp add: readFd_def writableBytes_def sub64_def beginWrite_def b1_def Let_def)
  show len: "length (m_buffer b1) = 8 + space" using b assms(2) by (simp add: b1_def)
  show "buf_wf b1" using b assms(2) len by (simp add: buf_wf_def b1_def kCheapPrepend_def)
  have "drop (8 + length m) (m_buffer b) = drop (length m) (prev @ replicate (space - length prev) (CHR 0x00))"
    using b(5) by (metis add.commute drop_drop)
  then show "drop 8 (m_buffer b1) = m @ drop (length m) prev @ replicate (space - max (length m) (length prev)) (CHR 0x00)"
    using b assms(2) by (simp add: b1_def write_at_def max_def)
qed

lemma echo_step:
  assumes "echo_ready space prev io" and "plain_message space m" and "length prev < space" and "space < 2 ^ 64"
    and "write_ok w" and "\<not> fatal_write w" and "out_room (max (length m) (length prev) + n) io"
  shows "\<exists>io'. echo_event on_close (w, m) io = Inr io' \<and> echo_ready space (m @ drop (length m) prev) io' \<and>
    io_wire io' @ out_bytes io' = io_wire io @ out_bytes io @ m @ drop (length m) prev \<and> out_room n io'"
proof -
  let ?b = "cn_inputBuffer (io_conn io)" and ?r = "m @ drop (length m) prev"
  let ?b1 = "?b\<lparr>m_buffer := write_at 8 m (m_buffer ?b), m_writerIndex := 8 + length m\<rparr>"
  let ?io1 = "set_input ?b1 io"
  have m: "length m \<le> space" "0 < length m" "CHR 0x00 \<notin> set ?r" "length ?r < space"
    using assms(1-3) by (auto simp: plain_message_def echo_ready_def dest: in_set_dropD)
  note rd = echo_read [OF assms(1) m(1)]
  have ri: "m_readerIndex ?b = 8" and st: "cn_state (io_conn io) = kConnected" and inv: "io_inv io"
    using assms(1) by (simp_all add: echo_ready_def)
  have tx: "c_text_at 8 ?b1 = Inr ?r"
    using rd(3) m takeWhile_zeros [OF m(3)] assms(3) by (auto simp: c_text_at_def Let_def plain_message_def)
  have inv1: "io_inv ?io1" using inv rd(2) by (simp add: io_inv_def set_input_def)
  have keep: "out_bytes ?io1 = out_bytes io" "io_wire ?io1 = io_wire io" "out_room k ?io1 = out_room k io" for k
    by (simp_all add: out_bytes_def out_room_def set_input_def)
  have room: "out_room (length ?r + n) ?io1" using assms(7) keep by (simp add: max_def split: if_splits)
  obtain io2 where io2: "sendInLoop w ?r ?io1 = Inr io2" "io_inv io2" "io_wire io2 @ out_bytes io2 = io_wire io @ out_bytes io @ ?r"
      "out_room n io2" "same_conn ?io1 io2"
    using sendInLoop_ok [OF inv1 _ assms(5,6) _ room] st m(4) assms(4) keep by (auto simp: set_input_def)
  have in2: "cn_inputBuffer (io_conn io2) = ?b1" "cn_state (io_conn io2) = kConnected"
    using io2(5) st by (simp_all add: same_conn_def set_input_def)
  have rt: "retrieve (readableBytes ?b1) ?b1 = Inr (retrieveAll ?b1)" by (simp add: retrieve_def)
  have "echo_event on_close (w, m) io = Inr (set_input (retrieveAll ?b1) io2)"
    using rd(1) m(2) tx io2(1) in2 st ri rt
    by (simp add: echo_event_def tcp_handleRead_def echo_on_message_def peek_def send_def set_input_def)
  moreover have "echo_ready space ?r (set_input (retrieveAll ?b1) io2)"
    using io2(2) in2 rd(2-4) m by (auto simp: echo_ready_def io_inv_def set_input_def retrieveAll_def buf_wf_def kCheapPrepend_def max_def)
  ultimately show ?thesis using io2(3,4) by (simp add: set_input_def out_bytes_def out_room_def)
qed

lemma echo_run:
  assumes "echo_ready space prev io" and "length prev < space" and "space < 2 ^ 64"
    and "\<forall>(w, m) \<in> set msgs. write_ok w \<and> \<not> fatal_write w \<and> plain_message space m"
    and "out_room (length (concat (echo_answers prev (map snd msgs))) + n) io"
  shows "\<exists>io'. fold_res (echo_event on_close) msgs io = Inr io' \<and> io_inv io' \<and>
    io_wire io' @ out_bytes io' = io_wire io @ out_bytes io @ concat (echo_answers prev (map snd msgs))"
  using assms
proof (induction msgs arbitrary: prev io)
  case Nil
  then show ?case by (simp add: echo_ready_def)
next
  case (Cons x msgs)
  obtain w m where x: "x = (w, m)" by (cases x)
  let ?r = "m @ drop (length m) prev" and ?rest = "length (concat (echo_answers (m @ drop (length m) prev) (map snd msgs))) + n"
  have wm: "write_ok w" "\<not> fatal_write w" "plain_message space m" using Cons.prems(4) x by auto
  have room: "out_room (max (length m) (length prev) + ?rest) io"
    using Cons.prems(5) x by (cases "length m \<le> length prev") (simp_all add: Let_def max_def add_ac)
  obtain io1 where io1: "echo_event on_close (w, m) io = Inr io1" "echo_ready space ?r io1"
      "io_wire io1 @ out_bytes io1 = io_wire io @ out_bytes io @ ?r" "out_room ?rest io1"
    using echo_step [OF Cons.prems(1) wm(3) Cons.prems(2,3) wm(1,2) room] by blast
  have "length ?r < space" using wm(3) Cons.prems(2) by (cases "length m \<le> length prev") (simp_all add: plain_message_def)
  from Cons.IH [OF io1(2) this Cons.prems(3) _ io1(4)] Cons.prems(4) obtain io' where
      "fold_res (echo_event on_close) msgs io1 = Inr io'" "io_inv io'"
      "io_wire io' @ out_bytes io' = io_wire io1 @ out_bytes io1 @ concat (echo_answers ?r (map snd msgs))" by auto
  with io1 show ?case by (simp add: x Let_def)
qed

lemma length_answers: "sum_list (map length ms) \<le> length (concat (echo_answers prev ms))"
proof (induction ms arbitrary: prev)
  case (Cons m ms)
  show ?case using trans_le_add2 [OF Cons.IH [of "m @ drop (length m) prev"], of "length prev - length m"] by (simp add: Let_def)
qed simp

text \<open>The answers are the messages exactly when no message is shorter than the one before it.\<close>

lemma answers_exact: "concat (echo_answers prev ms) = concat ms \<longleftrightarrow> sorted (map length (prev # ms)) \<or> ms = []"
proof (induction ms arbitrary: prev)
  case (Cons m ms)
  show ?case
  proof (cases "length prev \<le> length m")
    case True
    then have "sorted (map length (prev # m # ms)) \<longleftrightarrow> sorted (map length (m # ms))" by (auto intro: order_trans)
    with True Cons.IH [of m] show ?thesis by (cases ms) (auto simp: Let_def)
  next
    case False
    then have "length (concat (m # ms)) < length (concat (echo_answers prev (m # ms)))"
      using add_less_le_mono [OF _ length_answers [of ms "m @ drop (length m) prev"], of 0 "length prev - length m"]
      by (simp add: length_concat Let_def)
    with False show ?thesis by (metis less_irrefl list.distinct(1) list.simps(9) sorted_simps(2) list.set_intros(1))
  qed
qed simp

section \<open>Properties\<close>

text \<open>C40: what the echo server answers. On a fresh connection, for any sequence of messages without null characters that are
  shorter than the input buffer and each read at once, and for any partial writes, the server runs without a fault, and
  the bytes sent and queued are the answers in which each message is followed by what the previous answer has beyond its length:
  bytes of earlier messages are sent again. They are the messages themselves exactly when no message is
  shorter than the one before.\<close>

theorem echo_answers_stale:
  assumes "echo_ready space [] io" and "0 < space" and "space < 2 ^ 64"
    and "\<forall>(w, m) \<in> set msgs. write_ok w \<and> \<not> fatal_write w \<and> plain_message space m"
    and "out_room (length (concat (echo_answers [] (map snd msgs)))) io"
  shows "\<exists>io' answers. fold_res (echo_event on_close) msgs io = Inr io' \<and> io_inv io' \<and>
    io_wire io' @ out_bytes io' = io_wire io @ out_bytes io @ answers \<and> answers = concat (echo_answers [] (map snd msgs)) \<and>
    (answers = concat (map snd msgs) \<longleftrightarrow> sorted (map (length \<circ> snd) msgs))"
proof -
  have "concat (echo_answers [] (map snd msgs)) = concat (map snd msgs) \<longleftrightarrow> sorted (map (length \<circ> snd) msgs)"
    using answers_exact [of "[]" "map snd msgs"] by auto
  with echo_run [OF assms(1) _ assms(3,4), of 0 on_close] assms(2,5) show ?thesis by simp
qed

lemma sample_echo_ready: "echo_ready 16 [] sample_io"
  by (simp add: echo_ready_def sample_io_facts) (simp add: sample_io_def)

theorem echo_answers_stale_witness:
  "\<exists>io'. fold_res (echo_event Inr) [(\<lambda>s. Inr (length s), ''secret''), (\<lambda>s. Inr (length s), ''hi'')] sample_io = Inr io' \<and>
     io_wire io' @ out_bytes io' = ''secrethicret''"
proof -
  have "echo_answers [] [''secret'', ''hi''] = [''secret'', ''hicret'']" by (simp add: Let_def)
  with echo_answers_stale [OF sample_echo_ready, of "[(\<lambda>s. Inr (length s), ''secret''), (\<lambda>s. Inr (length s), ''hi'')]" Inr]
  show ?thesis
    by (auto simp: sample_io_facts write_ok_def fatal_write_def plain_message_def)
qed

text \<open>A message that fills the input buffer has no null character behind it: the callback reads past the vector.\<close>

lemma echo_reads_past_end:
  assumes "echo_ready space prev io" and "length m = space" and "0 < space" and "CHR 0x00 \<notin> set m"
  shows "echo_event on_close (w, m) io = Inl OutOfRange"
proof -
  note rd = echo_read [OF assms(1), of m]
  have "m_readerIndex (cn_inputBuffer (io_conn io)) = 8" "length prev \<le> space" using assms(1) by (simp_all add: echo_ready_def)
  then show ?thesis
    using rd(1,3) assms(2-4)
    by (simp add: echo_event_def tcp_handleRead_def echo_on_message_def set_input_def peek_def c_text_at_def Let_def)
qed

end
