(* ===== verification/TA_ServerTurn.thy ===== *)
theory TA_ServerTurn
  imports TA_HttpServer
begin

text \<open>
  A turn of the event loop as an HTTP connection sees it: the poller reports its channel (\<open>EventLoop::loop\<close>), the channel calls
  its read callback (\<open>Channel::handleEvent\<close>), the connection reads into its input buffer (\<open>TcpConnection::handleRead\<close>) and
  calls the HTTP server (\<open>HttpServer::onMessage\<close>). A request that arrives over several turns is answered in the last.
  All messages carry the same time stamp, since \<open>handleRead\<close> passes \<open>TimeStamp()\<close>.

  Parameters: \<open>epoll_wait\<close>, \<open>readv\<close> and \<open>write\<close>, the user's callback, and the server's close callback.
\<close>

section \<open>One turn\<close>

text \<open>Sequencing of operations that may not return and may end in a fault.\<close>

definition then_do :: "'a res option \<Rightarrow> ('a \<Rightarrow> 'b res option) \<Rightarrow> 'b res option" where
  "then_do m f = (case m of None \<Rightarrow> None | Some (Inl e) \<Rightarrow> Some (Inl e) | Some (Inr x) \<Rightarrow> f x)"

record turn_env =
  te_write :: "string \<Rightarrow> nat + nat"
  te_http :: "http_request \<Rightarrow> http_response \<Rightarrow> http_response"
  te_close :: "tcp_io \<Rightarrow> tcp_io res"

text \<open>\<open>handleRead\<close> with \<open>HttpServer::onMessage\<close> as the message callback.\<close>

definition http_handleRead :: "turn_env \<Rightarrow> (nat list \<Rightarrow> nat + string) \<Rightarrow> int \<Rightarrow> http_conn \<Rightarrow> http_conn res option" where
  "http_handleRead env sys_readv t hc =
     then_do (Some (readFd sys_readv (cn_inputBuffer (io_conn (hc_io hc))))) (\<lambda>(n, err, b).
       let io1 = set_input b (hc_io hc); hc1 = hc\<lparr>hc_io := io1\<rparr>
       in if 0 < n then onMessage (te_write env) (te_http env) t hc1
          else if n = 0 then Some (bind_res (handleClose (te_close env) io1) (\<lambda>io2. Inr (hc1\<lparr>hc_io := io2\<rparr>)))
          else Some (Inr hc1))"

text \<open>The callbacks that \<open>handleEvent\<close> calls.\<close>

fun run_callbacks :: "turn_env \<Rightarrow> (nat list \<Rightarrow> nat + string) \<Rightarrow> int \<Rightarrow> nat list \<Rightarrow> http_conn \<Rightarrow> http_conn res option" where
  "run_callbacks env sys_readv t [] hc = Some (Inr hc)"
| "run_callbacks env sys_readv t (cb # cbs) hc =
     then_do (if cb = cb_handleRead then http_handleRead env sys_readv t hc
              else Some (bind_res (handleClose (te_close env) (hc_io hc)) (\<lambda>io. Inr (hc\<lparr>hc_io := io\<rparr>))))
       (run_callbacks env sys_readv t cbs)"

text \<open>The active channels in turn; the events of other channels do not concern the connection with channel \<open>p0\<close>.\<close>

fun run_active :: "turn_env \<Rightarrow> (nat list \<Rightarrow> nat + string) \<Rightarrow> int \<Rightarrow> nat \<Rightarrow> nat list \<Rightarrow> http_conn \<Rightarrow> http_conn res option" where
  "run_active env sys_readv t p0 [] hc = Some (Inr hc)"
| "run_active env sys_readv t p0 (p # ps) hc =
     then_do (if p = p0
              then then_do (Some (chan_at p (io_rx (hc_io hc)))) (\<lambda>c. run_callbacks env sys_readv t (handleEvent c) hc)
              else Some (Inr hc))
       (run_active env sys_readv t p0 ps)"

definition http_turn :: "turn_env \<Rightarrow> ((int \<rightharpoonup> 32 word) \<Rightarrow> nat \<Rightarrow> (int \<times> 32 word) list option) \<Rightarrow> (nat list \<Rightarrow> nat + string) \<Rightarrow> int \<Rightarrow>
    http_conn \<Rightarrow> http_conn res option" where
  "http_turn env wait sys_readv t hc =
     then_do (Some (poll wait (io_rx (hc_io hc)))) (\<lambda>(active, rx).
       run_active env sys_readv t (cn_channel (io_conn (hc_io hc))) active (hc\<lparr>hc_io := (hc_io hc)\<lparr>io_rx := rx\<rparr>\<rparr>))"

text \<open>Turns in which \<open>readv\<close> has the given texts to deliver.\<close>

type_synonym arrivals = "(((int \<rightharpoonup> 32 word) \<Rightarrow> nat \<Rightarrow> (int \<times> 32 word) list option) \<times> string) list"

fun serve :: "turn_env \<Rightarrow> int \<Rightarrow> arrivals \<Rightarrow> http_conn \<Rightarrow> http_conn res option" where
  "serve env t [] hc = Some (Inr hc)"
| "serve env t ((wait, p) # as) hc =
     then_do (http_turn env wait (\<lambda>lens. Inr (take (sum_list lens) p)) t hc) (serve env t as)"

section \<open>Buffers\<close>

lemma append_length:
  assumes "buf_wf b" and "buf_room (length s) b" and "append s b = Inr b'"
  shows "length (m_buffer b') \<le> length (m_buffer b) + length s"
proof -
  have wf: "m_readerIndex b \<le> m_writerIndex b" "m_writerIndex b \<le> length (m_buffer b)" "kCheapPrepend \<le> m_readerIndex b"
    using assms(1) by (auto simp: buf_wf_def)
  show ?thesis
  proof (cases "writableBytes b < length s")
    case True
    obtain b1 where b1: "makeSpace (int (length s)) b = Inr b1" "buf_wf b1"
        "length s \<le> length (m_buffer b1) - m_writerIndex b1"
      using makeSpace_ok [OF assms(1,2) True] by blast
    have len: "length (m_buffer b1) \<le> length (m_buffer b) + length s"
      using b1(1) wf assms(1) unfolding makeSpace_def makeSpace_guard [OF assms(1,2)]
      by (auto simp: bind_res_eq_Inr cassert_eq_Inr Let_def vector_resize_def length_contents split: if_splits)
    with True b1 assms show ?thesis
      by (auto simp: append_def hasWritten_def cassert_eq_Inr buf_room_def beginWrite_def buf_wf_def split: if_splits)
  next
    case False
    with assms wf show ?thesis
      by (auto simp: append_def hasWritten_def cassert_eq_Inr beginWrite_def Let_def split: if_splits)
  qed
qed

lemma retrieveUntil_vector: "retrieveUntil u b = Inr b' \<Longrightarrow> m_buffer b' = m_buffer b"
  by (auto simp: retrieveUntil_def retrieve_def retrieveAll_def cassert_eq_Inr split: if_splits)

lemma parse_turn_vector:
  assumes "parse_turn t (g, h, c, b) = Inr (g', h', c', b')"
  shows "m_buffer b' = m_buffer b"
proof (cases "findCRLF b")
  case None
  with assms show ?thesis by (cases "ctx_state c") (simp_all add: parse_turn_def)
next
  case (Some crlf)
  with assms show ?thesis
    by (cases "ctx_state c") (auto simp: parse_turn_def bind_res_eq_Inr Let_def dest: retrieveUntil_vector split: if_splits)
qed

lemma parseRequest_vector:
  assumes "parseRequest t c b = Some (Inr (good, c', b'))"
  shows "m_buffer b' = m_buffer b"
proof -
  define P where "P \<equiv> \<lambda>s :: parse_vars res. case s of Inl e \<Rightarrow> True | Inr (g, h, c1, b1) \<Rightarrow> m_buffer b1 = m_buffer b"
  have turn: "P (bind_res s (parse_turn t))" if "P s" for s
    using that parse_turn_vector by (fastforce simp: P_def bind_res_eq_Inr split: sum.splits)
  obtain s where s: "parse_loop t (Inr (True, True, c, b)) = Some s" "bind_res s (\<lambda>(g, h, c, b). Inr (g, c, b)) = Inr (good, c', b')"
    using assms by (auto simp: parseRequest_def)
  have "P s" by (rule while_option_rule [OF _ s(1)]) (use turn in \<open>simp_all add: P_def\<close>)
  with s(2) show ?thesis by (auto simp: P_def bind_res_eq_Inr)
qed

text \<open>Reading a piece that fits the buffer on the stack.\<close>

lemma readFd_piece:
  assumes "buf_wf b" and "length p \<le> kExtraBufferSize" and "length (m_buffer b) + kExtraBufferSize \<le> vector_max_size"
  shows "\<exists>b'. readFd (\<lambda>lens. Inr (take (sum_list lens) p)) b = Inr (int (length p), None, b') \<and> buf_wf b' \<and>
    contents b' = contents b @ p \<and> length (m_buffer b') \<le> length (m_buffer b) + length p"
proof -
  let ?readv = "\<lambda>lens. Inr (take (sum_list lens) p) :: nat + string"
  let ?lens = "take (if writableBytes b < kExtraBufferSize then 2 else 1) [writableBytes b, kExtraBufferSize]"
  have wf: "m_writerIndex b \<le> length (m_buffer b)" using assms(1) by (simp add: buf_wf_def)
  have all: "take (sum_list ?lens) p = p" using assms(2) by (auto simp: numeral_2_eq_2)
  have room: "m_writerIndex b + writableBytes b + kExtraBufferSize \<le> vector_max_size"
    using assms(3) wf by (simp add: writableBytes_def)
  have "readv_ok ?readv" by (simp add: readv_ok_def)
  from readFd_appends [OF assms(1) this room] all obtain b' where
      b': "readFd ?readv b = Inr (int (length p), None, b')" "buf_wf b'" "contents b' = contents b @ p"
    by auto
  let ?w = "writableBytes b"
  let ?b1 = "b\<lparr>m_buffer := write_at (beginWrite b) (take ?w p) (m_buffer b)\<rparr>"
  have len1: "length (m_buffer ?b1) = length (m_buffer b)"
    using wf by (simp add: beginWrite_def writableBytes_def)
  have "length (m_buffer b') \<le> length (m_buffer b) + length p"
  proof (cases "length p \<le> ?w")
    case True
    then show ?thesis using b'(1) all len1 by (auto simp: readFd_def Let_def)
  next
    case False
    let ?b2 = "?b1\<lparr>m_writerIndex := length (m_buffer ?b1)\<rparr>"
    have wf2: "buf_wf ?b2" using assms(1) len1 by (auto simp: buf_wf_def)
    have "buf_room (length (drop ?w p)) ?b2" 
      using assms(2,3) len1 diff_le_self [of "length p" ?w] by (auto simp: buf_room_def buffer_consts)
    moreover have "append (drop ?w p) ?b2 = Inr b'"
      using b'(1) all False by (auto simp: readFd_def Let_def bind_res_eq_Inr)
    ultimately show ?thesis using append_length [OF wf2] len1 by fastforce
  qed
  with b' show ?thesis by blast
qed

section \<open>Turns\<close>

text \<open>A connection waiting for a request: idle, its channel calls \<open>handleRead\<close>, and the poller is not overloaded.\<close>

definition conn_ready :: "http_conn \<Rightarrow> bool" where
  "conn_ready hc \<longleftrightarrow> idle_conn (hc_io hc) \<and> ch_readCallBack (conn_chan (hc_io hc)) = Some cb_handleRead \<and>
     card (dom (ep_kernel (io_rx (hc_io hc)))) \<le> 10000"

text \<open>The kernel reports the descriptor as readable, among others, within the size of the event vector.\<close>

definition reports :: "((int \<rightharpoonup> 32 word) \<Rightarrow> nat \<Rightarrow> (int \<times> 32 word) list option) \<Rightarrow> int \<Rightarrow> bool" where
  "reports wait fd \<longleftrightarrow> (\<forall>k n. k fd \<noteq> None \<longrightarrow> 0 < n \<longrightarrow> (\<exists>evs. wait k n = Some evs \<and> (fd, EVENTIN) \<in> set (take 1024 evs)))"

lemma run_active_others: "p0 \<notin> set ps \<Longrightarrow> run_active env sys_readv t p0 ps hc = Some (Inr hc)"
  by (induction ps) (auto simp: then_do_def)

lemma then_do_return [simp]: "then_do m (\<lambda>x. Some (Inr x)) = m"
  by (auto simp: then_do_def split: option.splits sum.splits)

lemma run_active_once:
  assumes "p0 \<notin> set xs" and "p0 \<notin> set ys" and "rx_chans (io_rx (hc_io hc)) p0 = Some c"
  shows "run_active env sys_readv t p0 (xs @ p0 # ys) hc = run_callbacks env sys_readv t (handleEvent c) hc"
  using assms
proof (induction xs)
  case Nil
  then show ?case by (simp add: then_do_def chan_at_live run_active_others split: option.splits sum.splits)
next
  case (Cons x xs)
  then show ?case by (auto simp: then_do_def)
qed

lemma run_callbacks_read: "run_callbacks env sys_readv t [cb_handleRead] hc = http_handleRead env sys_readv t hc"
  by (auto simp: then_do_def split: option.splits sum.splits)

lemma channels_card:
  assumes "rx_inv s"
  shows "length (ep_channels s) = card (dom (ep_kernel s))"
proof -
  have "distinct (map fst (ep_channels s))" using assms by (simp add: rx_inv_def strict_sorted_iff)
  then have "length (ep_channels s) = card (fst ` set (ep_channels s))"
    using distinct_card [of "map fst (ep_channels s)"] by simp
  also have "fst ` set (ep_channels s) = dom (ep_kernel s)" using assms by (simp add: rx_inv_def)
  finally show ?thesis .
qed

text \<open>The channel of a readable descriptor is active once, with the event recorded in it.\<close>

lemma poll_readable:
  assumes "rx_inv s" and "epoll_wait_ok wait" and "reports wait (ch_fd c)" and "card (dom (ep_kernel s)) \<le> 10000"
    and "rx_chans s p = Some c" and "owner s (ch_fd c) = Some p"
  shows "\<exists>rx xs ys. poll wait s = Inr (xs @ p # ys, rx) \<and> p \<notin> set xs \<and> p \<notin> set ys \<and> rx_inv rx \<and> ep_kernel rx = ep_kernel s \<and>
    owner rx = owner s \<and> rx_chans rx p = Some (c\<lparr>ch_revents := EVENTIN\<rparr>)"
proof -
  have small: "length (ep_channels s) \<le> kMaxEpollConcurrencySize"
    using assms(4) channels_card [OF assms(1)] by (simp add: kMaxEpollConcurrencySize_def)
  have reg: "ep_kernel s (ch_fd c) \<noteq> None" using assms(6) kernel_registered [OF assms(1)] by (simp add: owner_def)
  have pos: "0 < ep_maxEventsSize s" using assms(1,6) by (cases "ep_channels s") (auto simp: owner_def rx_inv_def)
  from assms(3) reg pos obtain evs where evs: "wait (ep_kernel s) (ep_maxEventsSize s) = Some evs"
      "(ch_fd c, EVENTIN) \<in> set (take 1024 evs)"
    unfolding reports_def by blast
  let ?evs = "take kInitEpollEventsSize evs" and ?h = "\<lambda>e. the (owner s (fst e))"
  obtain rx where rx: "poll wait s = Inr (map ?h ?evs, rx)" "rx_inv rx" "ep_kernel rx = ep_kernel s"
      "owner rx = owner s" "rx_chans rx = with_revents ?evs s"
    using poll_ok [OF assms(1,2) small evs(1)] by blast
  have mem: "(ch_fd c, EVENTIN) \<in> set ?evs" using evs(2) by (simp add: kInitEpollEventsSize_def)
  have "distinct (map fst evs)" using assms(2) evs(1) unfolding epoll_wait_ok_def by blast
  then have dist: "distinct (map fst ?evs)" by (simp add: take_map [symmetric])
  have regs: "owner s (fst e) \<noteq> None" if "e \<in> set ?evs" for e
    using assms(2) evs(1) in_set_takeD [OF that] kernel_registered [OF assms(1), of "fst e"]
    unfolding epoll_wait_ok_def owner_def by blast
  obtain xs ys where sp: "?evs = xs @ (ch_fd c, EVENTIN) # ys" using mem by (meson split_list)
  have other: "?h e \<noteq> p" if "e \<in> set ?evs" "fst e \<noteq> ch_fd c" for e
    using regs [OF that(1)] that(2) rx_inv_registered [OF assms(1), of "fst e" p] assms(5) by (auto simp: owner_def)
  have "fst e \<noteq> ch_fd c" if "e \<in> set xs \<or> e \<in> set ys" for e using dist that unfolding sp by (auto simp: image_iff)
  then have "p \<notin> set (map ?h xs)" "p \<notin> set (map ?h ys)" using other sp by auto
  moreover have "map ?h ?evs = map ?h xs @ p # map ?h ys" using assms(6) unfolding sp by simp
  moreover have "rx_chans rx p = Some (c\<lparr>ch_revents := EVENTIN\<rparr>)"
    using assms(5,6) mem dist by (simp add: rx(5) with_revents_def)
  ultimately show ?thesis using rx(1-4) by metis
qed

text \<open>A turn with the descriptor readable is a call of \<open>handleRead\<close> on the connection with the received events recorded.\<close>

lemma turn_reads:
  assumes "conn_ready hc" and "epoll_wait_ok wait" and "reports wait (ch_fd (conn_chan (hc_io hc)))"
  shows "\<exists>rx. http_turn env wait sys_readv t hc = http_handleRead env sys_readv t (hc\<lparr>hc_io := (hc_io hc)\<lparr>io_rx := rx\<rparr>\<rparr>) \<and>
    conn_ready (hc\<lparr>hc_io := (hc_io hc)\<lparr>io_rx := rx\<rparr>\<rparr>) \<and> ch_fd (conn_chan ((hc_io hc)\<lparr>io_rx := rx\<rparr>)) = ch_fd (conn_chan (hc_io hc))"
proof -
  let ?io = "hc_io hc" and ?rx = "io_rx (hc_io hc)" and ?p = "cn_channel (io_conn (hc_io hc))"
  have inv: "io_inv ?io" and rinv: "rx_inv ?rx" and card: "card (dom (ep_kernel ?rx)) \<le> 10000"
    using assms(1) by (simp_all add: conn_ready_def idle_conn_def io_inv_def)
  from io_invE [OF inv] obtain c where c: "rx_chans ?rx ?p = Some c" "conn_chan ?io = c" "owner ?rx (ch_fd c) = Some ?p"
      "ch_writeCallBack c = None" .
  from poll_readable [OF rinv assms(2) _ card c(1,3)] assms(3) c(2) obtain rx xs ys where
      rx: "poll wait ?rx = Inr (xs @ ?p # ys, rx)" "?p \<notin> set xs" "?p \<notin> set ys" "rx_inv rx" "ep_kernel rx = ep_kernel ?rx"
        "owner rx = owner ?rx" "rx_chans rx ?p = Some (c\<lparr>ch_revents := EVENTIN\<rparr>)"
    by blast
  let ?hc = "hc\<lparr>hc_io := ?io\<lparr>io_rx := rx\<rparr>\<rparr>" and ?c = "c\<lparr>ch_revents := EVENTIN\<rparr>"
  have "handleEvent ?c = [cb_handleRead]"
    using assms(1) c(2) by (simp add: handleEvent_cases call_if_def conn_ready_def)
  then have "http_turn env wait sys_readv t hc = http_handleRead env sys_readv t ?hc"
    using rx(1) run_active_once [OF rx(2,3), of ?hc ?c] rx(7)
    by (simp add: http_turn_def then_do_def [of "Some (Inr _)"] run_callbacks_read del: run_callbacks.simps)
  moreover have "conn_chan (hc_io ?hc) = ?c" using rx(7) by (simp add: conn_chan_def)
  moreover have "rx_room rx"
    using inv channels_card [OF rinv] channels_card [OF rx(4)] rx(5) by (simp add: io_inv_def rx_room_def)
  ultimately show ?thesis
    using assms(1) c rx(4-7) by (intro exI [of _ rx]) (auto simp: conn_ready_def idle_conn_def io_inv_def out_bytes_def)
qed

text \<open>Turns that bring a part of a request leave the rest of the connection as it is.\<close>

lemma turn_piece:
  assumes "conn_ready hc" and "epoll_wait_ok wait" and "reports wait (ch_fd (conn_chan (hc_io hc)))"
    and "p \<noteq> []" and "length p \<le> kExtraBufferSize" and "length (m_buffer (cn_inputBuffer (io_conn (hc_io hc)))) + kExtraBufferSize \<le> vector_max_size"
  shows "\<exists>hc1. http_turn env wait (\<lambda>lens. Inr (take (sum_list lens) p)) t hc = onMessage (te_write env) (te_http env) t hc1 \<and>
    conn_ready hc1 \<and> hc_context hc1 = hc_context hc \<and> ch_fd (conn_chan (hc_io hc1)) = ch_fd (conn_chan (hc_io hc)) \<and>
    contents (cn_inputBuffer (io_conn (hc_io hc1))) = contents (cn_inputBuffer (io_conn (hc_io hc))) @ p \<and>
    length (m_buffer (cn_inputBuffer (io_conn (hc_io hc1)))) \<le> length (m_buffer (cn_inputBuffer (io_conn (hc_io hc)))) + length p \<and>
    io_wire (hc_io hc1) = io_wire (hc_io hc) \<and> io_shutdown (hc_io hc1) = io_shutdown (hc_io hc)"
proof -
  let ?readv = "\<lambda>lens. Inr (take (sum_list lens) p) :: nat + string"
  from turn_reads [OF assms(1-3), of env ?readv t] obtain rx where
      rx: "http_turn env wait ?readv t hc = http_handleRead env ?readv t (hc\<lparr>hc_io := (hc_io hc)\<lparr>io_rx := rx\<rparr>\<rparr>)"
        "conn_ready (hc\<lparr>hc_io := (hc_io hc)\<lparr>io_rx := rx\<rparr>\<rparr>)"
        "ch_fd (conn_chan ((hc_io hc)\<lparr>io_rx := rx\<rparr>)) = ch_fd (conn_chan (hc_io hc))"
    by blast
  have "buf_wf (cn_inputBuffer (io_conn (hc_io hc)))" using assms(1) by (simp add: conn_ready_def idle_conn_def io_inv_def)
  from readFd_piece [OF this assms(5,6)] obtain b where
      b: "readFd ?readv (cn_inputBuffer (io_conn (hc_io hc))) = Inr (int (length p), None, b)" "buf_wf b"
        "contents b = contents (cn_inputBuffer (io_conn (hc_io hc))) @ p"
        "length (m_buffer b) \<le> length (m_buffer (cn_inputBuffer (io_conn (hc_io hc)))) + length p"
    by blast
  let ?hc1 = "hc\<lparr>hc_io := set_input b ((hc_io hc)\<lparr>io_rx := rx\<rparr>)\<rparr>"
  have "http_turn env wait ?readv t hc = onMessage (te_write env) (te_http env) t ?hc1"
    using rx(1) b(1) assms(4) by (simp add: http_handleRead_def then_do_def Let_def)
  moreover have "conn_chan (hc_io ?hc1) = conn_chan ((hc_io hc)\<lparr>io_rx := rx\<rparr>)" by (simp add: conn_chan_def set_input_def)
  ultimately show ?thesis
    using rx b by (intro exI [of _ ?hc1]) (simp add: conn_ready_def idle_conn_def io_inv_def out_bytes_def set_input_def)
qed

lemma onMessage_part:
  assumes "hc_context hc = Some c" and "expecting c" and "conn_ready hc"
    and "parse_str t c (contents (cn_inputBuffer (io_conn (hc_io hc)))) = Inr (True, c1, rest)" and "\<not> gotAll c1"
  shows "\<exists>hc'. onMessage sys_write http_cb t hc = Some (Inr hc') \<and> conn_ready hc' \<and> hc_context hc' = Some c1 \<and>
    ch_fd (conn_chan (hc_io hc')) = ch_fd (conn_chan (hc_io hc)) \<and> contents (cn_inputBuffer (io_conn (hc_io hc'))) = rest \<and>
    m_buffer (cn_inputBuffer (io_conn (hc_io hc'))) = m_buffer (cn_inputBuffer (io_conn (hc_io hc))) \<and>
    io_wire (hc_io hc') = io_wire (hc_io hc) \<and> io_shutdown (hc_io hc') = io_shutdown (hc_io hc)"
proof -
  have "buf_wf (cn_inputBuffer (io_conn (hc_io hc)))" using assms(3) by (simp add: conn_ready_def idle_conn_def io_inv_def)
  from parseRequest_refines [OF this assms(2), of t] assms(4) obtain b where
      b: "parseRequest t c (cn_inputBuffer (io_conn (hc_io hc))) = Some (Inr (True, c1, b))" "buf_wf b" "contents b = rest"
    by auto
  let ?hc = "hc\<lparr>hc_io := set_input b (hc_io hc), hc_context := Some c1\<rparr>"
  have "onMessage sys_write http_cb t hc = Some (Inr ?hc)" using assms(1,5) b(1) by (simp add: onMessage_def)
  then show ?thesis
    using assms(3) b parseRequest_vector [OF b(1)]
    by (intro exI [of _ ?hc]) (simp add: conn_ready_def idle_conn_def io_inv_def out_bytes_def set_input_def conn_chan_def)
qed

section \<open>Properties\<close>

text \<open>Each turn brings a piece, not empty and not longer than the buffer on the stack of \<open>readFd\<close>, and the poller reports it.\<close>

definition arrivals_ok :: "int \<Rightarrow> arrivals \<Rightarrow> bool" where
  "arrivals_ok fd as \<longleftrightarrow> list_all (\<lambda>(wait, p). epoll_wait_ok wait \<and> reports wait fd \<and> p \<noteq> [] \<and> length p \<le> kExtraBufferSize) as"

text \<open>A proper prefix of a text that parses to a request without rest is a part of the request.\<close>

lemma parse_part:
  assumes "expecting c" and "parse_str t c (s @ ext) = Inr (True, c', [])" and "ext \<noteq> []"
  shows "\<exists>c1 rest. parse_str t c s = Inr (True, c1, rest) \<and> \<not> gotAll c1 \<and> expecting c1 \<and>
    parse_str t c1 (rest @ ext) = Inr (True, c', [])"
proof (cases "parse_str t c s")
  case (Inl e)
  with parse_str_append_stopped(1) [OF assms(1) Inl, of ext] assms(2) show ?thesis by simp
next
  case (Inr q)
  obtain good c1 rest where q: "q = (good, c1, rest)" by (rule prod_cases3)
  show ?thesis
  proof (cases good)
    case False
    with parse_str_append_stopped(2) [OF assms(1), of t s c1 rest ext] Inr q assms(2) show ?thesis by simp
  next
    case True
    with Inr q have p: "parse_str t c s = Inr (True, c1, rest)" by simp
    from parse_str_append [OF assms(1) p, of ext] assms(2,3) have "\<not> gotAll c1" by auto
    with parse_str_append [OF assms(1) p, of ext] parse_str_expecting [OF assms(1) p] p assms(2) show ?thesis by auto
  qed
qed

lemma serve_complete:
  assumes "resp = http_cb req (HttpResponse_ctor (wants_close req))" and "length (concat (response_pieces resp)) < 2 ^ 31"
    and "hc_context hc = Some c" and "expecting c" and "conn_ready hc" and "as \<noteq> []"
    and "arrivals_ok (ch_fd (conn_chan (hc_io hc))) as"
    and "length (m_buffer (cn_inputBuffer (io_conn (hc_io hc)))) + length (concat (map snd as)) + kExtraBufferSize \<le> vector_max_size"
    and "parse_str t c (contents (cn_inputBuffer (io_conn (hc_io hc))) @ concat (map snd as)) =
      Inr (True, \<lparr>ctx_state = kGotAll, ctx_request = req\<rparr>, [])"
  shows "\<exists>hc'. serve \<lparr>te_write = (\<lambda>s. Inr (length s)), te_http = http_cb, te_close = on_close\<rparr> t as hc = Some (Inr hc') \<and>
    io_wire (hc_io hc') = io_wire (hc_io hc) @ concat (response_pieces resp) \<and>
    contents (cn_inputBuffer (io_conn (hc_io hc'))) = [] \<and> hc_context hc' = Some HttpContext_ctor \<and>
    cn_state (io_conn (hc_io hc')) = (if resp_closeConnection resp then kDisConnecting else kConnected) \<and>
    io_shutdown (hc_io hc') = (resp_closeConnection resp \<or> io_shutdown (hc_io hc))"
  using assms(3-9)
proof (induction as arbitrary: hc c)
  case Nil
  then show ?case by simp
next
  case (Cons a as)
  let ?env = "\<lparr>te_write = (\<lambda>s. Inr (length s)), te_http = http_cb, te_close = on_close\<rparr>"
  obtain wait p where a: "a = (wait, p)" by (cases a)
  have ok: "epoll_wait_ok wait" "reports wait (ch_fd (conn_chan (hc_io hc)))" "p \<noteq> []" "length p \<le> kExtraBufferSize"
    using Cons.prems(5) a by (auto simp: arrivals_ok_def)
  have room: "length (m_buffer (cn_inputBuffer (io_conn (hc_io hc)))) + kExtraBufferSize \<le> vector_max_size"
    using Cons.prems(6) by simp
  from turn_piece [OF Cons.prems(3) ok room, of ?env t] obtain hc1 where
      hc1: "http_turn ?env wait (\<lambda>lens. Inr (take (sum_list lens) p)) t hc = onMessage (\<lambda>s. Inr (length s)) http_cb t hc1" "conn_ready hc1"
        "hc_context hc1 = Some c" "ch_fd (conn_chan (hc_io hc1)) = ch_fd (conn_chan (hc_io hc))"
        "contents (cn_inputBuffer (io_conn (hc_io hc1))) = contents (cn_inputBuffer (io_conn (hc_io hc))) @ p"
        "length (m_buffer (cn_inputBuffer (io_conn (hc_io hc1)))) \<le> length (m_buffer (cn_inputBuffer (io_conn (hc_io hc)))) + length p"
        "io_wire (hc_io hc1) = io_wire (hc_io hc)" "io_shutdown (hc_io hc1) = io_shutdown (hc_io hc)"
    using Cons.prems(1) by auto
  let ?s = "contents (cn_inputBuffer (io_conn (hc_io hc1)))" and ?ext = "concat (map snd as)"
  have all: "parse_str t c (?s @ ?ext) = Inr (True, \<lparr>ctx_state = kGotAll, ctx_request = req\<rparr>, [])"
    using Cons.prems(7) a hc1(5) by simp
  show ?case
  proof (cases "as = []")
    case True
    have "idle_conn (hc_io hc1)" using hc1(2) by (simp add: conn_ready_def)
    with onMessage_complete [where http_cb = http_cb, OF assms(1) hc1(3) Cons.prems(2), of t "[]"] all True assms(2) hc1 a
    show ?thesis by (auto simp: then_do_def)
  next
    case False
    then have ext: "?ext \<noteq> []" using Cons.prems(5) by (cases as) (auto simp: arrivals_ok_def)
    from parse_part [OF Cons.prems(2) all ext] obtain c1 rest where
        c1: "parse_str t c ?s = Inr (True, c1, rest)" "\<not> gotAll c1" "expecting c1"
          "parse_str t c1 (rest @ ?ext) = Inr (True, \<lparr>ctx_state = kGotAll, ctx_request = req\<rparr>, [])"
      by blast
    from onMessage_part [OF hc1(3) Cons.prems(2) hc1(2) c1(1,2), of "\<lambda>s. Inr (length s)" http_cb] obtain hc2 where
        hc2: "onMessage (\<lambda>s. Inr (length s)) http_cb t hc1 = Some (Inr hc2)" "conn_ready hc2" "hc_context hc2 = Some c1"
          "ch_fd (conn_chan (hc_io hc2)) = ch_fd (conn_chan (hc_io hc1))" "contents (cn_inputBuffer (io_conn (hc_io hc2))) = rest"
          "m_buffer (cn_inputBuffer (io_conn (hc_io hc2))) = m_buffer (cn_inputBuffer (io_conn (hc_io hc1)))"
          "io_wire (hc_io hc2) = io_wire (hc_io hc1)" "io_shutdown (hc_io hc2) = io_shutdown (hc_io hc1)"
      by blast
    have "arrivals_ok (ch_fd (conn_chan (hc_io hc2))) as" using Cons.prems(5) hc2(4) hc1(4) by (simp add: arrivals_ok_def)
    moreover have "length (m_buffer (cn_inputBuffer (io_conn (hc_io hc2)))) + length ?ext + kExtraBufferSize \<le> vector_max_size"
      using Cons.prems(6) hc1(6) hc2(6) a by simp
    ultimately show ?thesis
      using Cons.IH [OF hc2(3) c1(3) hc2(2) False] c1(4) hc1(1,7,8) hc2(1,5,7,8) a by (simp add: then_do_def)
  qed
qed


definition readable_wait :: "(int \<rightharpoonup> 32 word) \<Rightarrow> nat \<Rightarrow> (int \<times> 32 word) list option" where
  "readable_wait k n = (if k 5 = None \<or> n = 0 then None else Some [(5, EVENTIN)])"


end
