(* ===== verification/TA_Webbench.thy ===== *)
theory TA_Webbench
  imports TA_Http
begin

text \<open>
  The benchmark client (\<open>webbench/webbench.c\<close>): its options and the request it builds from a URL. The URL and the arguments of
  options are C strings, here texts without a null character. The character arrays of the program have their length: \<open>host\<close> and \<open>tmp\<close>
  are lists of characters that \<open>strncpy\<close> fills, \<open>request\<close> is the text that \<open>strcat\<close> extends in its 2048 bytes. A write past an
  array, and a read of an array without a null character, is the fault \<open>OutOfRange\<close>. \<open>exit(n)\<close> and a \<open>return\<close> of \<open>main\<close> are
  the left of a sum.

  Parameter: what \<open>getopt_long\<close> makes of the command line, a list of options.
\<close>

section \<open>C strings\<close>

definition strstr :: "string \<Rightarrow> string \<Rightarrow> nat option" where
  "strstr s pat = (let i = search_sub pat s in if i = length s then None else Some i)"

definition strrchr :: "char \<Rightarrow> string \<Rightarrow> nat option" where
  "strrchr c s = (if c \<in> set s then Some (length s - 1 - find_char c (rev s)) else None)"

definition c_tolower :: "char \<Rightarrow> char" where
  "c_tolower c = (if 65 \<le> (of_char c :: nat) \<and> (of_char c :: nat) \<le> 90 then char_of (of_char c + 32 :: nat) else c)"

text \<open>\<open>strncasecmp(lower, s, n) == 0\<close> for a text in lower case of length \<open>n\<close>.\<close>

definition same_prefix :: "string \<Rightarrow> string \<Rightarrow> bool" where
  "same_prefix lower s \<longleftrightarrow> map c_tolower (take (length lower) s) = lower"

text \<open>\<open>strncpy(arr, s, n)\<close> writes \<open>n\<close> characters, null ones after the end of \<open>s\<close>.\<close>

definition strncpy_arr :: "char list \<Rightarrow> string \<Rightarrow> nat \<Rightarrow> char list res" where
  "strncpy_arr arr s n =
     (if n \<le> length arr then Inr (take n s @ replicate (n - length s) (CHR 0x00) @ drop n arr) else Inl OutOfRange)"

text \<open>The C string in an array.\<close>

definition arr_text :: "char list \<Rightarrow> string res" where
  "arr_text arr = (if CHR 0x00 \<in> set arr then Inr (c_str arr) else Inl OutOfRange)"

text \<open>\<open>strcat\<close> to a text in an array of \<open>n\<close> characters.\<close>

definition strcat_to :: "nat \<Rightarrow> string \<Rightarrow> string \<Rightarrow> string res" where
  "strcat_to n s t = (if length t + length s < n then Inr (t @ s) else Inl OutOfRange)"

section \<open>Settings\<close>

definition METHOD_GET :: int where "METHOD_GET = 0"
definition METHOD_HEAD :: int where "METHOD_HEAD = 1"
definition METHOD_OPTIONS :: int where "METHOD_OPTIONS = 2"
definition METHOD_TRACE :: int where "METHOD_TRACE = 3"

definition MAXHOSTNAMELEN :: nat where "MAXHOSTNAMELEN = 64"
definition REQUEST_SIZE :: nat where "REQUEST_SIZE = 2048"

text \<open>\<open>http10\<close> is 0 for HTTP/0.9, 1 for HTTP/1.0, 2 for HTTP/1.1.\<close>

record wb_globals =
  wb_http10 :: int
  wb_method :: int
  wb_clients :: int
  wb_force :: bool
  wb_force_reload :: bool
  wb_proxyport :: int
  wb_proxyhost :: "string option"
  wb_benchtime :: int
  wb_host :: "char list"
  wb_request :: string

definition wb_globals0 :: wb_globals where
  "wb_globals0 = \<lparr>wb_http10 = 1, wb_method = METHOD_GET, wb_clients = 1, wb_force = False, wb_force_reload = False,
     wb_proxyport = 80, wb_proxyhost = None, wb_benchtime = 30, wb_host = replicate MAXHOSTNAMELEN (CHR 0x00), wb_request = []\<rparr>"

section \<open>The request\<close>

text \<open>The protocol the method or the proxy asks for.\<close>

definition pick_http :: "wb_globals \<Rightarrow> int" where
  "pick_http g =
     (let h1 = (if wb_force_reload g \<and> wb_proxyhost g \<noteq> None \<and> wb_http10 g < 1 then 1 else wb_http10 g);
          h2 = (if wb_method g = METHOD_HEAD \<and> h1 < 1 then 1 else h1);
          h3 = (if wb_method g = METHOD_OPTIONS \<and> h2 < 2 then 2 else h2)
      in if wb_method g = METHOD_TRACE \<and> h3 < 2 then 2 else h3)"

definition method_text :: "int \<Rightarrow> string" where
  "method_text m = (if m = METHOD_HEAD then ''HEAD'' else if m = METHOD_OPTIONS then ''OPTIONS''
     else if m = METHOD_TRACE then ''TRACE'' else ''GET'')"

text \<open>Host name and port of what follows \<open>://\<close>; the port stays if there is none.\<close>

definition host_and_port :: "string \<Rightarrow> int \<Rightarrow> (char list \<times> int) res" where
  "host_and_port rest port =
     (let empty = replicate MAXHOSTNAMELEN (CHR 0x00);
          colon = find_char (CHR '':'') rest;
          slash = find_char (CHR ''/'') rest
      in if colon < length rest \<and> colon < slash
         then bind_res (strncpy_arr empty rest colon) (\<lambda>host.
              bind_res (strncpy_arr (replicate 10 (CHR 0x00)) (drop (Suc colon) rest) (slash - colon - 1)) (\<lambda>tmp.
              bind_res (arr_text tmp) (\<lambda>t. Inr (host, if atoi t = 0 then 80 else atoi t))))
         else bind_res (strncpy_arr empty rest slash) (\<lambda>host. Inr (host, port)))"

text \<open>The pieces given to \<open>strcat\<close>, in order; \<open>target\<close> is the path, or the URL for a proxy.\<close>

definition request_pieces :: "int \<Rightarrow> wb_globals \<Rightarrow> string \<Rightarrow> string \<Rightarrow> string list" where
  "request_pieces http g target hostname =
     [method_text (wb_method g), '' '', target] @
     (if http = 1 then ['' HTTP/1.0''] else if http = 2 then ['' HTTP/1.1''] else []) @ [kCRLF] @
     (if 0 < http then [''User-Agent: WebBench 1.5'' @ kCRLF] else []) @
     (if wb_proxyhost g = None \<and> 0 < http then [''Host: '', hostname, kCRLF] else []) @
     (if wb_force_reload g \<and> wb_proxyhost g \<noteq> None then [''Pragma: no-cache'' @ kCRLF] else []) @
     (if 1 < http then [''Connection: close'' @ kCRLF] else []) @
     (if 0 < http then [kCRLF] else [])"

text \<open>\<open>build_request\<close>: the exit code, or the globals with \<open>host\<close>, \<open>request\<close>, the port and the protocol set.\<close>

definition build_request :: "string \<Rightarrow> wb_globals \<Rightarrow> (int + wb_globals) res" where
  "build_request url g =
     (case strstr url ''://'' of
        None \<Rightarrow> Inr (Inl 2)
      | Some p \<Rightarrow>
          if 1500 < length url then Inr (Inl 2)
          else if wb_proxyhost g = None \<and> \<not> same_prefix ''http://'' url then Inr (Inl 2)
          else
            (let rest = drop (p + 3) url; http = pick_http g
             in if CHR ''/'' \<notin> set rest then Inr (Inl 2)
                else
                  bind_res (if wb_proxyhost g = None then host_and_port rest (wb_proxyport g)
                            else Inr (replicate MAXHOSTNAMELEN (CHR 0x00), wb_proxyport g)) (\<lambda>(host, port).
                  bind_res (if wb_proxyhost g = None \<and> 0 < http then arr_text host else Inr []) (\<lambda>hostname.
                  bind_res (fold_res (strcat_to REQUEST_SIZE)
                      (request_pieces http g (if wb_proxyhost g = None then drop (find_char (CHR ''/'') rest) rest else url) hostname) [])
                    (\<lambda>req. Inr (Inr (g\<lparr>wb_http10 := http, wb_host := host, wb_proxyport := port, wb_request := req\<rparr>)))))))"

section \<open>Options\<close>

text \<open>What \<open>getopt_long\<close> reports: a long option that sets a variable, or a character with its argument.\<close>

datatype wb_opt = LongForce | LongReload | LongMethod int | ShortOption char string

text \<open>\<open>--proxy server:port\<close>.\<close>

definition parse_proxy :: "string \<Rightarrow> wb_globals \<Rightarrow> int + wb_globals" where
  "parse_proxy optarg g =
     (case strrchr (CHR '':'') optarg of
        None \<Rightarrow> Inr (g\<lparr>wb_proxyhost := Some optarg\<rparr>)
      | Some k \<Rightarrow>
          if k = 0 then Inl 2
          else if k = length optarg - 1 then Inl 2
          else Inr (g\<lparr>wb_proxyhost := Some (take k optarg), wb_proxyport := atoi (drop (Suc k) optarg)\<rparr>))"

fun wb_option :: "wb_opt \<Rightarrow> wb_globals \<Rightarrow> int + wb_globals" where
  "wb_option LongForce g = Inr (g\<lparr>wb_force := True\<rparr>)"
| "wb_option LongReload g = Inr (g\<lparr>wb_force_reload := True\<rparr>)"
| "wb_option (LongMethod m) g = Inr (g\<lparr>wb_method := m\<rparr>)"
| "wb_option (ShortOption c optarg) g =
     (if c = CHR ''f'' then Inr (g\<lparr>wb_force := True\<rparr>)
      else if c = CHR ''r'' then Inr (g\<lparr>wb_force_reload := True\<rparr>)
      else if c = CHR ''9'' then Inr (g\<lparr>wb_http10 := 0\<rparr>)
      else if c = CHR ''1'' then Inr (g\<lparr>wb_http10 := 1\<rparr>)
      else if c = CHR ''2'' then Inr (g\<lparr>wb_http10 := 2\<rparr>)
      else if c = CHR ''V'' then Inl 0
      else if c = CHR ''t'' then Inr (g\<lparr>wb_benchtime := atoi optarg\<rparr>)
      else if c = CHR ''p'' then parse_proxy optarg g
      else if c = CHR '':'' \<or> c = CHR ''h'' \<or> c = CHR ''?'' then Inl 2
      else if c = CHR ''c'' then Inr (g\<lparr>wb_clients := atoi optarg\<rparr>)
      else Inr g)"

fun wb_options :: "wb_opt list \<Rightarrow> wb_globals \<Rightarrow> int + wb_globals" where
  "wb_options [] g = Inr g"
| "wb_options (x # xs) g = (case wb_option x g of Inl n \<Rightarrow> Inl n | Inr g1 \<Rightarrow> wb_options xs g1)"

text \<open>\<open>main\<close> up to the call of \<open>bench\<close>: \<open>args\<close> says whether there are arguments, \<open>url\<close> is the first one that is no option.\<close>

definition wb_prepare :: "bool \<Rightarrow> wb_opt list \<Rightarrow> string option \<Rightarrow> wb_globals \<Rightarrow> (int + wb_globals) res" where
  "wb_prepare args opts url g =
     (if \<not> args then Inr (Inl 2)
      else case wb_options opts g of
             Inl n \<Rightarrow> Inr (Inl n)
           | Inr g1 \<Rightarrow>
               (case url of
                  None \<Rightarrow> Inr (Inl 2)
                | Some u \<Rightarrow>
                    let g2 = (if wb_clients g1 = 0 then g1\<lparr>wb_clients := 1\<rparr> else g1);
                        g3 = (if wb_benchtime g2 = 0 then g2\<lparr>wb_benchtime := 60\<rparr> else g2)
                    in build_request u g3))"

section \<open>Lemmas\<close>

lemma arr_text_strncpy:
  assumes "n \<le> length s" and "CHR 0x00 \<notin> set s" and "strncpy_arr (replicate k (CHR 0x00)) s n = Inr arr"
  shows "arr_text arr = (if n < k then Inr (take n s) else Inl OutOfRange)"
proof -
  have arr: "arr = take n s @ replicate (k - n) (CHR 0x00)" "n \<le> k"
    using assms by (auto simp: strncpy_arr_def split: if_splits)
  have nz: "CHR 0x00 \<notin> set (take n s)" using assms(2) by (auto dest: in_set_takeD)
  then have "takeWhile (\<lambda>c. c \<noteq> CHR 0x00) arr = take n s @ takeWhile (\<lambda>c. c \<noteq> CHR 0x00) (replicate (k - n) (CHR 0x00))"
    unfolding arr(1) by (intro takeWhile_append2) auto
  moreover have "takeWhile (\<lambda>c. c \<noteq> CHR 0x00) (replicate (k - n) (CHR 0x00)) = []" by (simp add: takeWhile_eq_Nil_iff)
  ultimately show ?thesis using arr nz by (auto simp: arr_text_def c_str_def)
qed

lemma fold_strcat:
  "length t + length (concat ss) < n \<Longrightarrow> fold_res (strcat_to n) ss t = Inr (t @ concat ss)"
  by (induction ss arbitrary: t) (auto simp: strcat_to_def)

lemma method_text_cases:
  "method_text m \<in> {''GET'', ''HEAD'', ''OPTIONS'', ''TRACE''}"
  by (simp add: method_text_def)

text \<open>The request fits its array, whatever the settings.\<close>

lemma request_pieces_fit:
  assumes "length target \<le> 1500" and "length hostname < 64"
  shows "length (concat (request_pieces http g target hostname)) < REQUEST_SIZE"
  using assms method_text_cases [of "wb_method g"]
  by (auto simp: request_pieces_def REQUEST_SIZE_def kCRLF_def)

text \<open>The checks of a URL before anything is copied.\<close>

definition url_accepted :: "string \<Rightarrow> wb_globals \<Rightarrow> bool" where
  "url_accepted url g \<longleftrightarrow> (case strstr url ''://'' of
      None \<Rightarrow> False
    | Some p \<Rightarrow> length url \<le> 1500 \<and> (wb_proxyhost g = None \<longrightarrow> same_prefix ''http://'' url) \<and> CHR ''/'' \<in> set (drop (p + 3) url))"

text \<open>The text after \<open>://\<close>, the length of the host name in it, and that of the port.\<close>

definition after_scheme :: "string \<Rightarrow> string" where
  "after_scheme url = drop (search_sub ''://'' url + 3) url"

definition host_length :: "string \<Rightarrow> nat" where
  "host_length rest = min (find_char (CHR '':'') rest) (find_char (CHR ''/'') rest)"

definition port_length :: "string \<Rightarrow> nat" where
  "port_length rest = find_char (CHR ''/'') rest - find_char (CHR '':'') rest - 1"

lemma strncpy_ok: "n \<le> k \<Longrightarrow> \<exists>arr. strncpy_arr (replicate k (CHR 0x00)) s n = Inr arr"
  "k < n \<Longrightarrow> strncpy_arr (replicate k (CHR 0x00)) s n = Inl OutOfRange"
  by (simp_all add: strncpy_arr_def)

lemma host_and_port_cases:
  assumes "CHR ''/'' \<in> set rest" and "CHR 0x00 \<notin> set rest"
  shows "if 64 < host_length rest \<or> 10 \<le> port_length rest then host_and_port rest port = Inl OutOfRange
    else \<exists>arr p. host_and_port rest port = Inr (arr, p) \<and>
      arr_text arr = (if host_length rest < 64 then Inr (take (host_length rest) rest) else Inl OutOfRange)"
proof -
  let ?c = "find_char (CHR '':'') rest" and ?s = "find_char (CHR ''/'') rest"
  have s: "?s < length rest" using assms(1) find_char_le [of "CHR ''/''" rest] find_char_eq_length [of "CHR ''/''" rest]
    by (auto simp: le_less)
  show ?thesis
  proof (cases "?c < ?s")
    case True
    then have h: "host_length rest = ?c" "?c < length rest" using s by (auto simp: host_length_def)
    have pl: "?s - ?c - 1 \<le> length (drop (Suc ?c) rest)" using s by simp
    have nz: "CHR 0x00 \<notin> set (drop (Suc ?c) rest)" using assms(2) by (auto dest: in_set_dropD)
    consider "64 < ?c" | "?c \<le> 64" "10 < port_length rest" | "?c \<le> 64" "port_length rest \<le> 10" by linarith
    then show ?thesis
    proof cases
      case 1
      with True h s show ?thesis by (simp add: host_and_port_def MAXHOSTNAMELEN_def strncpy_ok)
    next
      case 2
      with True h s strncpy_ok(1) [of ?c 64 rest] show ?thesis
        by (auto simp: host_and_port_def MAXHOSTNAMELEN_def strncpy_ok(2) port_length_def)
    next
      case 3
      obtain arr tmp where a: "strncpy_arr (replicate 64 (CHR 0x00)) rest ?c = Inr arr"
          "strncpy_arr (replicate 10 (CHR 0x00)) (drop (Suc ?c) rest) (?s - ?c - 1) = Inr tmp"
        using strncpy_ok(1) [of ?c 64 rest] strncpy_ok(1) [of "?s - ?c - 1" 10 "drop (Suc ?c) rest"] 3 by (auto simp: port_length_def)
      have "arr_text tmp = (if port_length rest < 10 then Inr (take (port_length rest) (drop (Suc ?c) rest)) else Inl OutOfRange)"
        using arr_text_strncpy [OF pl nz a(2)] by (simp add: port_length_def)
      moreover have "arr_text arr = (if ?c < 64 then Inr (take ?c rest) else Inl OutOfRange)"
        using arr_text_strncpy [OF _ assms(2) a(1)] h(2) by simp
      ultimately show ?thesis using 3 a True h by (simp add: host_and_port_def MAXHOSTNAMELEN_def Let_def)
    qed
  next
    case False
    then have h: "host_length rest = ?s" "port_length rest = 0" by (auto simp: host_length_def port_length_def)
    show ?thesis
    proof (cases "?s \<le> 64")
      case True
      then obtain arr where a: "strncpy_arr (replicate 64 (CHR 0x00)) rest ?s = Inr arr" using strncpy_ok(1) by blast
      with arr_text_strncpy [OF _ assms(2) a] s h False True show ?thesis
        by (simp add: host_and_port_def MAXHOSTNAMELEN_def)
    qed (use h False in \<open>simp add: host_and_port_def MAXHOSTNAMELEN_def strncpy_ok\<close>)
  qed
qed

text \<open>What \<open>build_request\<close> does with an accepted URL.\<close>

definition target_of :: "string \<Rightarrow> wb_globals \<Rightarrow> string" where
  "target_of url g =
     (if wb_proxyhost g = None then drop (find_char (CHR ''/'') (after_scheme url)) (after_scheme url) else url)"

lemma accepted_run:
  assumes "url_accepted url g"
  shows "build_request url g =
    bind_res (if wb_proxyhost g = None then host_and_port (after_scheme url) (wb_proxyport g)
      else Inr (replicate MAXHOSTNAMELEN (CHR 0x00), wb_proxyport g)) (\<lambda>(host, port).
    bind_res (if wb_proxyhost g = None \<and> 0 < pick_http g then arr_text host else Inr []) (\<lambda>hostname.
    bind_res (fold_res (strcat_to REQUEST_SIZE) (request_pieces (pick_http g) g (target_of url g) hostname) [])
      (\<lambda>req. Inr (Inr (g\<lparr>wb_http10 := pick_http g, wb_host := host, wb_proxyport := port, wb_request := req\<rparr>)))))"
    and "CHR ''/'' \<in> set (after_scheme url)" and "length url \<le> 1500" and "length (target_of url g) \<le> 1500"
proof -
  have u: "strstr url ''://'' = Some (search_sub ''://'' url)" "wb_proxyhost g = None \<longrightarrow> same_prefix ''http://'' url"
    using assms by (auto simp: url_accepted_def strstr_def Let_def split: option.splits if_splits)
  show sl: "CHR ''/'' \<in> set (after_scheme url)" and len: "length url \<le> 1500"
    using assms u(1) by (auto simp: url_accepted_def after_scheme_def)
  then show "length (target_of url g) \<le> 1500" by (auto simp: target_of_def after_scheme_def)
  show "build_request url g =
    bind_res (if wb_proxyhost g = None then host_and_port (after_scheme url) (wb_proxyport g)
      else Inr (replicate MAXHOSTNAMELEN (CHR 0x00), wb_proxyport g)) (\<lambda>(host, port).
    bind_res (if wb_proxyhost g = None \<and> 0 < pick_http g then arr_text host else Inr []) (\<lambda>hostname.
    bind_res (fold_res (strcat_to REQUEST_SIZE) (request_pieces (pick_http g) g (target_of url g) hostname) [])
      (\<lambda>req. Inr (Inr (g\<lparr>wb_http10 := pick_http g, wb_host := host, wb_proxyport := port, wb_request := req\<rparr>)))))"
    using u sl len by (cases "wb_proxyhost g") (simp_all add: build_request_def after_scheme_def target_of_def Let_def)
qed

lemma strcat_request:
  assumes "url_accepted url g" and "length hostname < 64"
  shows "fold_res (strcat_to REQUEST_SIZE) (request_pieces (pick_http g) g (target_of url g) hostname) [] =
      Inr (concat (request_pieces (pick_http g) g (target_of url g) hostname))"
    and "length (concat (request_pieces (pick_http g) g (target_of url g) hostname)) < REQUEST_SIZE"
  using fold_strcat [of "[]"] request_pieces_fit [OF accepted_run(4) [OF assms(1)] assms(2)] by simp_all

lemma fold_strcat_length: "fold_res (strcat_to n) ss t = Inr u \<Longrightarrow> length t < n \<Longrightarrow> length u < n"
  by (induction ss arbitrary: t) (auto simp: strcat_to_def bind_res_eq_Inr split: if_splits)

lemma build_request_length: "build_request url g = Inr (Inr g') \<Longrightarrow> length (wb_request g') < REQUEST_SIZE"
  by (auto simp: build_request_def Let_def bind_res_eq_Inr REQUEST_SIZE_def dest!: fold_strcat_length
      split: option.splits if_splits)

section \<open>Properties\<close>

text \<open>C35: the arrays of the request. For every URL and all settings \<open>build_request\<close> ends in one of three ways: it exits with code 2 if
  the URL is not accepted; without a proxy it leaves an array exactly if the host name has more than 64 characters, or the
  port 10 or more, or the host name has 64 and is read back for the header; otherwise it builds the
  request, which always fits its 2048 bytes.\<close>

theorem build_request_bounds:
  assumes "CHR 0x00 \<notin> set url"
  shows "if \<not> url_accepted url g then build_request url g = Inr (Inl 2)
    else if wb_proxyhost g = None \<and> (64 < host_length (after_scheme url) \<or> 10 \<le> port_length (after_scheme url) \<or>
        host_length (after_scheme url) = 64 \<and> 0 < pick_http g)
    then build_request url g = Inl OutOfRange
    else \<exists>g'. build_request url g = Inr (Inr g') \<and> length (wb_request g') < REQUEST_SIZE"
proof (cases "url_accepted url g")
  case False
  then show ?thesis by (auto simp: url_accepted_def build_request_def Let_def split: option.splits)
next
  case True
  let ?rest = "after_scheme url"
  have nz: "CHR 0x00 \<notin> set ?rest" using assms by (auto simp: after_scheme_def dest: in_set_dropD)
  note run = accepted_run(1) [OF True] and fits = strcat_request [OF True]
  show ?thesis
  proof (cases "wb_proxyhost g")
    case None
    then show ?thesis
      using True run host_and_port_cases [OF accepted_run(2) [OF True] nz, of "wb_proxyport g"] fits [of "[]"]
        fits [of "take (host_length ?rest) ?rest"]
      by (auto split: if_splits)
  next
    case (Some ph)
    then show ?thesis using True run fits [of "[]"] by simp
  qed
qed

theorem build_request_bounds_witness:
  "build_request (''http://'' @ replicate 65 (CHR ''a'') @ ''/'') wb_globals0 = Inl OutOfRange \<and>
   (\<exists>g. build_request ''http://localhost:8080/x'' wb_globals0 = Inr (Inr g) \<and> length (wb_request g) < REQUEST_SIZE)"
proof -
  let ?long = "''http://'' @ replicate 65 (CHR ''a'') @ ''/''" and ?short = "''http://localhost:8080/x''"
  have 1: "url_accepted ?long wb_globals0" "host_length (after_scheme ?long) = 65"
    by (simp_all add: url_accepted_def strstr_def same_prefix_def c_tolower_def after_scheme_def host_length_def wb_globals0_def
        find_char_append_notin)
  have 2: "url_accepted ?short wb_globals0" "host_length (after_scheme ?short) = 9" "port_length (after_scheme ?short) = 4"
    by (simp_all add: url_accepted_def strstr_def same_prefix_def c_tolower_def after_scheme_def host_length_def port_length_def
        wb_globals0_def)
  from build_request_bounds [of ?long wb_globals0] build_request_bounds [of ?short wb_globals0] 1 2 show ?thesis
    by (auto simp: wb_globals0_def)
qed

section \<open>The request as the server reads it\<close>

text \<open>A URL of a host name, a port that may be missing, and a target.\<close>

definition url_parts_ok :: "string \<Rightarrow> string \<Rightarrow> string \<Rightarrow> bool" where
  "url_parts_ok h port target \<longleftrightarrow>
     length (''http://'' @ h @ port @ target) \<le> 1500 \<and> CHR 0x00 \<notin> set (h @ port @ target) \<and>
     length h < 64 \<and> CHR ''/'' \<notin> set h \<and> header_ok (''Host'', h) \<and> CHR '':'' \<notin> set h \<and>
     (port = [] \<or> hd port = CHR '':'' \<and> CHR ''/'' \<notin> set port \<and> length port \<le> 10) \<and>
     target \<noteq> [] \<and> hd target = CHR ''/'' \<and> CHR '' '' \<notin> set target \<and> CHR 0x0D \<notin> set target"

definition bench_method :: "int \<Rightarrow> http_method" where
  "bench_method m = (if m = METHOD_HEAD then kHead else kGet)"

definition target_request :: "http_method \<Rightarrow> http_version \<Rightarrow> string \<Rightarrow> http_request" where
  "target_request m v target =
     (let q = find_char (CHR ''?'') target
      in \<lparr>req_method = m, req_version = v, req_path = take q target, req_query = drop q target, req_receiveTime = 0, req_headers = []\<rparr>)"

definition bench_headers :: "int \<Rightarrow> string \<Rightarrow> (string \<times> string) list" where
  "bench_headers http h = [(''User-Agent'', ''WebBench 1.5''), (''Host'', h)] @ (if http = 2 then [(''Connection'', ''close'')] else [])"

lemma nth_find_char: "find_char c xs < length xs \<Longrightarrow> xs ! find_char c xs = c"
  by (induction xs) (auto split: if_splits)

lemma target_request_ok:
  assumes "CHR '' '' \<notin> set target" and "CHR 0x0D \<notin> set target" and "m \<noteq> kInvalid" and "v \<noteq> kUnknown"
  shows "request_ok (target_request m v target)"
proof -
  let ?q = "find_char (CHR ''?'') target"
  have "CHR ''?'' \<notin> set (take ?q target)" by (rule find_char_take_notin)
  moreover have "drop ?q target = [] \<or> hd (drop ?q target) = CHR ''?''"
    by (cases "?q < length target") (simp_all add: hd_drop_conv_nth nth_find_char)
  ultimately show ?thesis
    using assms by (auto simp: request_ok_def target_request_def Let_def dest: in_set_takeD in_set_dropD)
qed

lemma url_parts:
  assumes "url_parts_ok h port target" and "wb_proxyhost g = None"
  defines "url \<equiv> ''http://'' @ h @ port @ target"
  shows "url_accepted url g" and "after_scheme url = h @ port @ target" and "host_length (after_scheme url) = length h"
    and "port_length (after_scheme url) = length port - 1" and "target_of url g = target" and "CHR 0x00 \<notin> set url"
proof -
  obtain ts where t: "target = CHR ''/'' # ts" using assms(1) by (cases target) (auto simp: url_parts_ok_def)
  have pre: "search_sub ''://'' url = 4" by (simp add: url_def)
  then show rest: "after_scheme url = h @ port @ target" by (simp add: after_scheme_def url_def)
  have "CHR ''/'' \<notin> set (h @ port)" using assms(1) by (auto simp: url_parts_ok_def)
  then have slash: "find_char (CHR ''/'') (h @ port @ target) = length h + length port"
    using find_char_append_notin [of "CHR ''/''" "h @ port" target] by (simp add: t)
  have colon: "find_char (CHR '':'') (h @ port @ target) = length h + find_char (CHR '':'') (port @ target)"
    using assms(1) by (intro find_char_append_notin) (simp add: url_parts_ok_def)
  have "port = [] \<or> find_char (CHR '':'') (port @ target) = 0" using assms(1) by (cases port) (auto simp: url_parts_ok_def)
  then show "host_length (after_scheme url) = length h" and "port_length (after_scheme url) = length port - 1"
    using slash colon by (auto simp: host_length_def port_length_def rest)
  show "target_of url g = target" using assms(2) slash rest by (simp add: target_of_def)
  show "CHR 0x00 \<notin> set url" using assms(1) by (simp add: url_parts_ok_def url_def)
  show "url_accepted url g"
    using assms(1) pre rest t
    by (simp add: url_accepted_def strstr_def same_prefix_def c_tolower_def url_parts_ok_def after_scheme_def url_def)
qed

lemma build_request_plain:
  assumes "url_parts_ok h port target" and "wb_proxyhost g = None"
  shows "\<exists>g'. build_request (''http://'' @ h @ port @ target) g = Inr (Inr g') \<and> wb_http10 g' = pick_http g \<and>
    wb_request g' = concat (request_pieces (pick_http g) g target h)"
proof -
  note u = url_parts [OF assms]
  let ?url = "''http://'' @ h @ port @ target"
  have nz: "CHR 0x00 \<notin> set (after_scheme ?url)" using u(6) by (auto simp: after_scheme_def dest: in_set_dropD)
  have len: "length h < 64" "length port \<le> 10" using assms(1) by (auto simp: url_parts_ok_def)
  obtain arr p where a: "host_and_port (after_scheme ?url) (wb_proxyport g) = Inr (arr, p)" "arr_text arr = Inr h"
    using host_and_port_cases [OF accepted_run(2) [OF u(1)] nz, of "wb_proxyport g"] u(2-4) len by (auto split: if_splits)
  have "request_pieces (pick_http g) g target [] = request_pieces (pick_http g) g target h" if "\<not> 0 < pick_http g"
    using that by (simp add: request_pieces_def)
  then show ?thesis
    using accepted_run(1) [OF u(1)] strcat_request [OF u(1), of h] strcat_request [OF u(1), of "[]"] u(5) a assms(2) len by auto
qed

lemma concat_request_pieces:
  assumes "wb_proxyhost g = None" and "wb_method g = METHOD_GET \<or> wb_method g = METHOD_HEAD" and "http = 1 \<or> http = 2"
  shows "concat (request_pieces http g target h) =
    render_request (target_request (bench_method (wb_method g)) (if http = 2 then kHttp11 else kHttp10) target) (bench_headers http h)"
  using assms
  by (auto simp: request_pieces_def render_request_def render_headers_def bench_headers_def target_request_def bench_method_def
      method_text_def methodString_def version_string_def Let_def METHOD_GET_def METHOD_HEAD_def METHOD_OPTIONS_def METHOD_TRACE_def)

text \<open>The request of an accepted URL for GET or HEAD over HTTP/1.0 or 1.1 is one a client of the library's parser may write.\<close>

lemma bench_request_written:
  assumes "url_parts_ok h port target" and "wb_proxyhost g = None"
    and "wb_method g = METHOD_GET \<or> wb_method g = METHOD_HEAD" and "pick_http g = 1 \<or> pick_http g = 2"
  defines "r \<equiv> target_request (bench_method (wb_method g)) (if pick_http g = 2 then kHttp11 else kHttp10) target"
    and "hs \<equiv> bench_headers (pick_http g) h"
  shows "\<exists>g'. build_request (''http://'' @ h @ port @ target) g = Inr (Inr g') \<and> wb_request g' = render_request r hs"
    and "request_ok r" and "list_all header_ok hs"
proof -
  show "\<exists>g'. build_request (''http://'' @ h @ port @ target) g = Inr (Inr g') \<and> wb_request g' = render_request r hs"
    using build_request_plain [OF assms(1,2)] concat_request_pieces [OF assms(2-4)] by (auto simp: r_def hs_def)
  show "request_ok r"
    unfolding r_def using assms(1) by (intro target_request_ok) (auto simp: url_parts_ok_def bench_method_def)
  show "list_all header_ok hs"
    using assms(1) by (auto simp: url_parts_ok_def hs_def bench_headers_def header_ok_def isspace_def)
qed

text \<open>The settings that options can lead to: long options set the method to one of the four constants.\<close>

fun opt_ok :: "wb_opt \<Rightarrow> bool" where
  "opt_ok (LongMethod m) \<longleftrightarrow> m \<in> {METHOD_GET, METHOD_HEAD, METHOD_OPTIONS, METHOD_TRACE}"
| "opt_ok _ \<longleftrightarrow> True"

definition settings_ok :: "wb_globals \<Rightarrow> bool" where
  "settings_ok g \<longleftrightarrow> wb_method g \<in> {METHOD_GET, METHOD_HEAD, METHOD_OPTIONS, METHOD_TRACE} \<and> wb_http10 g \<in> {0, 1, 2}"

lemma settings_ok_globals0: "settings_ok wb_globals0"
  by (simp add: settings_ok_def wb_globals0_def)

lemma settings_ok_option: "settings_ok g \<Longrightarrow> opt_ok x \<Longrightarrow> wb_option x g = Inr g' \<Longrightarrow> settings_ok g'"
  by (cases x) (auto simp: settings_ok_def parse_proxy_def split: if_splits option.splits)

lemma settings_ok_options: "settings_ok g \<Longrightarrow> list_all opt_ok opts \<Longrightarrow> wb_options opts g = Inr g' \<Longrightarrow> settings_ok g'"
proof (induction opts arbitrary: g)
  case (Cons x xs)
  then obtain g1 where "wb_option x g = Inr g1" "wb_options xs g1 = Inr g'" by (auto split: sum.splits)
  with Cons settings_ok_option [of g x g1] show ?case by simp
qed simp

end
