(* ===== verification/TA_WebbenchServer.thy ===== *)
theory TA_WebbenchServer
  imports TA_Webbench TA_HttpServer
begin

text \<open>
  The benchmark (\<open>webbench/webbench.c\<close>) against the HTTP server of the library (\<open>src/Http/HttpServer.cpp\<close>): from the command
  line of the client to the bytes the server writes.
\<close>

section \<open>Lemmas\<close>

text \<open>The request lines of the benchmark that the parser refuses: a line of HTTP/0.9 has no version, and the methods OPTIONS and TRACE
  are not known to it.\<close>

definition refused :: "int \<Rightarrow> int \<Rightarrow> bool" where
  "refused m http \<longleftrightarrow> m = METHOD_OPTIONS \<or> m = METHOD_TRACE \<or> http = 0"

lemma method_line_refused:
  assumes "m = METHOD_OPTIONS \<or> m = METHOD_TRACE \<or> CHR '' '' \<notin> set start"
  shows "\<exists>r. processRequestLine (method_text m @ CHR '' '' # start) HttpRequest_ctor = Inr (False, r)"
proof -
  let ?meth = "if m = METHOD_HEAD then kHead else if m = METHOD_OPTIONS \<or> m = METHOD_TRACE then kInvalid else kGet"
  have "CHR '' '' \<notin> set (method_text m)" using method_text_cases [of m] by auto
  then have sp: "find_char (CHR '' '') (method_text m @ CHR '' '' # start) = length (method_text m)" by simp
  have "setMethod (method_text m) HttpRequest_ctor = Inr (?meth \<noteq> kInvalid, HttpRequest_ctor\<lparr>req_method := ?meth\<rparr>)"
    by (simp add: method_text_def setMethod_def HttpRequest_ctor_def METHOD_HEAD_def METHOD_OPTIONS_def METHOD_TRACE_def)
  then show ?thesis
    using assms sp find_char_eq_length [of "CHR '' ''" start]
    by (auto simp: processRequestLine_def Let_def METHOD_HEAD_def METHOD_OPTIONS_def METHOD_TRACE_def)
qed

lemma refused_line:
  assumes "CHR '' '' \<notin> set target" and "refused m http"
  shows "\<exists>r. processRequestLine (method_text m @ '' '' @ target @ (if http = 1 then '' HTTP/1.0'' else if http = 2 then '' HTTP/1.1'' else []))
    HttpRequest_ctor = Inr (False, r)"
  using method_line_refused [of m "target @ (if http = 1 then '' HTTP/1.0'' else if http = 2 then '' HTTP/1.1'' else [])"] assms
  by (auto simp: refused_def)

lemma refused_request:
  assumes "CHR '' '' \<notin> set target" and "CHR 0x0D \<notin> set target" and "refused (wb_method g) http"
  shows "\<exists>c rest. parse_str t HttpContext_ctor (concat (request_pieces http g target h)) = Inr (False, c, rest)"
proof -
  let ?line = "method_text (wb_method g) @ '' '' @ target @ (if http = 1 then '' HTTP/1.0'' else if http = 2 then '' HTTP/1.1'' else [])"
  obtain rest where s: "concat (request_pieces http g target h) = ?line @ kCRLF @ rest"
    by (auto simp: request_pieces_def)
  obtain r where "processRequestLine ?line HttpRequest_ctor = Inr (False, r)" using refused_line [OF assms(1,3)] by blast
  moreover have "CHR 0x0D \<notin> set ?line" using assms(2) method_text_cases [of "wb_method g"] by auto
  ultimately show ?thesis
    unfolding s using find_crlf_line [of ?line rest] cut_line(1) [of ?line rest]
    by (simp add: parse_str_def HttpContext_ctor_def)
qed

lemma pick_http_cases:
  assumes "settings_ok g"
  shows "refused (wb_method g) (pick_http g) \<or>
    (wb_method g = METHOD_GET \<or> wb_method g = METHOD_HEAD) \<and> (pick_http g = 1 \<or> pick_http g = 2)"
  using assms by (auto simp: settings_ok_def refused_def pick_http_def Let_def METHOD_GET_def METHOD_HEAD_def
      METHOD_OPTIONS_def METHOD_TRACE_def)

text \<open>What the server gets from a request that is not refused; it asks to close the connection.\<close>

definition bench_req :: "int \<Rightarrow> wb_globals \<Rightarrow> string \<Rightarrow> string \<Rightarrow> http_request" where
  "bench_req t g target h =
     (target_request (bench_method (wb_method g)) (if pick_http g = 2 then kHttp11 else kHttp10) target)
       \<lparr>req_receiveTime := t, req_headers := add_headers (bench_headers (pick_http g) h) []\<rparr>"

lemma bench_req_closes:
  assumes "pick_http g = 1 \<or> pick_http g = 2"
  shows "wants_close (bench_req t g target h)"
  using assms
  by (auto simp: wants_close_def bench_req_def getHeader_def bench_headers_def add_headers_def target_request_def Let_def)

text \<open>The settings with which \<open>main\<close> builds the request.\<close>

lemma prepare_run:
  assumes "list_all opt_ok opts" and "wb_options opts wb_globals0 = Inr g"
  shows "\<exists>g1. wb_prepare True opts (Some url) wb_globals0 = build_request url g1 \<and> settings_ok g1 \<and>
    wb_method g1 = wb_method g \<and> pick_http g1 = pick_http g \<and> wb_proxyhost g1 = wb_proxyhost g"
proof -
  let ?g2 = "if wb_clients g = 0 then g\<lparr>wb_clients := 1\<rparr> else g"
  let ?g3 = "if wb_benchtime ?g2 = 0 then ?g2\<lparr>wb_benchtime := 60\<rparr> else ?g2"
  have "settings_ok g" by (rule settings_ok_options [OF settings_ok_globals0 assms])
  then have "settings_ok ?g3" by (simp add: settings_ok_def)
  moreover have "wb_prepare True opts (Some url) wb_globals0 = build_request url ?g3"
    using assms(2) by (simp add: wb_prepare_def Let_def)
  moreover have "wb_method ?g3 = wb_method g" "pick_http ?g3 = pick_http g" "wb_proxyhost ?g3 = wb_proxyhost g"
    by (simp_all add: pick_http_def)
  ultimately show ?thesis by blast
qed

section \<open>Properties\<close>

text \<open>A callback that leaves a closing response closing, with responses that fit a buffer.\<close>

definition callback_ok :: "(http_request \<Rightarrow> http_response \<Rightarrow> http_response) \<Rightarrow> bool" where
  "callback_ok http_cb \<longleftrightarrow> (\<forall>req. let resp = http_cb req (HttpResponse_ctor True)
     in resp_closeConnection resp \<and> length (concat (response_pieces resp)) < 2 ^ 31)"


text \<open>A connection that has just received a text.\<close>

definition received_conn :: "string \<Rightarrow> http_conn" where
  "received_conn s = \<lparr>hc_io = set_input \<lparr>m_buffer = replicate 8 (CHR 0x00) @ s, m_readerIndex = 8, m_writerIndex = 8 + length s\<rparr>
     sample_io, hc_context = Some HttpContext_ctor\<rparr>"

lemma received_conn_facts:
  assumes "length s < 2048"
  shows "hc_context (received_conn s) = Some HttpContext_ctor" "idle_conn (hc_io (received_conn s))"
    "contents (cn_inputBuffer (io_conn (hc_io (received_conn s)))) = s" "io_wire (hc_io (received_conn s)) = []"
proof -
  let ?b = "\<lparr>m_buffer = replicate 8 (CHR 0x00) @ s, m_readerIndex = 8, m_writerIndex = 8 + length s\<rparr>"
  have b: "buf_wf ?b" "contents ?b = s"
    using assms by (simp_all add: buf_wf_def contents_alt kCheapPrepend_def vector_max_size_def)
  then show "idle_conn (hc_io (received_conn s))" "contents (cn_inputBuffer (io_conn (hc_io (received_conn s)))) = s"
    using sample_io_facts(1,2,5,6)
    by (simp_all add: idle_conn_def received_conn_def io_inv_def set_input_def out_bytes_def conn_chan_def kWriteEvent_def EVENTOUT_def)
qed (simp_all add: received_conn_def set_input_def sample_io_facts)


end
