(* ===== verification/TA_WebbenchRun.thy ===== *)
theory TA_WebbenchRun
  imports TA_Webbench TA_Inet
begin

text \<open>
  The run of the benchmark (\<open>webbench/webbench.c\<close>: \<open>bench\<close>, \<open>benchcore\<close>; \<open>webbench/socket.c\<close>: \<open>Socket\<close>). A child makes requests
  until its alarm has rung and reports three counters through a pipe; the parent adds up the reports. The
  counters are \<open>int\<close>s that wrap. A run that does not return is \<open>None\<close>.

  Parameters: what each system call returns, given all the calls before it (\<open>bk_ret\<close>); when the signal handler has set
  \<open>timerexpired\<close> (\<open>bk_expired\<close>, on the calls made so far); the process calls of \<open>bench\<close> (\<open>bench_env\<close>). The calls of a process and
  their results are recorded.
\<close>

section \<open>System calls\<close>

text \<open>\<open>Gethostbyname\<close> returns -1 for no host, or the four bytes of the address as a number.\<close>

datatype bench_call =
    Inet_addr string
  | Gethostbyname string
  | New_socket
  | Connect_to int "8 word list"
  | Write_req int string
  | Shutdown_write int
  | Read_reply int nat
  | Close_fd int
  | Sigaction
  | Set_alarm int

type_synonym call_trace = "(bench_call \<times> int) list"

record bench_kernel =
  bk_ret :: "call_trace \<Rightarrow> bench_call \<Rightarrow> int"
  bk_expired :: "call_trace \<Rightarrow> bool"

definition bcall :: "bench_kernel \<Rightarrow> bench_call \<Rightarrow> call_trace \<Rightarrow> int \<times> call_trace" where
  "bcall k c tr = (let r = bk_ret k tr c in (r, tr @ [(c, r)]))"

section \<open>Connecting\<close>

definition INADDR_NONE :: int where "INADDR_NONE = 4294967295"

text \<open>The \<open>sockaddr_in\<close>: family, port and the bytes copied to \<open>sin_addr\<close>.\<close>

definition socket_address :: "8 word list \<Rightarrow> int \<Rightarrow> 8 word list" where
  "socket_address addr clientPort =
     set_port (hostToNetwork16 (word_of_int clientPort)) (put_bytes 4 addr (set_family AF_INET (replicate sizeof_sockaddr_in 0)))"

text \<open>The second half of \<open>Socket\<close>. A descriptor that can not be connected is not closed.\<close>

definition open_to :: "bench_kernel \<Rightarrow> 8 word list \<Rightarrow> int \<Rightarrow> call_trace \<Rightarrow> int \<times> call_trace" where
  "open_to k addr clientPort tr =
     (let (sock, tr1) = bcall k New_socket tr
      in if sock < 0 then (sock, tr1)
         else let (r, tr2) = bcall k (Connect_to sock (socket_address addr clientPort)) tr1
              in if r < 0 then (- 1, tr2) else (sock, tr2))"

text \<open>A numeric address is an \<open>unsigned long\<close>, eight bytes of which are copied; the upper four are zero.\<close>

definition Socket :: "bench_kernel \<Rightarrow> string \<Rightarrow> int \<Rightarrow> call_trace \<Rightarrow> int \<times> call_trace" where
  "Socket k host clientPort tr =
     (let (inaddr, tr1) = bcall k (Inet_addr host) tr
      in if inaddr \<noteq> INADDR_NONE then open_to k (le_bytes 8 (word_of_int inaddr :: 64 word)) clientPort tr1
         else let (hp, tr2) = bcall k (Gethostbyname host) tr1
              in if hp < 0 then (- 1, tr2) else open_to k (le_bytes 4 (word_of_int hp :: 32 word)) clientPort tr2)"

section \<open>Making requests\<close>

record bench_state =
  bs_trace :: call_trace
  bs_speed :: int
  bs_failed :: int
  bs_bytes :: int

definition bdo :: "bench_kernel \<Rightarrow> bench_call \<Rightarrow> bench_state \<Rightarrow> int \<times> bench_state" where
  "bdo k c st = (let (r, tr) = bcall k c (bs_trace st) in (r, st\<lparr>bs_trace := tr\<rparr>))"

definition count_failed :: "bench_state \<Rightarrow> bench_state" where
  "count_failed st = st\<lparr>bs_failed := wrap32 (bs_failed st + 1)\<rparr>"

text \<open>\<open>failed++; close(s)\<close>.\<close>

definition give_up :: "bench_kernel \<Rightarrow> int \<Rightarrow> bench_state \<Rightarrow> bench_state" where
  "give_up k s st = snd (bdo k (Close_fd s) (count_failed st))"

text \<open>Reading the reply; false is the jump to \<open>nexttry\<close> after an error.\<close>

partial_function (option) read_all :: "bench_kernel \<Rightarrow> int \<Rightarrow> bench_state \<Rightarrow> (bool \<times> bench_state) option" where
  [code]: "read_all k s st =
     (if bk_expired k (bs_trace st) then Some (True, st)
      else let (i, st1) = bdo k (Read_reply s 1500) st
           in if i < 0 then Some (False, give_up k s st1)
              else if i = 0 then Some (True, st1)
              else read_all k s (st1\<lparr>bs_bytes := wrap32 (bs_bytes st1 + i)\<rparr>))"

text \<open>One turn of the loop, from \<open>Socket\<close> on.\<close>

definition attempt :: "bench_kernel \<Rightarrow> int \<Rightarrow> bool \<Rightarrow> string \<Rightarrow> int \<Rightarrow> string \<Rightarrow> bench_state \<Rightarrow> bench_state option" where
  "attempt k http10 force host port req st =
     (let (s, tr) = Socket k host port (bs_trace st); st1 = st\<lparr>bs_trace := tr\<rparr>
      in if s < 0 then Some (count_failed st1)
         else let (w, st2) = bdo k (Write_req s req) st1
              in if int (length req) \<noteq> w then Some (give_up k s st2)
                 else let (r, st3) = (if http10 = 0 then bdo k (Shutdown_write s) st2 else (0, st2))
                      in if r \<noteq> 0 then Some (give_up k s st3)
                         else case (if force then Some (True, st3) else read_all k s st3) of
                                None \<Rightarrow> None
                              | Some (False, st4) \<Rightarrow> Some st4
                              | Some (True, st4) \<Rightarrow>
                                  (let (c, st5) = bdo k (Close_fd s) st4
                                   in Some (if c \<noteq> 0 then count_failed st5
                                            else st5\<lparr>bs_speed := wrap32 (bs_speed st5 + 1)\<rparr>)))"

partial_function (option) bench_loop :: "bench_kernel \<Rightarrow> int \<Rightarrow> bool \<Rightarrow> string \<Rightarrow> int \<Rightarrow> string \<Rightarrow> bench_state \<Rightarrow> bench_state option" where
  [code]: "bench_loop k http10 force host port req st =
     (if bk_expired k (bs_trace st)
      then Some (if 0 < bs_failed st then st\<lparr>bs_failed := bs_failed st - 1\<rparr> else st)
      else Option.bind (attempt k http10 force host port req st) (bench_loop k http10 force host port req))"

text \<open>\<open>benchcore\<close>; the left is the code of \<open>exit\<close>.\<close>

definition benchcore :: "bench_kernel \<Rightarrow> wb_globals \<Rightarrow> string \<Rightarrow> int \<Rightarrow> string \<Rightarrow> bench_state \<Rightarrow> (int + bench_state) option" where
  "benchcore k g host port req st =
     (let (r, st1) = bdo k Sigaction st
      in if r \<noteq> 0 then Some (Inl 3)
         else let (_, st2) = bdo k (Set_alarm (wb_benchtime g mod 2 ^ 32)) st1
              in map_option Inr (bench_loop k (wb_http10 g) (wb_force g) host port req st2))"

section \<open>Reports\<close>

text \<open>\<open>fprintf(f, "%d %d %d\n", speed, failed, bytes)\<close>.\<close>

definition report_text :: "int \<times> int \<times> int \<Rightarrow> string" where
  "report_text r = (let (speed, failed, bytes) = r
     in dec_int speed @ '' '' @ dec_int failed @ '' '' @ dec_int bytes @ [CHR 0x0A])"

text \<open>\<open>%d\<close> of \<open>fscanf\<close>. It reads until it sees a character that does not belong to the number, so it waits at the end of what
  was written; the parent keeps the pipe open for writing, so the end of the file is never reported.\<close>

datatype scan = Waits | Mismatch | Scanned int string

definition scan_d :: "string \<Rightarrow> scan" where
  "scan_d s =
     (let t = dropWhile isspace s;
          signed = (t \<noteq> [] \<and> (hd t = CHR ''-'' \<or> hd t = CHR ''+''));
          ds = (if signed then drop 1 t else t);
          rest = dropWhile is_digit ds
      in if rest = [] then Waits
         else if takeWhile is_digit ds = [] then Mismatch
         else Scanned (wrap32 (strtol10 t)) rest)"

text \<open>The items assigned before a mismatch, and the unread text.\<close>

fun scan_items :: "nat \<Rightarrow> string \<Rightarrow> (int list \<times> string) option" where
  "scan_items 0 s = Some ([], s)"
| "scan_items (Suc n) s = (case scan_d s of
      Waits \<Rightarrow> None
    | Mismatch \<Rightarrow> Some ([], s)
    | Scanned v rest \<Rightarrow> map_option (\<lambda>(vs, r). (v # vs, r)) (scan_items n rest))"

text \<open>The loop of the parent: \<open>clients\<close>, the sums, and the variables \<open>i\<close> and \<open>k\<close>, which keep their values if not assigned.\<close>

partial_function (option) collect_reports :: "int \<Rightarrow> int \<times> int \<times> int \<Rightarrow> int \<Rightarrow> int \<Rightarrow> string \<Rightarrow> ((int \<times> int \<times> int) \<times> int) option" where
  [code]: "collect_reports clients sums i k s =
     (case scan_items 3 s of
        None \<Rightarrow> None
      | Some (vs, rest) \<Rightarrow>
          (let i1 = (if vs = [] then i else vs ! 0)
           in if length vs < 2 then Some (sums, i1)
              else let k1 = (if length vs < 3 then k else vs ! 2); (speed, failed, bytes) = sums;
                       sums1 = (wrap32 (speed + i1), wrap32 (failed + vs ! 1), wrap32 (bytes + k1))
                   in if clients - 1 = 0 then Some (sums1, i1) else collect_reports (clients - 1) sums1 i1 k1 rest))"

section \<open>The processes\<close>

text \<open>\<open>be_fork i\<close> is what the \<open>i\<close>-th \<open>fork\<close> returns in this process, \<open>be_input\<close> all that is ever written to the
  pipe, \<open>be_junk\<close> the uninitialised \<open>k\<close>.\<close>

record bench_env =
  be_pipe :: int
  be_fork :: "int \<Rightarrow> int"
  be_fdopen :: bool
  be_input :: string
  be_junk :: int

function fork_loop :: "(int \<Rightarrow> int) \<Rightarrow> int \<Rightarrow> int \<Rightarrow> int \<Rightarrow> int \<times> int" where
  "fork_loop fork clients i pid =
     (if i < clients then (if fork i \<le> 0 then (i, fork i) else fork_loop fork clients (i + 1) (fork i)) else (i, pid))"
  by pat_completeness auto
termination by (relation "measure (\<lambda>(fork, clients, i, pid). nat (clients - i))") auto

declare fork_loop.simps [simp del]

text \<open>How the process ends: its code, what it wrote to the pipe, what it printed (the sums), and the calls it made.\<close>

record bench_end =
  en_code :: int
  en_written :: string
  en_report :: "(int \<times> int \<times> int) option"
  en_calls :: call_trace

definition ends :: "int \<Rightarrow> call_trace \<Rightarrow> bench_end" where
  "ends c tr = \<lparr>en_code = c, en_written = [], en_report = None, en_calls = tr\<rparr>"

definition bench_child :: "bench_env \<Rightarrow> bench_kernel \<Rightarrow> wb_globals \<Rightarrow> string \<Rightarrow> bench_state \<Rightarrow> bench_end option" where
  "bench_child env k g host st =
     (case benchcore k g host (wb_proxyport g) (wb_request g) st of
        None \<Rightarrow> None
      | Some (Inl c) \<Rightarrow> Some (ends c (bs_trace st @ [(Sigaction, bk_ret k (bs_trace st) Sigaction)]))
      | Some (Inr st1) \<Rightarrow>
          Some (if \<not> be_fdopen env then ends 3 (bs_trace st1)
                else (ends 0 (bs_trace st1))\<lparr>en_written := report_text (bs_speed st1, bs_failed st1, bs_bytes st1)\<rparr>))"

definition bench_parent :: "bench_env \<Rightarrow> wb_globals \<Rightarrow> int \<Rightarrow> bench_state \<Rightarrow> bench_end option" where
  "bench_parent env g i st =
     (if \<not> be_fdopen env then Some (ends 3 (bs_trace st))
      else map_option (\<lambda>(sums, i1). (ends i1 (bs_trace st))\<lparr>en_report := Some sums\<rparr>)
             (collect_reports (wb_clients g) (0, 0, 0) i (be_junk env) (be_input env)))"

text \<open>The host name given to \<open>Socket\<close>.\<close>

definition bench_host :: "wb_globals \<Rightarrow> string res" where
  "bench_host g = (case wb_proxyhost g of None \<Rightarrow> arr_text (wb_host g) | Some h \<Rightarrow> Inr h)"

definition bench :: "bench_env \<Rightarrow> bench_kernel \<Rightarrow> wb_globals \<Rightarrow> bench_state \<Rightarrow> bench_end res option" where
  "bench env k g st =
     (case bench_host g of
        Inl f \<Rightarrow> Some (Inl f)
      | Inr host \<Rightarrow>
          (let (s, tr) = Socket k host (wb_proxyport g) (bs_trace st)
           in if s < 0 then Some (Inr (ends 1 tr))
              else let st1 = snd (bdo k (Close_fd s) (st\<lparr>bs_trace := tr\<rparr>))
                   in if be_pipe env \<noteq> 0 then Some (Inr (ends 3 (bs_trace st1)))
                      else let (i, pid) = fork_loop (be_fork env) (wb_clients g) 0 0
                           in if pid < 0 then Some (Inr (ends 3 (bs_trace st1)))
                              else map_option Inr (if pid = 0 then bench_child env k g host st1 else bench_parent env g i st1)))"

text \<open>The counters as the program starts.\<close>

definition bench_start :: bench_state where
  "bench_start = \<lparr>bs_trace = [], bs_speed = 0, bs_failed = 0, bs_bytes = 0\<rparr>"

section \<open>What the calls amount to\<close>

text \<open>Connection attempts, descriptors connected, descriptors closed, texts sent and bytes received, in the order of the calls.\<close>

definition attempts :: "call_trace \<Rightarrow> nat" where
  "attempts tr = sum_list (map (\<lambda>(c, r). case c of Inet_addr h \<Rightarrow> 1 | _ \<Rightarrow> 0) tr)"

definition connected_fds :: "call_trace \<Rightarrow> int list" where
  "connected_fds tr = concat (map (\<lambda>(c, r). case c of Connect_to s a \<Rightarrow> if r < 0 then [] else [s] | _ \<Rightarrow> []) tr)"

definition closed_fds :: "call_trace \<Rightarrow> int list" where
  "closed_fds tr = concat (map (\<lambda>(c, r). case c of Close_fd s \<Rightarrow> [s] | _ \<Rightarrow> []) tr)"

definition requests_sent :: "call_trace \<Rightarrow> string list" where
  "requests_sent tr = concat (map (\<lambda>(c, r). case c of Write_req s q \<Rightarrow> [q] | _ \<Rightarrow> []) tr)"

definition received :: "call_trace \<Rightarrow> int" where
  "received tr = sum_list (map (\<lambda>(c, r). case c of Read_reply s n \<Rightarrow> max 0 r | _ \<Rightarrow> 0) tr)"

lemmas trace_defs = attempts_def connected_fds_def closed_fds_def requests_sent_def received_def

lemma trace_append [simp]:
  "attempts (a @ b) = attempts a + attempts b" "connected_fds (a @ b) = connected_fds a @ connected_fds b"
  "closed_fds (a @ b) = closed_fds a @ closed_fds b" "requests_sent (a @ b) = requests_sent a @ requests_sent b"
  "received (a @ b) = received a + received b"
  by (simp_all add: trace_defs)

lemma trace_Nil [simp]:
  "attempts [] = 0" "connected_fds [] = []" "closed_fds [] = []" "requests_sent [] = []" "received [] = 0"
  by (simp_all add: trace_defs)

lemma trace_Cons [simp]:
  "attempts ((c, r) # tr) = (case c of Inet_addr h \<Rightarrow> 1 | _ \<Rightarrow> 0) + attempts tr"
  "connected_fds ((c, r) # tr) = (case c of Connect_to s a \<Rightarrow> if r < 0 then [] else [s] | _ \<Rightarrow> []) @ connected_fds tr"
  "closed_fds ((c, r) # tr) = (case c of Close_fd s \<Rightarrow> [s] | _ \<Rightarrow> []) @ closed_fds tr"
  "requests_sent ((c, r) # tr) = (case c of Write_req s q \<Rightarrow> [q] | _ \<Rightarrow> []) @ requests_sent tr"
  "received ((c, r) # tr) = (case c of Read_reply s n \<Rightarrow> max 0 r | _ \<Rightarrow> 0) + received tr"
  by (simp_all add: trace_defs)

lemma wrap32_add [simp]: "wrap32 (wrap32 a + b) = wrap32 (a + b)"
proof -
  have "wrap32 a + b + 2 ^ 31 = (a + 2 ^ 31) mod 2 ^ 32 + b" by (simp add: wrap32_def)
  then have "(wrap32 a + b + 2 ^ 31) mod 2 ^ 32 = (a + b + 2 ^ 31) mod 2 ^ 32" by (metis add.assoc add.commute mod_add_left_eq)
  then show ?thesis by (simp only: wrap32_def)
qed

lemma attempts_le: "attempts tr \<le> length tr"
  by (induction tr) (auto simp: attempts_def split: bench_call.splits)

lemma Socket_calls:
  assumes "Socket k host port tr = (s, tr')"
  shows "\<exists>evs. tr' = tr @ evs \<and> attempts evs = 1 \<and> connected_fds evs = (if s < 0 then [] else [s]) \<and> closed_fds evs = [] \<and>
    requests_sent evs = [] \<and> received evs = 0"
  using assms by (auto simp: Socket_def open_to_def bcall_def Let_def trace_defs split: if_splits)

text \<open>The calls of a process are its steps: after \<open>n\<close> of them the alarm has rung.\<close>

definition alarm_within :: "bench_kernel \<Rightarrow> nat \<Rightarrow> bool" where
  "alarm_within k n \<longleftrightarrow> (\<forall>tr. n \<le> length tr \<longrightarrow> bk_expired k tr)"

lemma bdo_simps [simp]:
  "fst (bdo k c st) = bk_ret k (bs_trace st) c" "bs_trace (snd (bdo k c st)) = bs_trace st @ [(c, bk_ret k (bs_trace st) c)]"
  "bs_speed (snd (bdo k c st)) = bs_speed st" "bs_failed (snd (bdo k c st)) = bs_failed st" "bs_bytes (snd (bdo k c st)) = bs_bytes st"
  by (simp_all add: bdo_def bcall_def Let_def)

lemma bdo_eq: "bdo k c st = (bk_ret k (bs_trace st) c, st\<lparr>bs_trace := bs_trace st @ [(c, bk_ret k (bs_trace st) c)]\<rparr>)"
  by (simp add: bdo_def bcall_def Let_def)

text \<open>Reading ends; it has received the bytes it counted, and it has closed the descriptor exactly if it gave up.\<close>

lemma read_all_returns:
  assumes "alarm_within k n" and "bs_bytes st = wrap32 (bs_bytes st)"
  shows "\<exists>ok st' evs. read_all k s st = Some (ok, st') \<and> bs_trace st' = bs_trace st @ evs \<and>
    attempts evs = 0 \<and> connected_fds evs = [] \<and> requests_sent evs = [] \<and> closed_fds evs = (if ok then [] else [s]) \<and>
    bs_bytes st' = wrap32 (bs_bytes st + received evs) \<and> bs_speed st' = bs_speed st \<and>
    bs_failed st' = (if ok then bs_failed st else wrap32 (bs_failed st + 1))"
  using assms(2)
proof (induction "n - length (bs_trace st)" arbitrary: st rule: less_induct)
  case less
  let ?tr = "bs_trace st"
  let ?i = "bk_ret k ?tr (Read_reply s 1500)"
  let ?tr1 = "?tr @ [(Read_reply s 1500, ?i)]"
  consider "bk_expired k ?tr" | "\<not> bk_expired k ?tr" "?i < 0" | "\<not> bk_expired k ?tr" "?i = 0" | "\<not> bk_expired k ?tr" "0 < ?i"
    by linarith
  then show ?case
  proof cases
    case 1
    then show ?thesis using less.prems by (subst read_all.simps) (auto simp: trace_defs)
  next
    case 2
    then show ?thesis
      using less.prems by (subst read_all.simps) (auto simp: bdo_eq give_up_def count_failed_def trace_defs)
  next
    case 3
    then show ?thesis using less.prems by (subst read_all.simps) (auto simp: bdo_eq trace_defs)
  next
    case 4
    let ?st1 = "st\<lparr>bs_trace := ?tr1, bs_bytes := wrap32 (bs_bytes st + ?i)\<rparr>"
    have "length ?tr < n" using assms(1) 4(1) by (metis alarm_within_def not_le)
    then have "n - length (bs_trace ?st1) < n - length ?tr" by simp
    from less.hyps [OF this] obtain ok st' evs where r: "read_all k s ?st1 = Some (ok, st')" "bs_trace st' = ?tr1 @ evs"
        "attempts evs = 0" "connected_fds evs = []" "requests_sent evs = []" "closed_fds evs = (if ok then [] else [s])"
        "bs_bytes st' = wrap32 (bs_bytes ?st1 + received evs)" "bs_speed st' = bs_speed st"
        "bs_failed st' = (if ok then bs_failed st else wrap32 (bs_failed st + 1))"
      using wrap32_add [of _ 0] by auto
    have "read_all k s st = Some (ok, st')" using 4 r(1) by (subst read_all.simps) (simp add: bdo_eq)
    then show ?thesis
      using r 4(2) by (intro exI [of _ ok] exI [of _ st'] exI [of _ "(Read_reply s 1500, ?i) # evs"])
        (simp add: trace_defs add.assoc)
  qed
qed

text \<open>The counters after some calls: one of the two counts each attempt, and what was connected has been closed.\<close>

definition accounted :: "string \<Rightarrow> bench_state \<Rightarrow> bench_state \<Rightarrow> bool" where
  "accounted req st st' \<longleftrightarrow> (\<exists>evs. bs_trace st' = bs_trace st @ evs \<and> closed_fds evs = connected_fds evs \<and>
     set (requests_sent evs) \<subseteq> {req} \<and> bs_bytes st' = wrap32 (bs_bytes st + received evs) \<and>
     bs_speed st \<le> bs_speed st' \<and> bs_failed st \<le> bs_failed st' \<and>
     bs_speed st' + bs_failed st' = bs_speed st + bs_failed st + int (attempts evs))"

definition counters_ok :: "bench_state \<Rightarrow> bool" where
  "counters_ok st \<longleftrightarrow> bs_bytes st = wrap32 (bs_bytes st) \<and> 0 \<le> bs_speed st \<and> 0 \<le> bs_failed st"

lemma accounted_refl: "counters_ok st \<Longrightarrow> accounted req st st"
  unfolding accounted_def by (rule exI [of _ "[]"]) (simp add: trace_defs counters_ok_def)

lemma accounted_trans: "accounted req st st1 \<Longrightarrow> accounted req st1 st2 \<Longrightarrow> accounted req st st2"
  unfolding accounted_def by (elim exE, rename_tac e1 e2, rule_tac x = "e1 @ e2" in exI) (auto simp: add.assoc)

text \<open>What the calls of a turn have to be for it to be accounted: those of \<open>Socket\<close>, then others that close what it connected.\<close>

lemma turn_accounted:
  assumes "counters_ok st" and "attempts e1 = 1" and "closed_fds e1 = []" and "requests_sent e1 = []" and "received e1 = 0"
    and "bs_trace st' = bs_trace st @ e1 @ e2" and "attempts e2 = 0" and "closed_fds e2 = connected_fds e1" and "connected_fds e2 = []"
    and "set (requests_sent e2) \<subseteq> {req}" and "bs_bytes st' = wrap32 (bs_bytes st + received e2)"
    and "bs_speed st' = bs_speed st + 1 \<and> bs_failed st' = bs_failed st \<or> bs_speed st' = bs_speed st \<and> bs_failed st' = bs_failed st + 1"
  shows "accounted req st st' \<and> length (bs_trace st) < length (bs_trace st') \<and>
    bs_speed st' + bs_failed st' = bs_speed st + bs_failed st + 1 \<and> counters_ok st'"
proof -
  have "e1 \<noteq> []" using assms(2) by auto
  then show ?thesis
    unfolding accounted_def counters_ok_def
    using assms wrap32_add [of _ 0] by (intro conjI exI [of _ "e1 @ e2"]) (auto simp: counters_ok_def)
qed

lemma reply_phase:
  assumes "alarm_within k n" and "counters_ok st"
  obtains good st' evs where "(if force then Some (True, st) else read_all k s st) = Some (good, st')"
    "bs_trace st' = bs_trace st @ evs" "attempts evs = 0" "connected_fds evs = []" "requests_sent evs = []"
    "closed_fds evs = (if good then [] else [s])" "bs_bytes st' = wrap32 (bs_bytes st + received evs)"
    "bs_speed st' = bs_speed st" "bs_failed st' = (if good then bs_failed st else wrap32 (bs_failed st + 1))"
proof (cases force)
  case True
  show ?thesis by (rule that [of True st "[]"]) (use True assms(2) in \<open>simp_all add: counters_ok_def\<close>)
next
  case False
  with read_all_returns [OF assms(1), of st s] assms(2) that show ?thesis by (auto simp: counters_ok_def)
qed

text \<open>A turn is one attempt, it returns, and it is counted.\<close>

lemma attempt_accounted:
  assumes "alarm_within k n" and "counters_ok st" and "bs_speed st + bs_failed st + 1 < 2 ^ 31"
  shows "\<exists>st'. attempt k http10 force host port req st = Some st' \<and> accounted req st st' \<and>
    length (bs_trace st) < length (bs_trace st') \<and> bs_speed st' + bs_failed st' = bs_speed st + bs_failed st + 1 \<and> counters_ok st'"
proof -
  obtain s tr where sock: "Socket k host port (bs_trace st) = (s, tr)" by (cases "Socket k host port (bs_trace st)")
  from Socket_calls [OF sock] obtain e1 where e1: "tr = bs_trace st @ e1" "attempts e1 = 1"
      "connected_fds e1 = (if s < 0 then [] else [s])" "closed_fds e1 = []" "requests_sent e1 = []" "received e1 = 0"
    by blast
  have inc: "wrap32 (bs_failed st + 1) = bs_failed st + 1" "wrap32 (bs_speed st + 1) = bs_speed st + 1"
      "wrap32 (bs_bytes st) = bs_bytes st"
    using assms(2,3) by (simp_all add: counters_ok_def)
  note turn = turn_accounted [OF assms(2) e1(2,4,5,6)]
  let ?w = "bk_ret k tr (Write_req s req)"
  let ?tr2 = "tr @ [(Write_req s req, ?w)]"
  let ?e3 = "if http10 = 0 then [(Shutdown_write s, bk_ret k ?tr2 (Shutdown_write s))] else []"
  let ?st3 = "st\<lparr>bs_trace := ?tr2 @ ?e3\<rparr>"
  consider "s < 0" | "0 \<le> s" "int (length req) \<noteq> ?w" | "0 \<le> s" "int (length req) = ?w" "\<exists>x \<in> set ?e3. snd x \<noteq> 0"
    | "0 \<le> s" "int (length req) = ?w" "\<not> (\<exists>x \<in> set ?e3. snd x \<noteq> 0)"
    by linarith
  then show ?thesis
  proof cases
    case 1
    then show ?thesis
      using turn [of "count_failed (st\<lparr>bs_trace := tr\<rparr>)" "[]"] sock e1 inc by (simp add: attempt_def count_failed_def)
  next
    case 2
    then show ?thesis
      using turn [of "give_up k s (st\<lparr>bs_trace := ?tr2\<rparr>)" "(Write_req s req, ?w) # [(Close_fd s, bk_ret k ?tr2 (Close_fd s))]"]
        sock e1 inc by (simp add: attempt_def give_up_def count_failed_def bdo_eq)
  next
    case 3
    then show ?thesis
      using turn [of "give_up k s ?st3" "(Write_req s req, ?w) # ?e3 @ [(Close_fd s, bk_ret k (?tr2 @ ?e3) (Close_fd s))]"]
        sock e1 inc by (auto simp: attempt_def give_up_def count_failed_def bdo_eq split: if_splits)
  next
    case 4
    have "counters_ok ?st3" using assms(2) by (simp add: counters_ok_def)
    from reply_phase [OF assms(1) this, of force s] obtain good st4 e4 where
        r: "(if force then Some (True, ?st3) else read_all k s ?st3) = Some (good, st4)"
        "bs_trace st4 = bs_trace ?st3 @ e4" "attempts e4 = 0" "connected_fds e4 = []" "requests_sent e4 = []"
        "closed_fds e4 = (if good then [] else [s])" "bs_bytes st4 = wrap32 (bs_bytes ?st3 + received e4)"
        "bs_speed st4 = bs_speed ?st3" "bs_failed st4 = (if good then bs_failed ?st3 else wrap32 (bs_failed ?st3 + 1))" .
    let ?c = "bk_ret k (bs_trace st4) (Close_fd s)"
    let ?st5 = "if good then (if ?c \<noteq> 0 then count_failed (snd (bdo k (Close_fd s) st4))
        else (snd (bdo k (Close_fd s) st4))\<lparr>bs_speed := wrap32 (bs_speed st4 + 1)\<rparr>) else st4"
    have run: "attempt k http10 force host port req st = Some ?st5"
      using 4 sock r(1) by (auto simp: attempt_def bdo_eq split: if_splits)
    show ?thesis
      using run turn [of ?st5 "(Write_req s req, ?w) # ?e3 @ e4 @ (if good then [(Close_fd s, ?c)] else [])"] r(2-) e1 inc 4(1)
      by (cases good) (auto simp: count_failed_def bdo_eq)
  qed
qed

text \<open>The loop ends, and takes one failure back when there is any.\<close>

lemma bench_loop_accounted:
  assumes "alarm_within k n" and "counters_ok st" and "bs_speed st + bs_failed st + int (n - length (bs_trace st)) < 2 ^ 31"
  shows "\<exists>st1. accounted req st st1 \<and> counters_ok st1 \<and> bk_expired k (bs_trace st1) \<and>
    bench_loop k http10 force host port req st = Some (st1\<lparr>bs_failed := bs_failed st1 - (if 0 < bs_failed st1 then 1 else 0)\<rparr>)"
  using assms(2,3)
proof (induction "n - length (bs_trace st)" arbitrary: st rule: less_induct)
  case less
  show ?case
  proof (cases "bk_expired k (bs_trace st)")
    case True
    then show ?thesis
      using less.prems(1) by (intro exI [of _ st]) (auto simp: bench_loop.simps accounted_refl)
  next
    case False
    then have lt: "length (bs_trace st) < n" using assms(1) by (metis alarm_within_def not_le)
    with less.prems(2) have "bs_speed st + bs_failed st + 1 < 2 ^ 31" by linarith
    from attempt_accounted [OF assms(1) less.prems(1) this] obtain st1 where
        st1: "attempt k http10 force host port req st = Some st1" "accounted req st st1" "length (bs_trace st) < length (bs_trace st1)"
          "bs_speed st1 + bs_failed st1 = bs_speed st + bs_failed st + 1" "counters_ok st1"
      by blast
    have "n - length (bs_trace st1) < n - length (bs_trace st)" using lt st1(3) by simp
    moreover from this have "bs_speed st1 + bs_failed st1 + int (n - length (bs_trace st1)) < 2 ^ 31"
      using less.prems(2) st1(4) by linarith
    ultimately obtain st2 where "accounted req st1 st2" "counters_ok st2" "bk_expired k (bs_trace st2)"
        "bench_loop k http10 force host port req st1 = Some (st2\<lparr>bs_failed := bs_failed st2 - (if 0 < bs_failed st2 then 1 else 0)\<rparr>)"
      using less.hyps [of st1] st1(5) by blast
    then show ?thesis
      using False st1(1) accounted_trans [OF st1(2)] by (intro exI [of _ st2]) (simp add: bench_loop.simps [of _ _ _ _ _ _ st])
  qed
qed

section \<open>Scanning reports\<close>

definition int32 :: "int \<Rightarrow> bool" where
  "int32 v \<longleftrightarrow> - (2 ^ 31) \<le> v \<and> v < 2 ^ 31"

lemma dropWhile_spaces: "list_all isspace ws \<Longrightarrow> dropWhile isspace (ws @ s) = dropWhile isspace s"
  by (induction ws) auto

lemma scan_d_dec_int:
  assumes "list_all isspace ws" and "int32 v" and "\<not> is_digit c"
  shows "scan_d (ws @ dec_int v @ c # rest) = Scanned v (c # rest)"
proof -
  obtain n where n: "\<bar>v\<bar> = int n" by (metis abs_ge_zero nonneg_int_cases)
  let ?t = "if v < 0 then CHR ''-'' # dec_nat n @ c # rest else dec_nat n @ c # rest"
  have nv: "nat v = n \<or> v < 0" "nat (- v) = n \<or> \<not> v < 0" using n by linarith+
  then have tx: "dec_int v @ c # rest = ?t" by (auto simp: dec_int_def)
  obtain d ds where d: "dec_nat n = d # ds" "is_digit d" using dec_nat_hd [of n] by blast
  then have dsp: "\<not> isspace d" "d \<noteq> CHR ''-''" "d \<noteq> CHR ''+''" by (auto simp: is_digit_def isspace_def)
  have digs: "dropWhile is_digit (dec_nat n @ c # rest) = c # rest" "takeWhile is_digit (dec_nat n @ c # rest) = dec_nat n"
    using assms(3) dec_nat_digits [of _ n] by (simp_all add: dropWhile_append2 takeWhile_append2)
  have val: "digits_value 0 (dec_nat n @ c # rest) = n" using assms(3) by (intro digits_value_dec_nat_append) simp
  have sp: "dropWhile isspace ?t = ?t" using dsp d by (auto simp: isspace_def)
  have "strtol10 ?t = v"
    unfolding strtol10_def sp Let_def using val n assms(2) dsp d by (cases "v < 0") (simp_all add: int32_def)
  then show ?thesis
    unfolding tx scan_d_def dropWhile_spaces [OF assms(1)] sp Let_def
    using digs d dsp assms(2) by (cases "v < 0") (simp_all add: int32_def)
qed

lemma scan_report:
  assumes "list_all isspace ws" and "int32 a" and "int32 b" and "int32 c"
  shows "scan_items 3 (ws @ report_text (a, b, c) @ rest) = Some ([a, b, c], CHR 0x0A # rest)"
proof -
  have nd: "\<not> is_digit (CHR '' '')" "\<not> is_digit (CHR 0x0A)" and sp: "list_all isspace '' ''"
    by (simp_all add: is_digit_def isspace_def)
  show ?thesis
    using scan_d_dec_int [OF assms(1,2) nd(1), of "dec_int b @ '' '' @ dec_int c @ CHR 0x0A # rest"]
      scan_d_dec_int [OF sp assms(3) nd(1), of "dec_int c @ CHR 0x0A # rest"] scan_d_dec_int [OF sp assms(4) nd(2), of rest]
    by (simp add: numeral_3_eq_3 report_text_def)
qed

definition report_ok :: "int \<times> int \<times> int \<Rightarrow> bool" where
  "report_ok r \<longleftrightarrow> (case r of (a, b, c) \<Rightarrow> int32 a \<and> int32 b \<and> int32 c)"

definition add_reports :: "int \<times> int \<times> int \<Rightarrow> (int \<times> int \<times> int) list \<Rightarrow> int \<times> int \<times> int" where
  "add_reports sums rs = (case sums of (a, b, c) \<Rightarrow> (wrap32 (a + sum_list (map fst rs)),
     wrap32 (b + sum_list (map (fst \<circ> snd) rs)), wrap32 (c + sum_list (map (snd \<circ> snd) rs))))"

lemma scan_items_waits: "list_all isspace ws \<Longrightarrow> scan_items 3 ws = None"
proof -
  assume "list_all isspace ws"
  then have "dropWhile isspace ws = []" by (simp add: list_all_iff)
  then have "scan_d ws = Waits" by (simp only: scan_d_def Let_def) simp
  then show ?thesis by (simp add: numeral_3_eq_3)
qed

text \<open>As many reports as clients are added up; if there are fewer, the parent waits for ever.\<close>

lemma collect_reports_run:
  assumes "list_all report_ok rs" and "list_all isspace ws" and "0 < clients" and "int (length rs) \<le> clients"
  shows "collect_reports clients sums i k (ws @ concat (map report_text rs)) =
    (if int (length rs) = clients then Some (add_reports sums rs, fst (last rs)) else None)"
  using assms
proof (induction rs arbitrary: clients sums i k ws)
  case Nil
  then show ?case by (simp add: collect_reports.simps scan_items_waits)
next
  case (Cons r rs)
  obtain x y z where r: "r = (x, y, z)" by (cases r)
  obtain a b c where sums: "sums = (a, b, c)" by (cases sums)
  let ?sums1 = "(wrap32 (a + x), wrap32 (b + y), wrap32 (c + z))"
  have "scan_items 3 (ws @ concat (map report_text (r # rs))) = Some ([x, y, z], CHR 0x0A # concat (map report_text rs))"
    using scan_report [of ws x y z "concat (map report_text rs)"] Cons.prems r by (simp add: report_ok_def)
  then have step: "collect_reports clients sums i k (ws @ concat (map report_text (r # rs))) =
      (if clients - 1 = 0 then Some (?sums1, x) else collect_reports (clients - 1) ?sums1 x z (CHR 0x0A # concat (map report_text rs)))"
    by (subst collect_reports.simps) (simp add: sums)
  show ?case
  proof (cases "clients = 1")
    case True
    with Cons.prems(4) have "rs = []" by simp
    with True show ?thesis unfolding step by (simp add: r sums add_reports_def)
  next
    case False
    have add: "add_reports ?sums1 rs = add_reports sums (r # rs)" by (simp add: add_reports_def sums r add.assoc)
    have "list_all isspace [CHR 0x0A]" by (simp add: isspace_def)
    from Cons.IH [OF _ this, of "clients - 1" ?sums1 x z] Cons.prems False show ?thesis
      unfolding step add by (auto simp: r)
  qed
qed

lemma fork_loop_parent:
  assumes "\<And>j. 0 < fork j" and "i \<le> clients" and "i < clients \<or> 0 < pid"
  shows "fst (fork_loop fork clients i pid) = clients \<and> 0 < snd (fork_loop fork clients i pid)"
  using assms
proof (induction fork clients i pid rule: fork_loop.induct)
  case (1 fork clients i pid)
  have "\<not> fork i \<le> 0" using "1.prems"(1) [of i] by simp
  with 1 show ?case by (subst (1 2) fork_loop.simps) auto
qed

section \<open>Properties\<close>

text \<open>What both kinds of process do first.\<close>

lemma bench_run:
  assumes "bench_host g = Inr host" and "0 \<le> fst (Socket k host (wb_proxyport g) [])" and "be_pipe env = 0"
  shows "\<exists>st1. counters_ok st1 \<and> bs_speed st1 = 0 \<and> bs_failed st1 = 0 \<and> bs_bytes st1 = 0 \<and> attempts (bs_trace st1) = 1 \<and>
    closed_fds (bs_trace st1) = connected_fds (bs_trace st1) \<and> requests_sent (bs_trace st1) = [] \<and> received (bs_trace st1) = 0 \<and>
    bench env k g bench_start = (let (i, pid) = fork_loop (be_fork env) (wb_clients g) 0 0
      in if pid < 0 then Some (Inr (ends 3 (bs_trace st1)))
         else map_option Inr (if pid = 0 then bench_child env k g host st1 else bench_parent env g i st1))"
proof -
  obtain s tr where sock: "Socket k host (wb_proxyport g) [] = (s, tr)" by (cases "Socket k host (wb_proxyport g) []")
  then show ?thesis
    using Socket_calls [OF sock] assms
    by (intro exI [of _ "bench_start\<lparr>bs_trace := tr @ [(Close_fd s, bk_ret k tr (Close_fd s))]\<rparr>"])
      (auto simp: bench_def bench_start_def bdo_eq counters_ok_def Let_def split_beta)
qed

text \<open>C14: a child of the benchmark returns and accounts for what it did. If the alarm rings within some number of system calls, the process
  in which \<open>fork\<close> returned 0 makes its requests, each with exactly the text built from the URL, ends with code 0 and writes
  one report. Every connection attempt but the check at the start is counted once, as a success or as a failure; one failure is taken
  back if there is any, whether or not the alarm caused it; the bytes are those received, modulo \<open>2 ^ 32\<close>. Every connected
  descriptor is closed once, in order; one that could not be connected is not closed.\<close>

theorem bench_child_reports:
  assumes "alarm_within k n" and "n < 2 ^ 31" and "\<forall>tr. bk_ret k tr Sigaction = 0"
    and "bench_host g = Inr host" and "0 \<le> fst (Socket k host (wb_proxyport g) [])" and "be_pipe env = 0" and "be_fdopen env"
    and "snd (fork_loop (be_fork env) (wb_clients g) 0 0) = 0"
  shows "\<exists>e speed failed. bench env k g bench_start = Some (Inr e) \<and> en_code e = 0 \<and> en_report e = None \<and>
    0 \<le> speed \<and> 0 \<le> failed \<and> 1 + speed + failed = int (attempts (en_calls e)) \<and>
    en_written e = report_text (speed, if 0 < failed then failed - 1 else 0, wrap32 (received (en_calls e))) \<and>
    closed_fds (en_calls e) = connected_fds (en_calls e) \<and> set (requests_sent (en_calls e)) \<subseteq> {wb_request g}"
proof -
  from bench_run [OF assms(4-6)] obtain st1 where st1: "counters_ok st1" "bs_speed st1 = 0" "bs_failed st1 = 0" "bs_bytes st1 = 0"
      "attempts (bs_trace st1) = 1" "closed_fds (bs_trace st1) = connected_fds (bs_trace st1)" "requests_sent (bs_trace st1) = []"
      "received (bs_trace st1) = 0" "bench env k g bench_start = map_option Inr (bench_child env k g host st1)"
    using assms(8) by (auto simp: split_beta)
  let ?e2 = "[(Sigaction, 0), (Set_alarm (wb_benchtime g mod 2 ^ 32), bk_ret k (bs_trace st1 @ [(Sigaction, 0)]) (Set_alarm (wb_benchtime g mod 2 ^ 32)))]"
  let ?st2 = "st1\<lparr>bs_trace := bs_trace st1 @ ?e2\<rparr>"
  have "counters_ok ?st2" "bs_speed ?st2 + bs_failed ?st2 + int (n - length (bs_trace ?st2)) < 2 ^ 31"
    using st1(1-3) assms(2) by (auto simp: counters_ok_def)
  from bench_loop_accounted [OF assms(1) this, of "wb_request g" "wb_http10 g" "wb_force g" host "wb_proxyport g"] obtain st3 where
      st3: "accounted (wb_request g) ?st2 st3" "counters_ok st3"
        "bench_loop k (wb_http10 g) (wb_force g) host (wb_proxyport g) (wb_request g) ?st2 =
          Some (st3\<lparr>bs_failed := bs_failed st3 - (if 0 < bs_failed st3 then 1 else 0)\<rparr>)"
    by blast
  let ?st4 = "st3\<lparr>bs_failed := bs_failed st3 - (if 0 < bs_failed st3 then 1 else 0)\<rparr>"
  have "benchcore k g host (wb_proxyport g) (wb_request g) st1 = Some (Inr ?st4)"
    using assms(3) st3(3) by (simp add: benchcore_def bdo_eq)
  then have run: "bench env k g bench_start = Some (Inr ((ends 0 (bs_trace st3))\<lparr>en_written :=
      report_text (bs_speed ?st4, bs_failed ?st4, bs_bytes ?st4)\<rparr>))"
    using st1(9) assms(7) by (simp add: bench_child_def)
  from st3(1) obtain evs where "bs_trace st3 = bs_trace st1 @ ?e2 @ evs" "closed_fds evs = connected_fds evs"
      "set (requests_sent evs) \<subseteq> {wb_request g}" "bs_bytes st3 = wrap32 (received evs)"
      "bs_speed st3 + bs_failed st3 = int (attempts evs)"
    using st1(2-4) by (auto simp: accounted_def)
  with run st1 st3(2) show ?thesis
    by (intro exI conjI) (assumption | auto simp: ends_def counters_ok_def)+
qed

text \<open>A server that answers 40 bytes to every request, and an alarm after 20 calls.\<close>

definition sample_kernel :: bench_kernel where
  "sample_kernel = \<lparr>bk_ret = (\<lambda>tr c. case c of Inet_addr h \<Rightarrow> 16777343 | New_socket \<Rightarrow> 3 | Write_req s q \<Rightarrow> int (length q)
       | Read_reply s n \<Rightarrow> (case fst (last tr) of Write_req s q \<Rightarrow> 40 | _ \<Rightarrow> 0) | _ \<Rightarrow> 0),
     bk_expired = (\<lambda>tr. 20 \<le> length tr)\<rparr>"

definition sample_settings :: wb_globals where
  "sample_settings = wb_globals0\<lparr>wb_clients := 2, wb_host := ''h'' @ replicate 63 (CHR 0x00), wb_request := ''GET / HTTP/1.0''\<rparr>"

lemma sample_run_facts:
  "bench_host sample_settings = Inr ''h''" "0 \<le> fst (Socket sample_kernel ''h'' (wb_proxyport sample_settings) [])"
  "alarm_within sample_kernel 20" "\<forall>tr. bk_ret sample_kernel tr Sigaction = 0" "wb_clients sample_settings = 2"
  by (simp_all add: bench_host_def arr_text_def c_str_def sample_settings_def sample_kernel_def wb_globals0_def Socket_def open_to_def
      bcall_def INADDR_NONE_def alarm_within_def)

theorem bench_child_reports_witness:
  "\<exists>e speed failed. bench \<lparr>be_pipe = 0, be_fork = (\<lambda>j. 0), be_fdopen = True, be_input = [], be_junk = 7\<rparr> sample_kernel sample_settings
      bench_start = Some (Inr e) \<and> en_code e = 0 \<and> 1 + speed + failed = int (attempts (en_calls e)) \<and>
    en_written e = report_text (speed, if 0 < failed then failed - 1 else 0, wrap32 (received (en_calls e)))"
proof -
  let ?env = "\<lparr>be_pipe = 0, be_fork = (\<lambda>j. 0), be_fdopen = True, be_input = [], be_junk = 7\<rparr>"
  have "snd (fork_loop (be_fork ?env) (wb_clients sample_settings) 0 0) = 0" by (simp add: fork_loop.simps)
  moreover have "(20 :: nat) < 2 ^ 31" "be_pipe ?env = 0" "be_fdopen ?env" by simp_all
  ultimately show ?thesis using bench_child_reports [OF sample_run_facts(3) _ sample_run_facts(4,1,2), of ?env] by blast
qed

text \<open>C15: the parent adds up the reports. After all forks succeed, the text of the reports of the children, in whatever order they
  wrote them, is scanned back: with one report for each client the parent prints the sums (modulo \<open>2 ^ 32\<close>) and ends, its exit
  code being the page count of the last report read; with fewer, because a child died, it waits for ever, since it holds the
  writing end of the pipe itself.\<close>

theorem bench_parent_sums:
  assumes "0 < wb_clients g" and "bench_host g = Inr host" and "0 \<le> fst (Socket k host (wb_proxyport g) [])"
    and "be_pipe env = 0" and "be_fdopen env" and "\<And>j. 0 < be_fork env j"
    and "be_input env = concat (map report_text rs)" and "list_all report_ok rs" and "int (length rs) \<le> wb_clients g"
  shows "if int (length rs) = wb_clients g
    then \<exists>e. bench env k g bench_start = Some (Inr e) \<and> en_code e = fst (last rs) \<and>
      en_report e = Some (wrap32 (sum_list (map fst rs)), wrap32 (sum_list (map (fst \<circ> snd) rs)), wrap32 (sum_list (map (snd \<circ> snd) rs)))
    else bench env k g bench_start = None"
proof -
  have pid: "fst (fork_loop (be_fork env) (wb_clients g) 0 0) = wb_clients g" "0 < snd (fork_loop (be_fork env) (wb_clients g) 0 0)"
    using fork_loop_parent [of "be_fork env" 0 "wb_clients g" 0] assms(1,6) by auto
  with bench_run [OF assms(2-4)] obtain st1 where
      "bench env k g bench_start = map_option Inr (bench_parent env g (wb_clients g) st1)"
    by (auto simp: split_beta)
  then show ?thesis
    using collect_reports_run [OF assms(8) _ assms(1,9), of "[]"] assms(5,7)
    by (auto simp: bench_parent_def ends_def add_reports_def)
qed

theorem bench_parent_sums_witness:
  "(\<exists>e. bench \<lparr>be_pipe = 0, be_fork = (\<lambda>j. 100 + j * j), be_fdopen = True, be_input = report_text (10, 1, 500) @ report_text (7, 0, 350),
      be_junk = 7\<rparr> sample_kernel sample_settings bench_start = Some (Inr e) \<and> en_code e = 7 \<and> en_report e = Some (17, 1, 850)) \<and>
   bench \<lparr>be_pipe = 0, be_fork = (\<lambda>j. 100 + j * j), be_fdopen = True, be_input = report_text (10, 1, 500), be_junk = 7\<rparr>
      sample_kernel sample_settings bench_start = None"
proof -
  let ?env = "\<lambda>rs. \<lparr>be_pipe = 0, be_fork = (\<lambda>j. 100 + j * j), be_fdopen = True, be_input = concat (map report_text rs), be_junk = 7\<rparr>"
  have pos: "0 < be_fork (?env rs) j" for rs j by (simp add: add_pos_nonneg)
  have ok: "list_all report_ok [(10, 1, 500), (7, 0, 350)]" "list_all report_ok [(10, 1, 500)]"
    by (simp_all add: report_ok_def int32_def)
  have env: "be_pipe (?env rs) = 0" "be_fdopen (?env rs)" "be_input (?env rs) = concat (map report_text rs)" for rs by simp_all
  have two: "0 < wb_clients sample_settings" by (simp add: sample_run_facts(5))
  note sums = bench_parent_sums [OF two sample_run_facts(1,2) env(1,2) pos env(3)]
  from sums [OF ok(1)] sums [OF ok(2)] show ?thesis by (simp add: sample_run_facts(5))
qed

end
