(* ===== verification/Spec2Isabelle.thy ===== *)
theory Spec2Isabelle
  imports TA_HttpServer TA_TimerQueue TA_AsyncLogging TA_ResPool TA_MySQLPool TA_Poll TA_StaticServer
    TA_Socket TA_LogLife TA_Calendar TA_Ownership TA_LoopLife TA_RemoteSend TA_EchoServer
    TA_ServerTurn TA_WebbenchServer TA_WebbenchRun
begin

text \<open>
  A verification development of TAlib, a C++ network library (sources under \<open>src/src\<close>): a reactor with timers, a TCP and
  an HTTP server, an asynchronous logger, a cache, and clients for Redis and MySQL.

  \<^bold>\<open>The program.\<close> One thread per \<open>EventLoop\<close> waits in a \<open>Poller\<close> for the descriptors of its \<open>Channel\<close>s,
  dispatches their events, and then runs the functors other threads queued. A \<open>TcpServer\<close> accepts connections in the
  base loop (\<open>Acceptor\<close>) and gives each to a loop of the \<open>EventLoopThreadPool\<close>; a \<open>TcpConnection\<close> reads into
  a \<open>Buffer\<close> and calls the \<open>HttpServer\<close>, which parses with an \<open>HttpContext\<close>, asks the user's callback for
  an \<open>HttpResponse\<close> and sends it. \<open>TimerQueue\<close> is one more channel of a loop. Log lines are laid out in a
  \<open>LogStream\<close> and handed to the \<open>AsyncLogging\<close> thread. The static server answers from an \<open>LFUCache\<close>; \<open>RedisConnect\<close>
  and its \<open>ResPool\<close>, and the MySQL \<open>Pool\<close>, are clients of their servers. \<open>webbench\<close> is
  the client with which the HTTP server is measured.

  \<^bold>\<open>Conventions\<close> (\<open>TA_Prelude\<close>). A failed assertion, an abort, a null, dangling or out-of-range access is a value of
  \<open>fault\<close>; an operation that can end so returns \<open>fault + 'a\<close>. \<open>size_t\<close> and \<open>int\<close> are \<open>nat\<close> and \<open>int\<close>
  with the wrap-around and the conversions written out; event masks are words. Objects that are shared by pointer
  (channels, timers, list nodes) live in an explicit store. Loops that may not end are partial functions into
  \<open>option\<close>, where \<open>None\<close> is non-termination; there is no fuel. What threads interleave are the steps
  between two locks, as \<open>inductive\<close> relations. System calls, the clock, user callbacks and the client libraries are arguments
  of the definitions; what a theorem needs of them is a named hypothesis that states the documented behaviour
  (for instance \<open>epoll_wait_ok\<close>, \<open>sys_poll_ok\<close>, \<open>tx_ok\<close>).

  \<^bold>\<open>Theories.\<close>
  \<^item> \<open>TA_Prelude\<close>, \<open>TA_Format\<close>: faults, machine integers, ordered sets and maps, \<open>snprintf\<close> and \<open>atoi\<close>.
  \<^item> \<open>TA_Steps\<close>: the interfaces of interleaved systems as locales: an invariant kept by the steps, and a simulation of
    a specification.
  \<^item> \<open>TA_Buffer\<close> (\<open>common/Buffer\<close>): the vector with its two indices implements a queue of bytes, with the locale
    \<open>byte_queue\<close> through which every other theory uses it; \<open>readFd\<close> with the overflow buffer on the stack.
  \<^item> \<open>TA_Http\<close> (\<open>Http/HttpRequest.h\<close>, \<open>HttpContext\<close>): the parser ends and equals a reference parser, pieces equal the
    whole, writing and parsing are inverse; and where the loop does not end.
  \<^item> \<open>TA_HttpResponse\<close> (\<open>HttpResponse\<close>, \<open>Mimetype\<close>): a client reads the response back.
  \<^item> \<open>TA_TimerQueue\<close> (\<open>Reactor/Timer\<close>, \<open>TimerQueue\<close>, \<open>common/TimeStamp\<close>): memory safety and consistency of the two
    sets under callbacks that call back, exactly the due timers fire, the descriptor is armed for the earliest.
  \<^item> \<open>TA_Reactor\<close> (\<open>Channel\<close>, \<open>Poller\<close>, \<open>Socket/Epoll\<close>): the locale \<open>poller\<close> and its interpretation by the epoll
    poller; interest reaches the kernel; \<open>poll\<close> reports what is ready.
  \<^item> \<open>TA_Poll\<close> (\<open>Reactor/Poll\<close>): the array of entries and the indices in the channels; what is reported, and the removal that
    follows a null pointer. It does not satisfy the laws of \<open>poller\<close>: a masked channel is never watched again.
  \<^item> \<open>TA_EventLoop\<close> (\<open>EventLoop\<close>, \<open>EventLoopThreadPool\<close>): no functor and no wake-up is lost in any interleaving, pending
    functors run, loops are handed out in turn.
  \<^item> \<open>TA_TcpConnection\<close> (\<open>Tcp/TcpConnection\<close>): bytes leave in order, closing and destruction, the stall after a partial
    write.
  \<^item> \<open>TA_RemoteSend\<close> (\<open>TcpConnection::send\<close> in other threads): queued sends hold addresses; what is sent depends on the memory.
  \<^item> \<open>TA_EchoServer\<close> (\<open>example/tcp_server_example.cpp\<close>): the message callback on connection and buffer, and the bytes of earlier
    messages it answers with.
  \<^item> \<open>TA_HttpServer\<close> (\<open>Http/HttpServer\<close>, \<open>Tcp/TcpServer\<close>, \<open>Reactor/Acceptor\<close>): a request that arrives is answered
    with the response of the callback; bad requests; names of connections; progress of the acceptor.
  \<^item> \<open>TA_ServerTurn\<close> (\<open>EventLoop::loop\<close>, \<open>Channel\<close>, \<open>TcpConnection::handleRead\<close>, \<open>HttpServer\<close>): turns of the loop for one HTTP connection, from
    the poller to the response.
  \<^item> \<open>TA_LoopLife\<close> (\<open>EventLoop\<close>, \<open>TimerQueue\<close>): the loop as the owner of its poller, timer queue and wake-up channel: what
    construction registers, what destruction gives back, and the timers added through the loop.
  \<^item> \<open>TA_Thread\<close> (\<open>Logger/Thread\<close>, \<open>Condition\<close>, \<open>Reactor/CurrentThread.h\<close>, \<open>EventLoopThread\<close>): the calls of a thread
    object; owner and thread of a
    loop interleaved over mutex and condition variable: starting returns a live loop, destruction finishes.
  \<^item> \<open>TA_Inet\<close> (\<open>common/Endian.h\<close>, \<open>Socket/InetAddress\<close>) and \<open>TA_Socket\<close> (\<open>SocketHelp\<close>, \<open>Socket\<close>, \<open>Acceptor\<close>): addresses as
    images of 28 bytes, their texts; each wrapper as the system calls, log lines and \<open>errno\<close> it makes, in the state monad over a
    kernel that is a parameter.
  \<^item> \<open>TA_LogStream\<close> (\<open>LogStream\<close>, \<open>Logger\<close>) and \<open>TA_AsyncLogging\<close> (\<open>AsyncLogging\<close>, \<open>LogFile\<close>, \<open>FileUtil\<close>, \<open>ptr_vector\<close>): bounds
    and correctness of the conversions; safety and order of the lines through the back-end thread; rolling.
  \<^item> \<open>TA_LogLife\<close> (\<open>Logger\<close>, \<open>AsyncLogging\<close>, \<open>FileUtil\<close>, \<open>Fmt\<close>): the settings of the logger and the object that owns the back-end
    thread: which calls pass the assertions.
  \<^item> \<open>TA_Calendar\<close> (\<open>TimeStamp::toFormattedString\<close>, \<open>LogFile::getlogFileName\<close>): \<open>gmtime_r\<close> as a calendar, inverse to \<open>timegm\<close>, and the
    texts made from it.
  \<^item> \<open>TA_Ownership\<close> (\<open>Logger/ptr_vector.h\<close>, \<open>scoped_ptr.h\<close>, \<open>common/Atomic.h\<close>): owned objects on an explicit heap are deleted
    exactly once; results of the atomic counter.
  \<^item> \<open>TA_RedisCommand\<close>, \<open>TA_RedisConnect\<close> (\<open>Redis/RedisConnect.h\<close>, \<open>RedisCache\<close>): requests and replies are inverse, \<open>get\<close>
    returns what the server sends however it is cut and delayed; replies that are parsed wrongly or for ever.
  \<^item> \<open>TA_ResPool\<close> (\<open>Redis/ResPool.h\<close>): a pooled resource has one holder in every interleaving.
  \<^item> \<open>TA_MySQLPool\<close> (\<open>MySQL/pool\<close>): the pool simulates lending each connection to one client; results of queries.
  \<^item> \<open>TA_Node\<close>, \<open>TA_LFUCache\<close>, \<open>TA_LFUSpec\<close>, \<open>TA_LFURuns\<close> (\<open>cache/LFUCache\<close>): doubly linked lists on a heap; the operations; the
    specification as buckets of entries and the refinement; sequences of operations, the bound on the number of
    keys and its failure, the destructor. The locale \<open>loader_cache\<close> is what a client of the cache relies on.
  \<^item> \<open>TA_StaticServer\<close> (\<open>example/static_server_example.cpp\<close>): the request handler on top of cache, media types and
    response serves the files.
  \<^item> \<open>TA_Webbench\<close> (\<open>webbench/webbench.c\<close>): options and the request built from a URL, with the bounds of its arrays;
    \<open>TA_WebbenchRun\<close> (\<open>webbench.c\<close>, \<open>socket.c\<close>): the requests of a child until the alarm, the report through the pipe, the sums of the
    parent; \<open>TA_WebbenchServer\<close>: the benchmark's requests answered by the HTTP server of the library.

  \<^bold>\<open>Bounds.\<close> Theorems about the epoll poller ask for at most 10000 channels, the size its event array can reach; those about
  counters ask that they have not passed the range of \<open>int\<close>; the body of a response is below \<open>10 ^ 13\<close> bytes, the
  largest length whose header line fits the code's buffer of 32 bytes; a piece of a request read in one turn fits the 10240 bytes
  that \<open>readFd\<close> keeps on the stack; a child of the benchmark makes fewer than \<open>2 ^ 31\<close> calls before its alarm.

  \<^bold>\<open>Not modelled.\<close> \<open>sockets::read\<close>, \<open>readv\<close> and \<open>write\<close>, which pass their arguments on and are the parameters of \<open>Buffer\<close> and
  \<open>TcpConnection\<close>; \<open>noncopyable\<close>, \<open>CallBacks.h\<close>, \<open>S.h\<close> and \<open>Reactor.h\<close>, which declare types or include files; the Windows branches of
  \<open>RedisConnect.h\<close>; the texts Webbench prints (help,
  settings, and two rates computed in floating point); the main functions of the example programs, and the callbacks of
  \<open>http_server_example.cpp\<close>, which are not registered.
\<close>

end
